(* ===== verification/Fxp_Prelude.thy ===== *)
theory Fxp_Prelude
  imports Main "HOL-Library.Monad_Syntax" "HOL-Library.Multiset"
begin

text \<open>
  Shared vocabulary of the development: the machine integers of the Rust code, the two
  standard-library maps it uses (\<^verbatim>\<open>HashMap\<close> and \<^verbatim>\<open>BTreeMap\<close>), loops whose body may
  panic, and the generic list facts the components rest on.

  A Rust call that may panic (an \<^verbatim>\<open>expect\<close>, an index into a map) or may not terminate
  is a function into \<open>option\<close>: \<open>None\<close> means that the call does not return. Every claim
  that such a call returns is proved as an existence statement.
\<close>

named_theorems map_laws \<open>equations of the map operations\<close>
named_theorems wf_rules \<open>preservation of well-formedness\<close>

section \<open>Machine integers\<close>

text \<open>
  An unsigned 32-bit value is a \<open>nat\<close> below \<open>2 ^ 32\<close>; the operators of the release build
  wrap around and the wrap-around is written out. Signed values are \<open>int\<close>.
\<close>

definition add_u32 :: "nat \<Rightarrow> nat \<Rightarrow> nat" where
  "add_u32 a b = (a + b) mod 4294967296"

definition sub_u32 :: "nat \<Rightarrow> nat \<Rightarrow> nat" where
  "sub_u32 a b = (if b \<le> a then a - b else a + 4294967296 - b)"

definition as_u32 :: "int \<Rightarrow> nat" where
  "as_u32 i = nat (i mod 4294967296)"

definition as_i32 :: "nat \<Rightarrow> int" where
  "as_i32 n = (let r = int (n mod 4294967296) in if r < 2147483648 then r else r - 4294967296)"

lemma add_u32_exact [simp]: "a + b < 4294967296 \<Longrightarrow> add_u32 a b = a + b"
  by (simp add: add_u32_def)

lemma sub_u32_exact [simp]: "b \<le> a \<Longrightarrow> sub_u32 a b = a - b"
  by (simp add: sub_u32_def)

lemma add_u32_bound: "add_u32 a b < 4294967296"
  by (simp add: add_u32_def)

lemma sub_u32_bound: "a < 4294967296 \<Longrightarrow> b < 4294967296 \<Longrightarrow> sub_u32 a b < 4294967296"
  by (auto simp: sub_u32_def)

lemma as_u32_exact: "0 \<le> i \<Longrightarrow> i < 4294967296 \<Longrightarrow> as_u32 i = nat i"
  by (simp add: as_u32_def)

lemma as_u32_bound: "as_u32 i < 4294967296"
  by (simp add: as_u32_def nat_less_iff)

lemma as_i32_exact: "n < 2147483648 \<Longrightarrow> as_i32 n = int n"
  by (simp add: as_i32_def)

section \<open>Loops whose body may panic\<close>

partial_function (option) loop_while ::
  "('s \<Rightarrow> bool) \<Rightarrow> ('s \<Rightarrow> 's option) \<Rightarrow> 's \<Rightarrow> 's option" where
  "loop_while guard body s =
     (if guard s then Option.bind (body s) (loop_while guard body) else Some s)"

declare loop_while.simps [code]

lemma loop_while_done [simp]: "\<not> guard s \<Longrightarrow> loop_while guard body s = Some s"
  by (simp add: loop_while.simps)

lemma loop_while_step:
  "guard s \<Longrightarrow> body s = Some t \<Longrightarrow> loop_while guard body s = loop_while guard body t"
  by (simp add: loop_while.simps[of _ _ s])

text \<open>
  The contract of a loop: under the invariant and the guard the body returns, keeps the
  invariant and decreases the measure. Its clients get total correctness.
\<close>

locale total_loop =
  fixes guard :: "'s \<Rightarrow> bool"
    and body :: "'s \<Rightarrow> 's option"
    and inv :: "'s \<Rightarrow> bool"
    and meas :: "'s \<Rightarrow> nat"
  assumes body_ok: "inv s \<Longrightarrow> guard s \<Longrightarrow> \<exists>t. body s = Some t \<and> inv t \<and> meas t < meas s"
begin

lemma returns: "inv s \<Longrightarrow> \<exists>t. loop_while guard body s = Some t \<and> inv t \<and> \<not> guard t"
proof (induction "meas s" arbitrary: s rule: less_induct)
  case less
  show ?case
  proof (cases "guard s")
    case True
    with body_ok [OF less.prems] obtain t where
      t: "body s = Some t" "inv t" "meas t < meas s"
      by blast
    from less.hyps [OF t(3) t(2)] show ?thesis
      by (simp add: loop_while_step [of guard s body t] True t(1))
  next
    case False
    with less.prems show ?thesis by simp
  qed
qed

lemma result: "loop_while guard body s = Some t \<Longrightarrow> inv s \<Longrightarrow> inv t \<and> \<not> guard t"
  using returns [of s] by auto

end

section \<open>Lists\<close>

lemma mset_partition_insert:
  "mset (filter P xs @ x # filter (\<lambda>y. \<not> P y) xs) = add_mset x (mset xs)"
  by (induction xs) auto

lemma sorted_wrt_all: "(\<And>x y. x \<in> set xs \<Longrightarrow> y \<in> set xs \<Longrightarrow> P x y) \<Longrightarrow> sorted_wrt P xs"
  by (induction xs) auto

section \<open>HashMap\<close>

text \<open>
  A hash map is an association list; the list order is one iteration order of the map.
  Where the code iterates over a hash map and the order could matter, the theorems say
  that it does not.
\<close>

type_synonym ('k, 'v) hashmap = "('k \<times> 'v) list"

definition hm_insert :: "'k \<Rightarrow> 'v \<Rightarrow> ('k, 'v) hashmap \<Rightarrow> ('k, 'v) hashmap" where
  "hm_insert k v m =
     (if k \<in> fst ` set m then map (\<lambda>e. if fst e = k then (k, v) else e) m else m @ [(k, v)])"

definition hm_remove :: "'k \<Rightarrow> ('k, 'v) hashmap \<Rightarrow> ('k, 'v) hashmap" where
  "hm_remove k m = filter (\<lambda>e. fst e \<noteq> k) m"

definition hm_contains :: "('k, 'v) hashmap \<Rightarrow> 'k \<Rightarrow> bool" where
  "hm_contains m k = (map_of m k \<noteq> None)"

definition hm_ok :: "('k, 'v) hashmap \<Rightarrow> bool" where
  "hm_ok m = distinct (map fst m)"

lemma map_replace_absent: "k \<notin> fst ` set m \<Longrightarrow> map (\<lambda>e. if fst e = k then w else e) m = m"
  by (induction m) auto

lemma map_of_map_replace:
  "k \<in> fst ` set m \<Longrightarrow>
   map_of (map (\<lambda>e. if fst e = k then (k, v) else e) m) = (map_of m)(k \<mapsto> v)"
proof (induction m)
  case (Cons e m)
  show ?case
  proof (cases "k \<in> fst ` set m")
    case True
    with Cons.IH show ?thesis by (simp add: fun_eq_iff)
  next
    case False
    with Cons.prems have "fst e = k" by auto
    moreover note map_replace_absent [OF False, of "(k, v)"]
    ultimately show ?thesis by (simp add: fun_eq_iff)
  qed
qed simp

lemma map_of_hm_insert [simp, map_laws]: "map_of (hm_insert k v m) = (map_of m)(k \<mapsto> v)"
proof (cases "k \<in> fst ` set m")
  case True
  then show ?thesis by (simp add: hm_insert_def map_of_map_replace)
next
  case False
  then have "map_of m k = None" by (simp add: map_of_eq_None_iff)
  with False show ?thesis
    by (simp add: hm_insert_def map_add_def fun_eq_iff split: option.split)
qed

lemma map_of_hm_remove [simp, map_laws]: "map_of (hm_remove k m) = (map_of m)(k := None)"
  by (induction m) (auto simp: hm_remove_def fun_eq_iff)

lemma hm_contains_iff [map_laws]: "hm_contains m k \<longleftrightarrow> k \<in> dom (map_of m)"
  by (auto simp: hm_contains_def)

lemma hm_ok_Nil [simp, wf_rules]: "hm_ok []"
  by (simp add: hm_ok_def)

lemma map_fst_replace: "map fst (map (\<lambda>e. if fst e = k then (k, v) else e) m) = map fst m"
  by (induction m) auto

lemma hm_ok_insert [simp, wf_rules]: "hm_ok m \<Longrightarrow> hm_ok (hm_insert k v m)"
  by (simp add: hm_ok_def hm_insert_def map_fst_replace del: map_map)

lemma hm_ok_remove [simp, wf_rules]: "hm_ok m \<Longrightarrow> hm_ok (hm_remove k m)"
  by (auto simp: hm_ok_def hm_remove_def distinct_map_filter)

section \<open>BTreeMap\<close>

text \<open>
  What the code relies on of an ordered map: lookup after an update, the keys of a map,
  and its least and greatest key. The lemmas of the interface hold for every provider.
\<close>

locale ordered_map =
  fixes ok :: "'m \<Rightarrow> bool"
    and empty :: "'m"
    and get :: "'m \<Rightarrow> 'k::linorder \<Rightarrow> 'v option"
    and insert :: "'k \<Rightarrow> 'v \<Rightarrow> 'm \<Rightarrow> 'm"
    and remove :: "'k \<Rightarrow> 'm \<Rightarrow> 'm"
    and first_key :: "'m \<Rightarrow> 'k option"
    and last_key :: "'m \<Rightarrow> 'k option"
  assumes ok_empty: "ok empty"
    and ok_insert: "ok m \<Longrightarrow> ok (insert k v m)"
    and ok_remove: "ok m \<Longrightarrow> ok (remove k m)"
    and get_empty: "get empty k = None"
    and get_insert: "ok m \<Longrightarrow> get (insert k v m) = (get m)(k \<mapsto> v)"
    and get_remove: "ok m \<Longrightarrow> get (remove k m) = (get m)(k := None)"
    and first_key_Some: "ok m \<Longrightarrow> first_key m = Some k \<Longrightarrow>
          get m k \<noteq> None \<and> (\<forall>j. get m j \<noteq> None \<longrightarrow> k \<le> j)"
    and first_key_None: "ok m \<Longrightarrow> first_key m = None \<longleftrightarrow> get m = Map.empty"
    and last_key_Some: "ok m \<Longrightarrow> last_key m = Some k \<Longrightarrow>
          get m k \<noteq> None \<and> (\<forall>j. get m j \<noteq> None \<longrightarrow> j \<le> k)"
    and last_key_None: "ok m \<Longrightarrow> last_key m = None \<longleftrightarrow> get m = Map.empty"
begin

lemma first_le_last: "ok m \<Longrightarrow> first_key m = Some a \<Longrightarrow> last_key m = Some b \<Longrightarrow> a \<le> b"
  using first_key_Some last_key_Some by blast

lemma first_key_unique:
  "ok m \<Longrightarrow> get m k \<noteq> None \<Longrightarrow> (\<And>j. get m j \<noteq> None \<Longrightarrow> k \<le> j) \<Longrightarrow> first_key m = Some k"
  by (metis antisym first_key_None first_key_Some not_Some_eq)

lemma last_key_unique:
  "ok m \<Longrightarrow> get m k \<noteq> None \<Longrightarrow> (\<And>j. get m j \<noteq> None \<Longrightarrow> j \<le> k) \<Longrightarrow> last_key m = Some k"
  by (metis antisym last_key_None last_key_Some not_Some_eq)

lemma first_key_insert:
  "ok m \<Longrightarrow> first_key (insert k v m) =
     Some (case first_key m of None \<Rightarrow> k | Some j \<Rightarrow> min j k)"
proof (rule first_key_unique)
  assume m: "ok m"
  then show "ok (insert k v m)" by (rule ok_insert)
  show "get (insert k v m) (case first_key m of None \<Rightarrow> k | Some j \<Rightarrow> min j k) \<noteq> None"
    using first_key_Some [OF m] by (auto simp: get_insert [OF m] min_def split: option.split)
  show "(case first_key m of None \<Rightarrow> k | Some j \<Rightarrow> min j k) \<le> j"
    if "get (insert k v m) j \<noteq> None" for j
    using that first_key_Some [OF m] first_key_None [OF m]
    by (auto simp: get_insert [OF m] min_le_iff_disj split: option.split if_splits)
qed

end

text \<open>The provider: a list of entries in strictly increasing key order.\<close>

type_synonym ('k, 'v) btreemap = "('k \<times> 'v) list"

definition bt_ok :: "('k::linorder, 'v) btreemap \<Rightarrow> bool" where
  "bt_ok m = sorted_wrt (<) (map fst m)"

definition bt_insert :: "'k::linorder \<Rightarrow> 'v \<Rightarrow> ('k, 'v) btreemap \<Rightarrow> ('k, 'v) btreemap" where
  "bt_insert k v m = filter (\<lambda>e. fst e < k) m @ (k, v) # filter (\<lambda>e. k < fst e) m"

definition bt_remove :: "'k::linorder \<Rightarrow> ('k, 'v) btreemap \<Rightarrow> ('k, 'v) btreemap" where
  "bt_remove k m = filter (\<lambda>e. fst e \<noteq> k) m"

definition bt_first_key :: "('k::linorder, 'v) btreemap \<Rightarrow> 'k option" where
  "bt_first_key m = (case m of [] \<Rightarrow> None | e # _ \<Rightarrow> Some (fst e))"

definition bt_last_key :: "('k::linorder, 'v) btreemap \<Rightarrow> 'k option" where
  "bt_last_key m = (if m = [] then None else Some (fst (last m)))"

lemma bt_ok_Nil [simp, wf_rules]: "bt_ok []"
  by (simp add: bt_ok_def)

lemma bt_ok_Cons: "bt_ok (e # m) \<longleftrightarrow> (\<forall>d \<in> set m. fst e < fst d) \<and> bt_ok m"
  by (simp add: bt_ok_def)

lemma bt_ok_append:
  "bt_ok (m @ n) \<longleftrightarrow> bt_ok m \<and> bt_ok n \<and> (\<forall>d \<in> set m. \<forall>e \<in> set n. fst d < fst e)"
  by (auto simp: bt_ok_def sorted_wrt_append)

lemma bt_ok_filter [simp, wf_rules]: "bt_ok m \<Longrightarrow> bt_ok (filter P m)"
  by (induction m) (auto simp: bt_ok_Cons)

lemma bt_ok_distinct: "bt_ok m \<Longrightarrow> distinct (map fst m)"
  by (induction m) (force simp: bt_ok_Cons)+

lemma bt_ok_insert [simp, wf_rules]: "bt_ok m \<Longrightarrow> bt_ok (bt_insert k v m)"
  by (auto simp: bt_insert_def bt_ok_append bt_ok_Cons)

lemma bt_ok_remove [simp, wf_rules]: "bt_ok m \<Longrightarrow> bt_ok (bt_remove k m)"
  by (simp add: bt_remove_def)

lemma map_of_bt_remove [simp, map_laws]: "map_of (bt_remove k m) = (map_of m)(k := None)"
  by (induction m) (auto simp: bt_remove_def fun_eq_iff)

lemma map_of_bt_insert [simp, map_laws]: "map_of (bt_insert k v m) = (map_of m)(k \<mapsto> v)"
proof
  fix j
  have lo: "map_of (filter (\<lambda>e. fst e < k) m) j = (if j < k then map_of m j else None)" for j
    by (induction m) auto
  have hi: "map_of (filter (\<lambda>e. k < fst e) m) j = (if k < j then map_of m j else None)" for j
    by (induction m) auto
  show "map_of (bt_insert k v m) j = ((map_of m)(k \<mapsto> v)) j"
    by (auto simp: bt_insert_def map_add_def lo hi split: option.split)
qed

text \<open>A map split at a key: the entries below it, the entry at it, the entries above it.\<close>

lemma bt_split:
  assumes "bt_ok m"
  shows "m = filter (\<lambda>e. fst e < k) m
           @ (case map_of m k of None \<Rightarrow> [] | Some v \<Rightarrow> [(k, v)])
           @ filter (\<lambda>e. k < fst e) m"
  using assms
proof (induction m)
  case (Cons e m)
  then have IH: "m = filter (\<lambda>e. fst e < k) m @
      (case map_of m k of None \<Rightarrow> [] | Some v \<Rightarrow> [(k, v)]) @ filter (\<lambda>e. k < fst e) m"
    and less: "\<forall>d \<in> set m. fst e < fst d"
    by (auto simp: bt_ok_Cons)
  consider "fst e < k" | "fst e = k" | "k < fst e" by fastforce
  then show ?case
  proof cases
    case 1
    with IH show ?thesis by (auto split: option.split)
  next
    case 2
    with less have "filter (\<lambda>e. fst e < k) m = []" and "filter (\<lambda>e. k < fst e) m = m"
      by (auto simp: filter_empty_conv)
    with 2 show ?thesis by (cases e) auto
  next
    case 3
    with less have "filter (\<lambda>e. fst e < k) m = []" and "filter (\<lambda>e. k < fst e) m = m"
      by (auto simp: filter_empty_conv filter_id_conv)
    moreover from 3 less have "map_of m k = None"
      by (force simp: map_of_eq_None_iff)
    ultimately show ?thesis using 3 by auto
  qed
qed simp

lemma bt_remove_split:
  assumes "bt_ok m"
  shows "bt_remove k m = filter (\<lambda>e. fst e < k) m @ filter (\<lambda>e. k < fst e) m"
proof -
  have "bt_remove k m = bt_remove k (filter (\<lambda>e. fst e < k) m
      @ (case map_of m k of None \<Rightarrow> [] | Some v \<Rightarrow> [(k, v)]) @ filter (\<lambda>e. k < fst e) m)"
    using bt_split [OF assms, of k] by simp
  also have "\<dots> = filter (\<lambda>e. fst e < k) m @ filter (\<lambda>e. k < fst e) m"
    by (auto simp: bt_remove_def intro!: arg_cong2 [where f = append] filter_cong split: option.split)
  finally show ?thesis .
qed

lemma bt_get_set: "bt_ok m \<Longrightarrow> map_of m k = Some v \<longleftrightarrow> (k, v) \<in> set m"
  by (simp add: bt_ok_distinct)

interpretation bt: ordered_map bt_ok "[]" map_of bt_insert bt_remove bt_first_key bt_last_key
proof unfold_locales
  fix m :: "('a \<times> 'b) list" and k
  assume ok: "bt_ok m"
  have key: "map_of m j \<noteq> None \<longleftrightarrow> j \<in> fst ` set m" for j
    by (simp add: map_of_eq_None_iff)
  have first: "\<forall>j \<in> fst ` set m. fst (hd m) \<le> j"
    using ok by (cases m) (auto simp: bt_ok_Cons less_imp_le)
  have last: "\<forall>j \<in> fst ` set m. j \<le> fst (last m)"
    using ok by (cases m rule: rev_cases) (auto simp: bt_ok_append less_imp_le)
  show "map_of m k \<noteq> None \<and> (\<forall>j. map_of m j \<noteq> None \<longrightarrow> k \<le> j)" if "bt_first_key m = Some k"
    using that first unfolding key by (cases m) (auto simp: bt_first_key_def)
  show "map_of m k \<noteq> None \<and> (\<forall>j. map_of m j \<noteq> None \<longrightarrow> j \<le> k)" if "bt_last_key m = Some k"
    using that last unfolding key by (auto simp: bt_last_key_def split: if_splits)
  show "bt_first_key m = None \<longleftrightarrow> map_of m = Map.empty"
    by (cases m) (auto simp: bt_first_key_def)
  show "bt_last_key m = None \<longleftrightarrow> map_of m = Map.empty"
    by (cases m) (auto simp: bt_last_key_def)
qed simp_all

end
