(* ===== verification/Fxp_Orders.thy ===== *)
theory Fxp_Orders
  imports Fxp_Prelude
begin

text \<open>
  The data of the order book: \<^verbatim>\<open>order_book/order.rs\<close>, \<^verbatim>\<open>order_book/market_data.rs\<close>,
  \<^verbatim>\<open>order_book/execution_report.rs\<close> and the market-data broadcaster of
  \<^verbatim>\<open>order_book/broadcaster.rs\<close>. A field \<^verbatim>\<open>f\<close> of the struct \<^verbatim>\<open>Order\<close> is the record
  field \<open>o_f\<close>, one of \<^verbatim>\<open>ExecutionReport\<close> is \<open>x_f\<close>, and so on.
\<close>

section \<open>Orders\<close>

datatype order_side = Buy | Sell

datatype order_type = Market | Limit | Stop | StopLimit

datatype time_in_force = Day | GTC | IOC | FOK | AtOpen | AtClose | Gtd

datatype stp_mode = StpNone | CancelNewest | CancelOldest | CancelBoth | DecrementAndCancel

record stp =
  stp_mode :: stp_mode
  stp_group :: string

datatype stp_key = OwnerKey string | GroupKey string

record order =
  o_order_id :: string
  o_trader_id :: string
  o_symbol :: string
  o_price :: int
  o_quantity :: nat
  o_display_quantity :: nat
  o_side :: order_side
  o_order_type :: order_type
  o_time_in_force :: time_in_force
  o_timestamp :: nat
  o_stop_price :: int
  o_expire_date :: string
  o_account :: string
  o_client_order_id :: string
  o_stp :: stp

definition order_stp_key :: "order \<Rightarrow> stp_key" where
  "order_stp_key ord =
     (if stp_group (o_stp ord) = [] then OwnerKey (o_trader_id ord)
      else GroupKey (stp_group (o_stp ord)))"

text \<open>
  \<^verbatim>\<open>str::trim\<close> strips leading and trailing white space; the ASCII white space
  characters are the ones a byte string can hold.
\<close>

definition is_space :: "char \<Rightarrow> bool" where
  "is_space c = (of_char c \<in> ({9, 10, 11, 12, 13, 32} :: nat set))"

definition str_trim :: "string \<Rightarrow> string" where
  "str_trim s = rev (dropWhile is_space (rev (dropWhile is_space s)))"

definition stp_mode_parse :: "string \<Rightarrow> string + stp_mode" where
  "stp_mode_parse value =
     (let v = str_trim value in
      if v = '''' \<or> v = ''none'' then Inr StpNone
      else if v = ''cancel-newest'' then Inr CancelNewest
      else if v = ''cancel-oldest'' then Inr CancelOldest
      else if v = ''cancel-both'' then Inr CancelBoth
      else if v = ''decrement-and-cancel'' then Inr DecrementAndCancel
      else Inl v)"

fun stp_mode_as_str :: "stp_mode \<Rightarrow> string" where
  "stp_mode_as_str StpNone = ''none''"
| "stp_mode_as_str CancelNewest = ''cancel-newest''"
| "stp_mode_as_str CancelOldest = ''cancel-oldest''"
| "stp_mode_as_str CancelBoth = ''cancel-both''"
| "stp_mode_as_str DecrementAndCancel = ''decrement-and-cancel''"

section \<open>Market data and execution reports of the book\<close>

datatype market_update_type = NewOrder | ModifyOrder | CancelOrder

record market_order_update =
  u_update_type :: market_update_type
  u_price :: int
  u_quantity :: nat
  u_side :: order_side

record md_incremental =
  inc_symbol :: string
  inc_changes :: "market_order_update list"

record md_snapshot =
  snap_symbol :: string
  snap_bids :: "(int \<times> nat) list"
  snap_asks :: "(int \<times> nat) list"

record execution_report =
  x_buy_order_id :: string
  x_sell_order_id :: string
  x_trade_price :: int
  x_trade_quantity :: nat
  x_aggressor_side :: order_side
  x_buy_fully_filled :: bool
  x_sell_fully_filled :: bool

section \<open>The market-data broadcaster\<close>

text \<open>
  The subscriber table maps a symbol to the set of its clients. \<^verbatim>\<open>broadcast_snapshot\<close> and
  \<^verbatim>\<open>broadcast_incremental\<close> only write trace lines; what they read is the subscriber set.
\<close>

type_synonym broadcaster = "(string, nat set) hashmap"

definition broadcaster_new :: broadcaster where
  "broadcaster_new = []"

definition subscribe :: "nat \<Rightarrow> string \<Rightarrow> broadcaster \<Rightarrow> broadcaster" where
  "subscribe client_id sb subs =
     hm_insert sb (insert client_id (case map_of subs sb of None \<Rightarrow> {} | Some cs \<Rightarrow> cs)) subs"

definition unsubscribe :: "nat \<Rightarrow> string \<Rightarrow> broadcaster \<Rightarrow> broadcaster" where
  "unsubscribe client_id sb subs =
     (case map_of subs sb of
        None \<Rightarrow> subs
      | Some clients \<Rightarrow>
          (if clients - {client_id} = {} then hm_remove sb subs
           else hm_insert sb (clients - {client_id}) subs))"

definition get_subscribers :: "broadcaster \<Rightarrow> string \<Rightarrow> nat set" where
  "get_subscribers subs sb = (case map_of subs sb of None \<Rightarrow> {} | Some cs \<Rightarrow> cs)"

lemma get_subscribers_subscribe:
  "get_subscribers (subscribe c s subs) t =
     (if t = s then insert c (get_subscribers subs t) else get_subscribers subs t)"
  by (simp add: get_subscribers_def subscribe_def)

lemma get_subscribers_unsubscribe:
  "get_subscribers (unsubscribe c s subs) t =
     (if t = s then get_subscribers subs t - {c} else get_subscribers subs t)"
  by (auto simp: get_subscribers_def unsubscribe_def split: option.split)

lemma str_trim_stp_mode: "str_trim (stp_mode_as_str m) = stp_mode_as_str m"
  by (cases m) (simp_all add: str_trim_def is_space_def)

text \<open>The printed form of a mode is read back as that mode.\<close>

lemma stp_mode_parse_as_str: "stp_mode_parse (stp_mode_as_str m) = Inr m"
  unfolding stp_mode_parse_def str_trim_stp_mode by (cases m) simp_all

end
