(* ===== verification/Fxp_Book.thy ===== *)
theory Fxp_Book
  imports Fxp_Orders
begin

text \<open>
  The order book of \<^verbatim>\<open>order_book/order_book.rs\<close>: its state, its operations, the
  well-formedness invariant, and the proof that the two trees of FIFO price levels
  implement price-time priority queues. A field \<^verbatim>\<open>f\<close> of the struct \<^verbatim>\<open>OrderBook\<close> is the
  record field \<open>b_f\<close>. An operation takes the book and returns the changed book beside the
  Rust return value.
\<close>

section \<open>State\<close>

datatype stp_action = Canceled | Restated nat

record stp_event =
  e_opposing_order :: string
  e_order_id :: string
  e_action :: stp_action
  e_mode :: stp_mode
  e_before_fill :: nat

record stp_outcome =
  stp_events :: "stp_event list"
  stp_updates :: "md_incremental list"

definition stp_outcome_default :: stp_outcome where
  "stp_outcome_default = \<lparr>stp_events = [], stp_updates = []\<rparr>"

type_synonym levels = "(int, order list) btreemap"

record order_book =
  b_symbol :: string
  b_broadcaster :: broadcaster
  b_buy_orders :: levels
  b_sell_orders :: levels
  b_order_lookup :: "(string, order) hashmap"
  b_cum_filled :: "(string, nat) hashmap"
  b_arrival :: "(string, nat) hashmap"
  b_next_arrival :: nat
  b_displayed :: "(string, nat) hashmap"
  b_last_added :: "string option"
  b_refresh_log :: "(nat \<times> string \<times> nat) list option"
  b_stp :: stp_outcome

datatype order_reject = UnknownOrder | DuplicateOrderId | NotOwner | QuantityNotAboveFilled

fun reject_reason :: "order_reject \<Rightarrow> string" where
  "reject_reason UnknownOrder = ''Unknown order (filled, cancelled or never existed)''"
| "reject_reason NotOwner = ''Unknown order (filled, cancelled or never existed)''"
| "reject_reason DuplicateOrderId = ''Duplicate order id''"
| "reject_reason QuantityNotAboveFilled = ''Replace quantity not above filled quantity''"

record order_replace =
  r_new_price :: int
  r_new_total_qty :: nat
  r_new_display_quantity :: "nat option"
  r_new_time_in_force :: "time_in_force option"
  r_client_order_id :: string
  r_timestamp :: nat

definition book_new :: "string \<Rightarrow> broadcaster \<Rightarrow> order_book" where
  "book_new sb bc =
     \<lparr>b_symbol = sb, b_broadcaster = bc, b_buy_orders = [], b_sell_orders = [],
      b_order_lookup = [], b_cum_filled = [], b_arrival = [], b_next_arrival = 0,
      b_displayed = [], b_last_added = None, b_refresh_log = None, b_stp = stp_outcome_default\<rparr>"

section \<open>Price levels\<close>

fun side_levels :: "order_side \<Rightarrow> order_book \<Rightarrow> levels" where
  "side_levels Buy b = b_buy_orders b"
| "side_levels Sell b = b_sell_orders b"

fun set_levels :: "order_side \<Rightarrow> levels \<Rightarrow> order_book \<Rightarrow> order_book" where
  "set_levels Buy ls b = b\<lparr>b_buy_orders := ls\<rparr>"
| "set_levels Sell ls b = b\<lparr>b_sell_orders := ls\<rparr>"

text \<open>\<^verbatim>\<open>levels.entry(price).or_default()\<close>: the queue at a price, empty when there is none.\<close>

definition level_of :: "levels \<Rightarrow> int \<Rightarrow> order list" where
  "level_of ls p = (case map_of ls p of None \<Rightarrow> [] | Some os \<Rightarrow> os)"

definition push_back :: "order \<Rightarrow> levels \<Rightarrow> levels" where
  "push_back ord ls = bt_insert (o_price ord) (level_of ls (o_price ord) @ [ord]) ls"

definition push_front :: "order \<Rightarrow> levels \<Rightarrow> levels" where
  "push_front ord ls = bt_insert (o_price ord) (ord # level_of ls (o_price ord)) ls"

fun best_price :: "order_side \<Rightarrow> levels \<Rightarrow> int option" where
  "best_price Buy ls = bt_last_key ls"
| "best_price Sell ls = bt_first_key ls"

definition pop_levels :: "order_side \<Rightarrow> levels \<Rightarrow> order option \<times> levels" where
  "pop_levels sd ls =
     (case best_price sd ls of
        None \<Rightarrow> (None, ls)
      | Some p \<Rightarrow>
          (case map_of ls p of
             None \<Rightarrow> (None, ls)
           | Some [] \<Rightarrow> (None, bt_remove p ls)
           | Some (ord # rest) \<Rightarrow>
               (Some ord, if rest = [] then bt_remove p ls else bt_insert p rest ls)))"

section \<open>Operations\<close>

definition generate_incremental_update ::
  "order_book \<Rightarrow> market_update_type \<Rightarrow> int \<Rightarrow> nat \<Rightarrow> order_side \<Rightarrow> md_incremental" where
  "generate_incremental_update b ty p q sd =
     \<lparr>inc_symbol = b_symbol b,
      inc_changes = [\<lparr>u_update_type = ty, u_price = p, u_quantity = q, u_side = sd\<rparr>]\<rparr>"

definition add_order :: "order \<Rightarrow> order_book \<Rightarrow> order_book \<times> md_incremental" where
  "add_order ord b =
     (let b1 = set_levels (o_side ord) (push_back ord (side_levels (o_side ord) b)) b;
          visible = (if o_display_quantity ord = 0 then o_quantity ord
                     else min (o_display_quantity ord) (o_quantity ord));
          b2 = b1\<lparr>b_displayed := hm_insert (o_order_id ord) visible (b_displayed b1),
                  b_last_added := Some (o_order_id ord),
                  b_order_lookup := hm_insert (o_order_id ord) ord (b_order_lookup b1),
                  b_next_arrival := b_next_arrival b1 + 1,
                  b_arrival := hm_insert (o_order_id ord) (b_next_arrival b1 + 1) (b_arrival b1)\<rparr>
      in (b2, generate_incremental_update b2 NewOrder (o_price ord) visible (o_side ord)))"

definition cancel_order :: "string \<Rightarrow> order_book \<Rightarrow> order_book \<times> md_incremental option" where
  "cancel_order oid b =
     (case map_of (b_order_lookup b) oid of
        None \<Rightarrow> (b, None)
      | Some ord \<Rightarrow>
          (let visible = (case map_of (b_displayed b) oid of None \<Rightarrow> o_quantity ord | Some v \<Rightarrow> v);
               b1 = b\<lparr>b_order_lookup := hm_remove oid (b_order_lookup b),
                      b_displayed := hm_remove oid (b_displayed b),
                      b_cum_filled := hm_remove oid (b_cum_filled b),
                      b_arrival := hm_remove oid (b_arrival b)\<rparr>;
               ls = side_levels (o_side ord) b1;
               b2 = (case map_of ls (o_price ord) of
                       None \<Rightarrow> b1
                     | Some os \<Rightarrow>
                         (let os' = filter (\<lambda>x. o_order_id x \<noteq> oid) os in
                          set_levels (o_side ord)
                            (if os' = [] then bt_remove (o_price ord) ls
                             else bt_insert (o_price ord) os' ls) b1))
           in (b2, Some (generate_incremental_update b2 CancelOrder (o_price ord) visible
                           (o_side ord)))))"

definition check_owner :: "string \<Rightarrow> string \<Rightarrow> order_book \<Rightarrow> order_reject + unit" where
  "check_owner oid owner b =
     (case map_of (b_order_lookup b) oid of
        None \<Rightarrow> Inl UnknownOrder
      | Some ord \<Rightarrow> if o_trader_id ord \<noteq> owner then Inl NotOwner else Inr ())"

definition cancel_order_for ::
  "string \<Rightarrow> string \<Rightarrow> order_book \<Rightarrow> order_book \<times> (order_reject + md_incremental)" where
  "cancel_order_for oid owner b =
     (case check_owner oid owner b of
        Inl e \<Rightarrow> (b, Inl e)
      | Inr _ \<Rightarrow>
          (case cancel_order oid b of
             (b', None) \<Rightarrow> (b', Inl UnknownOrder)
           | (b', Some md) \<Rightarrow> (b', Inr md)))"

definition sync_fill :: "string \<Rightarrow> nat \<Rightarrow> nat \<Rightarrow> order_book \<Rightarrow> order_book" where
  "sync_fill oid remaining trade_qty b =
     (if remaining = 0 then
        b\<lparr>b_order_lookup := hm_remove oid (b_order_lookup b),
          b_cum_filled := hm_remove oid (b_cum_filled b),
          b_arrival := hm_remove oid (b_arrival b)\<rparr>
      else
        (case map_of (b_order_lookup b) oid of
           None \<Rightarrow> b
         | Some ord \<Rightarrow>
             b\<lparr>b_order_lookup := hm_insert oid (ord\<lparr>o_quantity := remaining\<rparr>) (b_order_lookup b),
               b_cum_filled :=
                 hm_insert oid
                   (add_u32 (case map_of (b_cum_filled b) oid of None \<Rightarrow> 0 | Some c \<Rightarrow> c) trade_qty)
                   (b_cum_filled b)\<rparr>))"

text \<open>The first order of a level that has the id, changed in place (\<^verbatim>\<open>iter_mut().find\<close>).\<close>

fun update_first :: "string \<Rightarrow> (order \<Rightarrow> order) \<Rightarrow> order list \<Rightarrow> order list" where
  "update_first oid f [] = []"
| "update_first oid f (x # xs) = (if o_order_id x = oid then f x # xs else x # update_first oid f xs)"

definition apply_auction_fill ::
  "string \<Rightarrow> nat \<Rightarrow> order_book \<Rightarrow> (order_book \<times> md_incremental) option" where
  "apply_auction_fill oid quantity b =
     do {
       ord \<leftarrow> map_of (b_order_lookup b) oid;
       level \<leftarrow> map_of (side_levels (o_side ord) b) (o_price ord);
       resting \<leftarrow> find (\<lambda>x. o_order_id x = oid) level;
       let remaining = sub_u32 (o_quantity resting) quantity;
       let level' = filter (\<lambda>x. 0 < o_quantity x)
                      (update_first oid (\<lambda>x. x\<lparr>o_quantity := remaining\<rparr>) level);
       let ls = side_levels (o_side ord) b;
       let b1 = set_levels (o_side ord)
                  (if level' = [] then bt_remove (o_price ord) ls
                   else bt_insert (o_price ord) level' ls) b;
       let b2 = sync_fill oid remaining quantity b1;
       let b3 = (if remaining = 0 then b2\<lparr>b_displayed := hm_remove oid (b_displayed b2)\<rparr>
                 else b2\<lparr>b_displayed := hm_insert oid remaining (b_displayed b2)\<rparr>);
       Some (b3, generate_incremental_update b3 ModifyOrder (o_price ord) quantity (o_side ord))
     }"

definition visible :: "order_book \<Rightarrow> order \<Rightarrow> nat" where
  "visible b ord =
     (case map_of (b_displayed b) (o_order_id ord) of None \<Rightarrow> o_quantity ord | Some v \<Rightarrow> v)"

definition sync_visible_fill :: "order \<Rightarrow> nat \<Rightarrow> nat \<Rightarrow> order_book \<Rightarrow> order_book" where
  "sync_visible_fill ord trade_qty vis b =
     (let b1 = sync_fill (o_order_id ord) (o_quantity ord) trade_qty b in
      if o_quantity ord = 0 then b1\<lparr>b_displayed := hm_remove (o_order_id ord) (b_displayed b1)\<rparr>
      else b1\<lparr>b_displayed := hm_insert (o_order_id ord) vis (b_displayed b1)\<rparr>)"

definition replenish :: "order \<Rightarrow> order_book \<Rightarrow> order_book \<times> md_incremental option" where
  "replenish ord b =
     (if o_quantity ord = 0 \<or> o_display_quantity ord = 0 \<or> visible b ord > 0 then (b, None)
      else
        (let vis = min (o_quantity ord) (o_display_quantity ord);
             b1 = b\<lparr>b_displayed := hm_insert (o_order_id ord) vis (b_displayed b),
                    b_next_arrival := b_next_arrival b + 1,
                    b_arrival := hm_insert (o_order_id ord) (b_next_arrival b + 1) (b_arrival b)\<rparr>
         in (b1, Some (generate_incremental_update b1 NewOrder (o_price ord) vis (o_side ord)))))"

definition requeue :: "order \<Rightarrow> bool \<Rightarrow> order_book \<Rightarrow> order_book" where
  "requeue ord back b =
     (if o_quantity ord = 0 then b
      else set_levels (o_side ord)
             ((if back then push_back else push_front) ord (side_levels (o_side ord) b)) b)"

definition pop_best :: "order_side \<Rightarrow> order_book \<Rightarrow> order option \<times> order_book" where
  "pop_best sd b = (case pop_levels sd (side_levels sd b) of (ord, ls) \<Rightarrow> (ord, set_levels sd ls b))"

definition replace_order ::
  "string \<Rightarrow> string \<Rightarrow> order_replace \<Rightarrow> string \<Rightarrow> order_book \<Rightarrow>
   order_book \<times> (order_reject + order \<times> md_incremental)" where
  "replace_order orig_id new_id changes owner b =
     (case check_owner orig_id owner b of
        Inl e \<Rightarrow> (b, Inl e)
      | Inr _ \<Rightarrow>
     (case map_of (b_order_lookup b) orig_id of
        None \<Rightarrow> (b, Inl UnknownOrder)
      | Some orig \<Rightarrow>
     (if new_id \<noteq> orig_id \<and> hm_contains (b_order_lookup b) new_id then (b, Inl DuplicateOrderId)
      else
        (let filled = (case map_of (b_cum_filled b) orig_id of None \<Rightarrow> 0 | Some c \<Rightarrow> c);
             leaves = (if r_new_total_qty changes = 0 then Some (o_quantity orig)
                       else if r_new_total_qty changes > filled
                            then Some (sub_u32 (r_new_total_qty changes) filled)
                       else None)
         in case leaves of
              None \<Rightarrow> (b, Inl QuantityNotAboveFilled)
            | Some lv \<Rightarrow>
                (let (b1, removed) = cancel_order orig_id b;
                     replacement = orig\<lparr>
                       o_order_id := new_id,
                       o_price := (if r_new_price changes > 0 then r_new_price changes else o_price orig),
                       o_quantity := lv,
                       o_display_quantity :=
                         (case r_new_display_quantity changes of None \<Rightarrow> o_display_quantity orig
                                                               | Some d \<Rightarrow> d),
                       o_time_in_force :=
                         (case r_new_time_in_force changes of None \<Rightarrow> o_time_in_force orig
                                                            | Some t \<Rightarrow> t),
                       o_timestamp := r_timestamp changes,
                       o_client_order_id := r_client_order_id changes\<rparr>;
                     (b2, inc) = add_order replacement b1;
                     inc' = (case removed of
                               None \<Rightarrow> inc
                             | Some r \<Rightarrow> inc\<lparr>inc_changes := inc_changes r @ inc_changes inc\<rparr>);
                     b3 = (if filled > 0
                           then b2\<lparr>b_cum_filled := hm_insert new_id filled (b_cum_filled b2)\<rparr>
                           else b2)
                 in (b3, Inr (replacement, inc')))))))"

definition level_snapshot :: "order_book \<Rightarrow> levels \<Rightarrow> (int \<times> nat) list" where
  "level_snapshot b ls =
     map (\<lambda>(p, os). (p, foldl (\<lambda>s x. add_u32 s (visible b x)) 0 os)) ls"

definition get_market_snapshot :: "order_book \<Rightarrow> md_snapshot" where
  "get_market_snapshot b =
     \<lparr>snap_symbol = b_symbol b,
      snap_bids = level_snapshot b (b_buy_orders b),
      snap_asks = level_snapshot b (b_sell_orders b)\<rparr>"

section \<open>The levels of one side as a price-time priority queue\<close>

fun flat :: "order_side \<Rightarrow> levels \<Rightarrow> order list" where
  "flat Buy ls = concat (map snd (rev ls))"
| "flat Sell ls = concat (map snd ls)"

fun ahead :: "order_side \<Rightarrow> order \<Rightarrow> order \<Rightarrow> bool" where
  "ahead Buy x y = (o_price y < o_price x)"
| "ahead Sell x y = (o_price x < o_price y)"

definition level_ok :: "order_side \<Rightarrow> int \<times> order list \<Rightarrow> bool" where
  "level_ok sd e \<longleftrightarrow> snd e \<noteq> [] \<and> (\<forall>x \<in> set (snd e). o_price x = fst e \<and> o_side x = sd)"

definition levels_ok :: "order_side \<Rightarrow> levels \<Rightarrow> bool" where
  "levels_ok sd ls \<longleftrightarrow> bt_ok ls \<and> (\<forall>e \<in> set ls. level_ok sd e)"

text \<open>
  The contract of one side of the book, seen as the list of its orders in matching order:
  popping takes the head, an order put to the front or to the back of its level is placed
  before or behind the orders that have its price. The levels of both sides provide it.
\<close>

locale price_queue =
  fixes ok :: "'q \<Rightarrow> bool"
    and view :: "'q \<Rightarrow> order list"
    and better :: "order \<Rightarrow> order \<Rightarrow> bool"
    and fits :: "order \<Rightarrow> bool"
    and pop :: "'q \<Rightarrow> order option \<times> 'q"
    and front :: "order \<Rightarrow> 'q \<Rightarrow> 'q"
    and rear :: "order \<Rightarrow> 'q \<Rightarrow> 'q"
  assumes view_fits: "ok q \<Longrightarrow> x \<in> set (view q) \<Longrightarrow> fits x"
    and view_sorted: "ok q \<Longrightarrow> sorted_wrt (\<lambda>x y. \<not> better y x) (view q)"
    and pop_Nil: "ok q \<Longrightarrow> view q = [] \<Longrightarrow> pop q = (None, q)"
    and pop_Cons: "ok q \<Longrightarrow> view q = x # xs \<Longrightarrow>
          \<exists>q'. pop q = (Some x, q') \<and> ok q' \<and> view q' = xs"
    and ok_front: "ok q \<Longrightarrow> fits x \<Longrightarrow> ok (front x q)"
    and ok_rear: "ok q \<Longrightarrow> fits x \<Longrightarrow> ok (rear x q)"
    and view_front: "ok q \<Longrightarrow> fits x \<Longrightarrow>
          view (front x q) = filter (\<lambda>y. better y x) (view q) @ x # filter (\<lambda>y. \<not> better y x) (view q)"
    and view_rear: "ok q \<Longrightarrow> fits x \<Longrightarrow>
          view (rear x q) = filter (\<lambda>y. \<not> better x y) (view q) @ x # filter (\<lambda>y. better x y) (view q)"
begin

lemma pop_best_price: "ok q \<Longrightarrow> pop q = (Some x, q') \<Longrightarrow> y \<in> set (view q') \<Longrightarrow> \<not> better y x"
proof (cases "view q")
  case (Cons z zs)
  assume "ok q" "pop q = (Some x, q')" "y \<in> set (view q')"
  with pop_Cons [of q z zs] Cons view_sorted [of q] show ?thesis by auto
qed (simp add: pop_Nil)

lemma pop_view: "ok q \<Longrightarrow> pop q = (Some x, q') \<Longrightarrow> ok q' \<and> view q = x # view q' \<and> fits x"
  using pop_Cons [of q] pop_Nil [of q] view_fits [of q]
  by (cases "view q") auto

lemma mset_front: "ok q \<Longrightarrow> fits x \<Longrightarrow> mset (view (front x q)) = add_mset x (mset (view q))"
  unfolding view_front by (rule mset_partition_insert)

lemma mset_rear: "ok q \<Longrightarrow> fits x \<Longrightarrow> mset (view (rear x q)) = add_mset x (mset (view q))"
  unfolding view_rear using mset_partition_insert [of "\<lambda>y. \<not> better x y"] by simp

text \<open>An order that no queued order beats goes back to the head.\<close>

lemma view_front_head:
  "ok q \<Longrightarrow> fits x \<Longrightarrow> (\<And>y. y \<in> set (view q) \<Longrightarrow> \<not> better y x) \<Longrightarrow> view (front x q) = x # view q"
  by (simp add: view_front filter_id_conv filter_empty_conv)

end

text \<open>
  Around a price, the queue of a side is the orders at better prices, the level at the
  price, and the orders at worse prices.
\<close>

fun better_levels :: "order_side \<Rightarrow> int \<Rightarrow> levels \<Rightarrow> levels" where
  "better_levels Buy p ls = filter (\<lambda>e. p < fst e) ls"
| "better_levels Sell p ls = filter (\<lambda>e. fst e < p) ls"

fun worse_levels :: "order_side \<Rightarrow> int \<Rightarrow> levels \<Rightarrow> levels" where
  "worse_levels Buy p ls = filter (\<lambda>e. fst e < p) ls"
| "worse_levels Sell p ls = filter (\<lambda>e. p < fst e) ls"

lemma flat_insert:
  "flat sd (bt_insert p os ls) = flat sd (better_levels sd p ls) @ os @ flat sd (worse_levels sd p ls)"
  by (cases sd) (simp_all add: bt_insert_def)

lemma flat_remove:
  "levels_ok sd ls \<Longrightarrow>
   flat sd (bt_remove p ls) = flat sd (better_levels sd p ls) @ flat sd (worse_levels sd p ls)"
  by (cases sd) (simp_all add: levels_ok_def bt_remove_split)

lemma flat_around:
  assumes "levels_ok sd ls"
  shows "flat sd ls =
    flat sd (better_levels sd p ls) @ level_of ls p @ flat sd (worse_levels sd p ls)"
proof -
  from assms have "bt_ok ls" by (simp add: levels_ok_def)
  from bt_split [OF this, of p]
  have "flat sd ls = flat sd (filter (\<lambda>e. fst e < p) ls
      @ (case map_of ls p of None \<Rightarrow> [] | Some v \<Rightarrow> [(p, v)]) @ filter (\<lambda>e. p < fst e) ls)"
    by simp
  then show ?thesis
    by (cases sd) (simp_all add: level_of_def split: option.split)
qed

lemma flat_elem: "x \<in> set (flat sd ls) \<longleftrightarrow> (\<exists>e \<in> set ls. x \<in> set (snd e))"
  by (cases sd) auto

lemma better_ahead:
  "levels_ok sd ls \<Longrightarrow> x \<in> set (flat sd (better_levels sd p ls)) \<Longrightarrow> o_price y = p \<Longrightarrow>
   ahead sd x y \<and> \<not> ahead sd y x"
  by (cases sd) (force simp: flat_elem levels_ok_def level_ok_def)+

lemma worse_ahead:
  "levels_ok sd ls \<Longrightarrow> x \<in> set (flat sd (worse_levels sd p ls)) \<Longrightarrow> o_price y = p \<Longrightarrow>
   ahead sd y x \<and> \<not> ahead sd x y"
  by (cases sd) (force simp: flat_elem levels_ok_def level_ok_def)+

lemma levels_ok_insert [wf_rules]:
  "levels_ok sd ls \<Longrightarrow> os \<noteq> [] \<Longrightarrow> (\<And>x. x \<in> set os \<Longrightarrow> o_price x = p \<and> o_side x = sd) \<Longrightarrow>
   levels_ok sd (bt_insert p os ls)"
  by (auto simp: levels_ok_def level_ok_def bt_insert_def simp del: bt_ok_insert
      intro!: bt_ok_insert [unfolded bt_insert_def])

lemma levels_ok_remove [wf_rules]: "levels_ok sd ls \<Longrightarrow> levels_ok sd (bt_remove p ls)"
  by (auto simp: levels_ok_def bt_remove_def)

lemma level_of_ok:
  assumes "levels_ok sd ls" and "x \<in> set (level_of ls p)"
  shows "o_price x = p \<and> o_side x = sd"
proof -
  from assms(2) obtain os where "map_of ls p = Some os" and "x \<in> set os"
    by (cases "map_of ls p") (auto simp: level_of_def)
  with assms(1) show ?thesis
    by (force simp: levels_ok_def level_ok_def dest!: map_of_SomeD)
qed

lemma flat_side: "levels_ok sd ls \<Longrightarrow> x \<in> set (flat sd ls) \<Longrightarrow> o_side x = sd"
  by (cases sd) (force simp: levels_ok_def level_ok_def)+

lemma flat_level:
  assumes "levels_ok sd ls"
  shows "x \<in> set (flat sd ls) \<longleftrightarrow> x \<in> set (level_of ls (o_price x))"
  using flat_around [OF assms, of "o_price x"]
    better_ahead [OF assms, of x "o_price x" x] worse_ahead [OF assms, of x "o_price x" x]
  by auto

lemma flat_Nil: "levels_ok sd ls \<Longrightarrow> flat sd ls = [] \<longleftrightarrow> ls = []"
  by (cases sd; cases ls) (auto simp: levels_ok_def level_ok_def)

lemma flat_sorted: "levels_ok sd ls \<Longrightarrow> sorted_wrt (\<lambda>x y. \<not> ahead sd y x) (flat sd ls)"
proof (induction ls)
  case (Cons e ls)
  then have ok: "levels_ok sd ls" and e: "level_ok sd e" and lt: "\<forall>d \<in> set ls. fst e < fst d"
    by (auto simp: levels_ok_def bt_ok_Cons)
  have own: "sorted_wrt (\<lambda>x y. \<not> ahead sd y x) (snd e)"
    by (rule sorted_wrt_all) (use e in \<open>cases sd; simp add: level_ok_def\<close>)
  have rest: "o_price x = fst e \<and> fst e < o_price y"
    if "x \<in> set (snd e)" and "d \<in> set ls" and "y \<in> set (snd d)" for x y d
    using that e lt ok by (force simp: level_ok_def levels_ok_def)
  have "ahead Buy y x" "ahead Sell x y" "\<not> ahead Buy x y" "\<not> ahead Sell y x"
    if "x \<in> set (snd e)" and "d \<in> set ls" and "y \<in> set (snd d)" for x y d
    using rest [OF that] by auto
  then show ?case
    using Cons.IH [OF ok] own by (cases sd) (auto simp: sorted_wrt_append simp del: ahead.simps)
qed (cases sd; simp)

lemma best_level:
  assumes ok: "levels_ok sd ls" and "ls \<noteq> []"
  obtains p x os where "best_price sd ls = Some p" and "map_of ls p = Some (x # os)"
    and "better_levels sd p ls = []"
proof -
  define e where "e = (case sd of Buy \<Rightarrow> last ls | Sell \<Rightarrow> hd ls)"
  have e: "e \<in> set ls" using assms(2) by (simp add: e_def split: order_side.split)
  have bp: "best_price sd ls = Some (fst e)"
    using assms(2) by (cases sd; cases ls) (auto simp: e_def bt_last_key_def bt_first_key_def)
  from e ok obtain x os where se: "snd e = x # os"
    by (cases "snd e") (auto simp: levels_ok_def level_ok_def)
  from e ok have get: "map_of ls (fst e) = Some (x # os)"
    by (simp add: levels_ok_def bt_get_set flip: se)
  have "map_of ls (fst d) \<noteq> None" if "d \<in> set ls" for d
    using that by (simp add: map_of_eq_None_iff)
  then have "better_levels sd (fst e) ls = []"
    using bt.first_key_Some [of ls "fst e"] bt.last_key_Some [of ls "fst e"] bp ok
    by (cases sd) (fastforce simp: filter_empty_conv levels_ok_def not_less)+
  with that bp get show ?thesis .
qed

lemma flat_push_back:
  assumes "levels_ok sd ls"
  shows "flat sd (push_back x ls) =
    filter (\<lambda>y. \<not> ahead sd x y) (flat sd ls) @ x # filter (\<lambda>y. ahead sd x y) (flat sd ls)"
proof -
  have "\<not> ahead sd x y" if "y \<in> set (level_of ls (o_price x))" for y
    using level_of_ok [OF assms that] by (cases sd) auto
  then show ?thesis
    using better_ahead [OF assms, of _ _ x] worse_ahead [OF assms, of _ _ x]
    by (auto simp: push_back_def flat_insert flat_around [OF assms, of "o_price x"]
        filter_id_conv filter_empty_conv)
qed

lemma flat_push_front:
  assumes "levels_ok sd ls"
  shows "flat sd (push_front x ls) =
    filter (\<lambda>y. ahead sd y x) (flat sd ls) @ x # filter (\<lambda>y. \<not> ahead sd y x) (flat sd ls)"
proof -
  have "\<not> ahead sd y x" if "y \<in> set (level_of ls (o_price x))" for y
    using level_of_ok [OF assms that] by (cases sd) auto
  then show ?thesis
    using better_ahead [OF assms, of _ _ x] worse_ahead [OF assms, of _ _ x]
    by (auto simp: push_front_def flat_insert flat_around [OF assms, of "o_price x"]
        filter_id_conv filter_empty_conv)
qed

lemma levels_ok_push [wf_rules]:
  assumes "levels_ok sd ls" and "o_side x = sd"
  shows "levels_ok sd (push_back x ls)" and "levels_ok sd (push_front x ls)"
  using assms level_of_ok [OF assms(1), of _ "o_price x"]
  by (auto simp: push_back_def push_front_def intro!: levels_ok_insert)

interpretation side: price_queue "levels_ok sd" "flat sd" "ahead sd" "\<lambda>x. o_side x = sd"
    "pop_levels sd" push_front push_back for sd
proof unfold_locales
  fix q x xs
  assume ok: "levels_ok sd q"
  show "pop_levels sd q = (None, q)" if "flat sd q = []"
    using that flat_Nil [OF ok]
    by (cases sd) (simp_all add: pop_levels_def bt_first_key_def bt_last_key_def)
  show "\<exists>q'. pop_levels sd q = (Some x, q') \<and> levels_ok sd q' \<and> flat sd q' = xs" if "flat sd q = x # xs"
  proof -
    from that have "q \<noteq> []" by (cases sd) auto
    with ok obtain p y os where p: "best_price sd q = Some p" "map_of q p = Some (y # os)"
      and best: "better_levels sd p q = []"
      by (rule best_level)
    from best have "flat sd (better_levels sd p q) = []" by (cases sd) auto
    then have fl: "flat sd q = y # os @ flat sd (bt_remove p q)"
        "flat sd (bt_insert p os q) = os @ flat sd (bt_remove p q)"
      using p(2) by (simp_all add: flat_around [OF ok, of p] flat_insert flat_remove [OF ok] level_of_def)
    have "o_price z = p \<and> o_side z = sd" if "z \<in> set os" for z
      using level_of_ok [OF ok, of z p] that p(2) by (simp add: level_of_def)
    then have "levels_ok sd (if os = [] then bt_remove p q else bt_insert p os q)"
      using ok by (auto intro!: levels_ok_insert levels_ok_remove)
    with p fl that show ?thesis by (auto simp: pop_levels_def)
  qed
qed (simp_all add: flat_side flat_sorted levels_ok_push flat_push_front flat_push_back)

end
