(* ===== verification/Fxp_Book_Wf.thy ===== *)
theory Fxp_Book_Wf
  imports Fxp_Book
begin

text \<open>
  The invariant of the order book and its preservation by the operations of
  \<^verbatim>\<open>order_book.rs\<close>: the price levels, the order index, the arrival ranks, the displayed
  quantities and the fill counters describe the same set of live orders, each side is in
  price-time priority, and no quantity can overflow 32 bits.
\<close>

section \<open>Well-formed books\<close>

text \<open>The orders of a side in matching order, and the live orders of the book.\<close>

definition queue :: "order_side \<Rightarrow> order_book \<Rightarrow> order list" where
  "queue sd b = flat sd (side_levels sd b)"

definition live :: "order_book \<Rightarrow> order set" where
  "live b = set (queue Buy b) \<union> set (queue Sell b)"

definition cum_of :: "order_book \<Rightarrow> string \<Rightarrow> nat" where
  "cum_of b oid = (case map_of (b_cum_filled b) oid of None \<Rightarrow> 0 | Some c \<Rightarrow> c)"

definition arr_of :: "order_book \<Rightarrow> order \<Rightarrow> nat" where
  "arr_of b x = (case map_of (b_arrival b) (o_order_id x) of None \<Rightarrow> 0 | Some a \<Rightarrow> a)"

definition qty_of :: "order_book \<Rightarrow> string \<Rightarrow> nat" where
  "qty_of b oid = (case map_of (b_order_lookup b) oid of None \<Rightarrow> 0 | Some x \<Rightarrow> o_quantity x)"

text \<open>The four indexes agree with a set of orders; quantities and fills fit in 32 bits.\<close>

definition index_ok :: "order_book \<Rightarrow> order set \<Rightarrow> bool" where
  "index_ok b S \<longleftrightarrow>
     (\<forall>oid x. map_of (b_order_lookup b) oid = Some x \<longleftrightarrow> x \<in> S \<and> o_order_id x = oid) \<and>
     dom (map_of (b_arrival b)) = o_order_id ` S \<and>
     dom (map_of (b_displayed b)) = o_order_id ` S \<and>
     dom (map_of (b_cum_filled b)) \<subseteq> o_order_id ` S \<and>
     (\<forall>x \<in> S. 0 < o_quantity x \<and> o_quantity x + cum_of b (o_order_id x) < 4294967296) \<and>
     (\<forall>oid a. map_of (b_arrival b) oid = Some a \<longrightarrow> a \<le> b_next_arrival b) \<and>
     hm_ok (b_order_lookup b) \<and> hm_ok (b_arrival b) \<and> hm_ok (b_displayed b) \<and> hm_ok (b_cum_filled b)"

text \<open>An order shows a positive part of its quantity; without a display cap it shows all of it.\<close>

definition vis_ok :: "order_book \<Rightarrow> order \<Rightarrow> bool" where
  "vis_ok b x \<longleftrightarrow>
     (\<exists>v. map_of (b_displayed b) (o_order_id x) = Some v \<and> 0 < v \<and> v \<le> o_quantity x \<and>
          (o_display_quantity x = 0 \<longrightarrow> v = o_quantity x))"

text \<open>Orders that share a price stand in arrival order.\<close>

definition time_ok :: "order_book \<Rightarrow> order list \<Rightarrow> bool" where
  "time_ok b xs \<longleftrightarrow> sorted_wrt (\<lambda>x y. o_price x = o_price y \<longrightarrow> arr_of b x < arr_of b y) xs"

text \<open>
  The invariant while the orders \<open>xs\<close> are in flight: they have left the price levels but
  the indexes still list them. A book at rest has no order in flight.
\<close>

definition roster :: "order_book \<Rightarrow> order list \<Rightarrow> order list" where
  "roster b xs = xs @ queue Buy b @ queue Sell b"

definition wf_with :: "order_book \<Rightarrow> order list \<Rightarrow> bool" where
  "wf_with b xs \<longleftrightarrow>
     (\<forall>sd. levels_ok sd (side_levels sd b)) \<and>
     distinct (map o_order_id (roster b xs)) \<and>
     index_ok b (set (roster b xs)) \<and>
     (\<forall>sd. \<forall>x \<in> set (queue sd b). vis_ok b x) \<and>
     (\<forall>sd. time_ok b (queue sd b))"

definition wf_book :: "order_book \<Rightarrow> bool" where
  "wf_book b \<longleftrightarrow> wf_with b []"

text \<open>An order in flight that may return to the head of its side.\<close>

definition head_ok :: "order_book \<Rightarrow> order \<Rightarrow> bool" where
  "head_ok b x \<longleftrightarrow>
     (\<forall>y \<in> set (queue (o_side x) b).
        \<not> ahead (o_side x) y x \<and> (o_price x = o_price y \<longrightarrow> arr_of b x < arr_of b y))"

lemma wf_book_new: "wf_book (book_new sb bc)"
proof -
  have "side_levels sd (book_new sb bc) = []" for sd
    by (cases sd) (simp_all add: book_new_def)
  moreover have "flat sd [] = []" for sd by (cases sd) (simp_all add: flat.simps)
  ultimately show ?thesis
    by (simp add: wf_book_def wf_with_def queue_def roster_def time_ok_def levels_ok_def)
      (simp add: index_ok_def book_new_def)
qed

subsection \<open>Frame rules\<close>

text \<open>What an operation leaves alone: the indexes do not change with the levels.\<close>

lemma side_levels_set_levels [simp]:
  "side_levels sd (set_levels sd' ls b) = (if sd = sd' then ls else side_levels sd b)"
  by (cases sd; cases sd') simp_all

lemma set_levels_frame [simp]:
  "b_symbol (set_levels sd ls b) = b_symbol b"
  "b_broadcaster (set_levels sd ls b) = b_broadcaster b"
  "b_order_lookup (set_levels sd ls b) = b_order_lookup b"
  "b_cum_filled (set_levels sd ls b) = b_cum_filled b"
  "b_arrival (set_levels sd ls b) = b_arrival b"
  "b_next_arrival (set_levels sd ls b) = b_next_arrival b"
  "b_displayed (set_levels sd ls b) = b_displayed b"
  "b_last_added (set_levels sd ls b) = b_last_added b"
  "b_refresh_log (set_levels sd ls b) = b_refresh_log b"
  "b_stp (set_levels sd ls b) = b_stp b"
  by (cases sd; simp)+

declare set_levels.simps [simp del] flat.simps [simp del]

lemma flat_empty [simp]: "flat sd [] = []"
  by (cases sd) (simp_all add: flat.simps)

lemma queue_set_levels [simp]:
  "queue sd (set_levels sd' ls b) = (if sd = sd' then flat sd ls else queue sd b)"
  by (simp add: queue_def)

lemma index_frame:
  assumes "b_order_lookup b' = b_order_lookup b" "b_cum_filled b' = b_cum_filled b"
    "b_arrival b' = b_arrival b" "b_next_arrival b' = b_next_arrival b" "b_displayed b' = b_displayed b"
  shows "index_ok b' = index_ok b" and "vis_ok b' = vis_ok b" and "time_ok b' = time_ok b"
    and "arr_of b' = arr_of b" and "cum_of b' = cum_of b" and "qty_of b' = qty_of b"
    and "visible b' = visible b"
  using assms
  by (simp_all add: index_ok_def vis_ok_def time_ok_def arr_of_def cum_of_def qty_of_def visible_def
      fun_eq_iff)

lemmas set_levels_index [simp] = index_frame [OF set_levels_frame(3,4,5,6,7)]

lemma wf_frame:
  assumes "b_buy_orders b' = b_buy_orders b" "b_sell_orders b' = b_sell_orders b"
    "b_order_lookup b' = b_order_lookup b" "b_cum_filled b' = b_cum_filled b"
    "b_arrival b' = b_arrival b" "b_next_arrival b' = b_next_arrival b" "b_displayed b' = b_displayed b"
  shows "wf_with b' = wf_with b" and "head_ok b' = head_ok b" and "queue sd b' = queue sd b"
proof -
  have sl: "side_levels sd b' = side_levels sd b" for sd
    using assms(1,2) by (cases sd) simp_all
  then show q: "queue sd b' = queue sd b" for sd
    by (simp add: queue_def)
  show "wf_with b' = wf_with b" "head_ok b' = head_ok b"
    by (simp_all add: fun_eq_iff wf_with_def head_ok_def roster_def sl q index_frame [OF assms(3-7)])
qed

text \<open>The consequences of the invariant that the operations use.\<close>

lemma wf_levels: "wf_with b xs \<Longrightarrow> levels_ok sd (side_levels sd b)"
  by (simp add: wf_with_def)

lemma queue_side: "wf_with b xs \<Longrightarrow> x \<in> set (queue sd b) \<Longrightarrow> o_side x = sd"
  unfolding queue_def by (rule flat_side [OF wf_levels])

lemma all_side: "(\<forall>sd. P sd) \<longleftrightarrow> P Buy \<and> P Sell"
  by (metis order_side.exhaust)

lemma queue_roster: "set (queue sd b) \<subseteq> set (roster b xs)"
  by (cases sd) (auto simp: roster_def)

lemma wf_lookup:
  "wf_with b xs \<Longrightarrow> map_of (b_order_lookup b) oid = Some x \<longleftrightarrow> x \<in> set (roster b xs) \<and> o_order_id x = oid"
  by (simp add: wf_with_def index_ok_def)

lemma wf_ids:
  "wf_with b xs \<Longrightarrow> x \<in> set (roster b xs) \<Longrightarrow> y \<in> set (roster b xs) \<Longrightarrow> o_order_id x = o_order_id y \<Longrightarrow> x = y"
  by (auto simp: wf_with_def distinct_map inj_on_def)

lemma wf_inflight_fresh:
  "wf_with b (x # xs) \<Longrightarrow> y \<in> set xs \<union> set (queue sd b) \<Longrightarrow> o_order_id y \<noteq> o_order_id x"
  by (cases sd) (auto simp: wf_with_def roster_def image_iff)

lemma wf_quantity:
  "wf_with b xs \<Longrightarrow> x \<in> set (roster b xs) \<Longrightarrow>
   0 < o_quantity x \<and> o_quantity x + cum_of b (o_order_id x) < 4294967296"
  by (simp add: wf_with_def index_ok_def)

lemma wf_arrival_le: "wf_with b xs \<Longrightarrow> arr_of b x \<le> b_next_arrival b"
  by (auto simp: wf_with_def index_ok_def arr_of_def split: option.split)

lemma wf_arrival_some:
  "wf_with b xs \<Longrightarrow> x \<in> set (roster b xs) \<Longrightarrow> map_of (b_arrival b) (o_order_id x) = Some (arr_of b x)"
  by (auto simp: wf_with_def index_ok_def arr_of_def split: option.split)

text \<open>The invariant only depends on which orders are in flight and which rest.\<close>

lemma wf_rearrange:
  assumes wf: "wf_with b xs"
    and frame: "b_order_lookup b' = b_order_lookup b" "b_cum_filled b' = b_cum_filled b"
      "b_arrival b' = b_arrival b" "b_next_arrival b' = b_next_arrival b" "b_displayed b' = b_displayed b"
    and levels: "\<And>sd. levels_ok sd (side_levels sd b')"
    and same: "mset (roster b' xs') = mset (roster b xs)"
    and vis: "\<And>sd x. x \<in> set (queue sd b') \<Longrightarrow> vis_ok b x"
    and time: "\<And>sd. time_ok b (queue sd b')"
  shows "wf_with b' xs'"
proof -
  have "distinct (map o_order_id (roster b' xs'))"
    using wf mset_eq_imp_distinct_iff [of "map o_order_id (roster b' xs')" "map o_order_id (roster b xs)"] same
    by (simp add: wf_with_def)
  moreover have "set (roster b' xs') = set (roster b xs)"
    using same by (rule mset_eq_setD)
  ultimately show ?thesis
    using wf levels vis time by (simp add: wf_with_def index_frame [OF frame])
qed

lemma wf_swap: "wf_with b (x # y # xs) \<longleftrightarrow> wf_with b (y # x # xs)"
  by (auto simp: wf_with_def roster_def insert_commute)

subsection \<open>Taking an order off its side and putting it back\<close>

lemma wf_take:
  assumes wf: "wf_with b xs" and ls: "levels_ok sd ls" and q: "queue sd b = x # flat sd ls"
  shows "wf_with (set_levels sd ls b) (x # xs)" and "vis_ok b x" and "head_ok (set_levels sd ls b) x"
    and "o_side x = sd"
proof -
  from wf q have time: "time_ok b (x # flat sd ls)" and vis: "\<forall>y \<in> set (x # flat sd ls). vis_ok b y"
    by (metis wf_with_def)+
  from vis show "vis_ok b x" by simp
  show side: "o_side x = sd" using queue_side [OF wf, of x sd] q by simp
  have sorted: "sorted_wrt (\<lambda>x y. \<not> ahead sd y x) (x # flat sd ls)"
    using flat_sorted [OF wf_levels [OF wf, of sd]] q by (simp add: queue_def)
  from sorted time show "head_ok (set_levels sd ls b) x"
    by (simp add: head_ok_def side time_ok_def)
  show "wf_with (set_levels sd ls b) (x # xs)"
  proof (rule wf_rearrange [OF wf])
    show "mset (roster (set_levels sd ls b) (x # xs)) = mset (roster b xs)"
      using q by (cases sd) (auto simp: roster_def)
    show "vis_ok b y" if "y \<in> set (queue sd' (set_levels sd ls b))" for sd' y
      using that vis wf by (auto simp: wf_with_def split: if_splits)
    show "time_ok b (queue sd' (set_levels sd ls b))" for sd'
      using time wf by (auto simp: wf_with_def time_ok_def)
  qed (use ls wf in \<open>simp_all add: wf_levels\<close>)
qed

lemma pop_best_Some:
  assumes wf: "wf_with b xs" and p: "best_price sd (side_levels sd b) = Some p"
  obtains x ls where "pop_best sd b = (Some x, set_levels sd ls b)" and "levels_ok sd ls"
    and "queue sd b = x # flat sd ls" and "o_price x = p"
proof -
  note ok = wf_levels [OF wf, of sd]
  from p have "side_levels sd b \<noteq> []" by (cases sd) (auto simp: bt_first_key_def bt_last_key_def)
  with ok obtain p' x os where "best_price sd (side_levels sd b) = Some p'"
    and get: "map_of (side_levels sd b) p' = Some (x # os)" and "better_levels sd p' (side_levels sd b) = []"
    by (rule best_level)
  with p have p': "p' = p" and best: "flat sd (better_levels sd p (side_levels sd b)) = []"
    by simp_all
  with get have xs: "queue sd b = x # (os @ flat sd (worse_levels sd p (side_levels sd b)))"
    by (simp add: queue_def flat_around [OF ok, of p] level_of_def)
  from side.pop_Cons [OF ok xs [unfolded queue_def]] obtain ls where
    "pop_levels sd (side_levels sd b) = (Some x, ls)" "levels_ok sd ls"
    "flat sd ls = os @ flat sd (worse_levels sd p (side_levels sd b))"
    by blast
  moreover have "o_price x = p"
    using level_of_ok [OF ok, of x p] get p' by (simp add: level_of_def)
  ultimately show ?thesis
    by (intro that [of x ls]) (simp_all add: pop_best_def xs)
qed

lemma wf_requeue_front:
  assumes wf: "wf_with b (x # xs)" and vis: "vis_ok b x" and head: "head_ok b x"
  shows "wf_with (requeue x False b) xs" and "queue (o_side x) (requeue x False b) = x # queue (o_side x) b"
proof -
  define ls where "ls = push_front x (side_levels (o_side x) b)"
  have ok: "levels_ok (o_side x) ls"
    by (simp add: ls_def levels_ok_push wf_levels [OF wf])
  have q: "flat (o_side x) ls = x # queue (o_side x) b"
    using head side.view_front_head [OF wf_levels [OF wf, of "o_side x"], of x]
    by (simp add: ls_def head_ok_def queue_def)
  have "0 < o_quantity x" using wf_quantity [OF wf, of x] by (simp add: roster_def)
  then have rq: "requeue x False b = set_levels (o_side x) ls b"
    by (simp add: requeue_def ls_def)
  show "queue (o_side x) (requeue x False b) = x # queue (o_side x) b"
    by (simp add: rq q)
  show "wf_with (requeue x False b) xs"
    unfolding rq
  proof (rule wf_rearrange [OF wf])
    show "mset (roster (set_levels (o_side x) ls b) xs) = mset (roster b (x # xs))"
      by (cases "o_side x") (use q in \<open>simp_all add: roster_def\<close>)
    show "vis_ok b y" if "y \<in> set (queue sd (set_levels (o_side x) ls b))" for sd y
      using that vis wf q by (auto simp: wf_with_def split: if_splits)
    show "time_ok b (queue sd (set_levels (o_side x) ls b))" for sd
      using head wf q by (auto simp: wf_with_def time_ok_def head_ok_def)
  qed (use ok wf in \<open>simp_all add: wf_levels\<close>)
qed

lemma ahead_price: "ahead sd x y \<Longrightarrow> o_price y \<noteq> o_price x"
  by (cases sd) auto

lemma time_ok_rear:
  assumes "time_ok b (filter P xs @ filter Q xs)"
    and "\<And>y. y \<in> set xs \<Longrightarrow> arr_of b y < arr_of b x"
    and "\<And>y. y \<in> set xs \<Longrightarrow> Q y \<Longrightarrow> o_price y \<noteq> o_price x"
  shows "time_ok b (filter P xs @ x # filter Q xs)"
  using assms by (fastforce simp: time_ok_def sorted_wrt_append)

text \<open>In a queue sorted by price, the orders not behind a price come first.\<close>

lemma sorted_partition:
  "sorted_wrt (\<lambda>x y. \<not> ahead sd y x) xs \<Longrightarrow>
   filter (\<lambda>y. \<not> ahead sd x y) xs @ filter (\<lambda>y. ahead sd x y) xs = xs"
proof (induction xs)
  case (Cons z zs)
  show ?case
  proof (cases "ahead sd x z")
    case True
    with Cons.prems have "\<forall>y \<in> set zs. ahead sd x y" by (cases sd) auto
    then show ?thesis using True by (simp add: filter_id_conv filter_empty_conv)
  next
    case False
    with Cons show ?thesis by simp
  qed
qed simp

lemma wf_requeue_rear:
  assumes wf: "wf_with b (x # xs)" and vis: "vis_ok b x"
    and last: "\<And>y. y \<in> set (queue (o_side x) b) \<Longrightarrow> arr_of b y < arr_of b x"
  shows "wf_with (requeue x True b) xs"
proof -
  let ?sd = "o_side x" and ?q = "queue (o_side x) b"
  define ls where "ls = push_back x (side_levels ?sd b)"
  note side_ok = wf_levels [OF wf, of ?sd]
  have ok: "levels_ok ?sd ls"
    by (simp add: ls_def levels_ok_push side_ok)
  have q: "flat ?sd ls = filter (\<lambda>y. \<not> ahead ?sd x y) ?q @ x # filter (\<lambda>y. ahead ?sd x y) ?q"
    by (simp add: ls_def queue_def flat_push_back [OF side_ok])
  have "filter (\<lambda>y. \<not> ahead ?sd x y) ?q @ filter (\<lambda>y. ahead ?sd x y) ?q = ?q"
    unfolding queue_def by (rule sorted_partition [OF flat_sorted [OF side_ok]])
  moreover have "time_ok b ?q" using wf by (simp add: wf_with_def)
  ultimately have "time_ok b (filter (\<lambda>y. \<not> ahead ?sd x y) ?q @ filter (\<lambda>y. ahead ?sd x y) ?q)"
    by (simp only:)
  then have time: "time_ok b (flat ?sd ls)"
    unfolding q by (rule time_ok_rear) (simp_all add: last ahead_price)
  have "0 < o_quantity x" using wf_quantity [OF wf, of x] by (simp add: roster_def)
  then have rq: "requeue x True b = set_levels ?sd ls b"
    by (simp add: requeue_def ls_def)
  have ms: "mset (flat ?sd ls) = add_mset x (mset ?q)"
    unfolding ls_def queue_def using side_ok by (rule side.mset_rear) simp
  show ?thesis
    unfolding rq
  proof (rule wf_rearrange [OF wf])
    show "mset (roster (set_levels ?sd ls b) xs) = mset (roster b (x # xs))"
      using ms by (cases ?sd) (simp_all add: roster_def)
    show "vis_ok b y" if "y \<in> set (queue sd (set_levels ?sd ls b))" for sd y
      using that vis wf ms mset_eq_setD [of "flat ?sd ls" "x # ?q"]
      by (auto simp: wf_with_def split: if_splits)
    show "time_ok b (queue sd (set_levels ?sd ls b))" for sd
      using time wf by (auto simp: wf_with_def)
  qed (use ok wf in \<open>simp_all add: wf_levels\<close>)
qed

subsection \<open>Changing the indexes of an order in flight\<close>

lemma arr_of_upd:
  "map_of (b_arrival b') = (map_of (b_arrival b))(oid := a) \<Longrightarrow> o_order_id y \<noteq> oid \<Longrightarrow> arr_of b' y = arr_of b y"
  by (simp add: arr_of_def)

lemma vis_ok_upd:
  "map_of (b_displayed b') = (map_of (b_displayed b))(oid := a) \<Longrightarrow> o_order_id y \<noteq> oid \<Longrightarrow> vis_ok b' y = vis_ok b y"
  by (simp add: vis_ok_def)

lemma time_ok_upd:
  assumes "\<And>y. y \<in> set ys \<Longrightarrow> arr_of b' y = arr_of b y"
  shows "time_ok b' ys = time_ok b ys"
  using assms unfolding time_ok_def by (auto intro!: sorted_wrt_mono_rel [of ys] simp: sorted_wrt_iff_nth_less)

text \<open>
  The part of the invariant that an operation on the indexes of one order in flight does not
  touch: the levels, and what the indexes say of the other orders.
\<close>

lemma wf_reindex:
  assumes wf: "wf_with b (x # xs)"
    and levels: "\<And>sd. side_levels sd b' = side_levels sd b"
    and arr: "map_of (b_arrival b') = (map_of (b_arrival b))(o_order_id x := a)"
    and shown: "map_of (b_displayed b') = (map_of (b_displayed b))(o_order_id x := v)"
    and ids: "map o_order_id ys = map o_order_id xs \<or> map o_order_id ys = map o_order_id (x # xs)"
    and index: "index_ok b' (set (roster b ys))"
  shows "wf_with b' ys"
proof -
  have q: "queue sd b' = queue sd b" for sd by (simp add: queue_def levels)
  then have ros: "roster b' ys = roster b ys" by (simp add: roster_def)
  have fresh: "o_order_id y \<noteq> o_order_id x" if "y \<in> set (queue sd b)" for sd y
    using wf_inflight_fresh [OF wf, of y sd] that by simp
  have "distinct (map o_order_id (x # xs) @ map o_order_id (queue Buy b) @ map o_order_id (queue Sell b))"
    using wf by (simp add: wf_with_def roster_def)
  with ids have "distinct (map o_order_id ys @ map o_order_id (queue Buy b) @ map o_order_id (queue Sell b))"
    by (elim disjE) (simp_all only: list.map distinct.simps append_Cons simp_thms)
  then have "distinct (map o_order_id (roster b ys))"
    by (simp add: roster_def)
  moreover have "\<forall>sd. \<forall>y \<in> set (queue sd b). vis_ok b' y"
  proof (intro allI ballI)
    fix sd y
    assume y: "y \<in> set (queue sd b)"
    with wf have "vis_ok b y" by (simp add: wf_with_def)
    then show "vis_ok b' y" unfolding vis_ok_upd [OF shown fresh [OF y]] .
  qed
  moreover have "\<forall>sd. time_ok b' (queue sd b)"
  proof
    fix sd
    have "time_ok b' (queue sd b) = time_ok b (queue sd b)"
      by (rule time_ok_upd) (rule arr_of_upd [OF arr fresh])
    with wf show "time_ok b' (queue sd b)" by (simp add: wf_with_def)
  qed
  moreover have "\<forall>sd. levels_ok sd (side_levels sd b)"
    using wf by (simp add: wf_with_def)
  ultimately show ?thesis
    unfolding wf_with_def levels q ros using index by blast
qed

lemma index_forget:
  assumes "index_ok b (insert x S)" and "o_order_id x \<notin> o_order_id ` S"
    and "map_of (b_order_lookup b') = (map_of (b_order_lookup b))(o_order_id x := None)"
    and "map_of (b_cum_filled b') = (map_of (b_cum_filled b))(o_order_id x := None)"
    and "map_of (b_arrival b') = (map_of (b_arrival b))(o_order_id x := None)"
    and "map_of (b_displayed b') = (map_of (b_displayed b))(o_order_id x := None)"
    and "b_next_arrival b' = b_next_arrival b"
    and "hm_ok (b_order_lookup b')" "hm_ok (b_arrival b')" "hm_ok (b_displayed b')" "hm_ok (b_cum_filled b')"
  shows "index_ok b' S"
proof -
  have ne: "o_order_id y \<noteq> o_order_id x" if "y \<in> S" for y
    using assms(2) that by (metis imageI)
  have "cum_of b' (o_order_id y) = cum_of b (o_order_id y)" if "y \<in> S" for y
    using assms(4) ne [OF that] by (simp add: cum_of_def)
  then have "\<forall>y \<in> S. 0 < o_quantity y \<and> o_quantity y + cum_of b' (o_order_id y) < 4294967296"
    using assms(1) by (simp add: index_ok_def)
  moreover have "\<forall>oid y. map_of (b_order_lookup b') oid = Some y \<longleftrightarrow> y \<in> S \<and> o_order_id y = oid"
    using assms(1,3) ne by (auto simp: index_ok_def)
  moreover have "\<forall>oid a. map_of (b_arrival b') oid = Some a \<longrightarrow> a \<le> b_next_arrival b'"
    using assms(1,5,7) by (simp add: index_ok_def)
  moreover have "o_order_id ` insert x S - {o_order_id x} = o_order_id ` S"
    using assms(2) by auto
  ultimately show ?thesis
    using assms(1,4-) unfolding index_ok_def by (simp add: dom_fun_upd) blast
qed

lemma index_replace:
  assumes "index_ok b (insert x S)" and "o_order_id x \<notin> o_order_id ` S" and "o_order_id x' = o_order_id x"
    and "map_of (b_order_lookup b') = (map_of (b_order_lookup b))(o_order_id x := Some x')"
    and "map_of (b_cum_filled b') = (map_of (b_cum_filled b))(o_order_id x := c)"
    and "map_of (b_arrival b') = (map_of (b_arrival b))(o_order_id x := Some a)"
    and "map_of (b_displayed b') = (map_of (b_displayed b))(o_order_id x := Some v)"
    and "b_next_arrival b \<le> b_next_arrival b'" and "a \<le> b_next_arrival b'"
    and "0 < o_quantity x'" and "o_quantity x' + (case c of None \<Rightarrow> 0 | Some n \<Rightarrow> n) < 4294967296"
    and "hm_ok (b_order_lookup b')" "hm_ok (b_arrival b')" "hm_ok (b_displayed b')" "hm_ok (b_cum_filled b')"
  shows "index_ok b' (insert x' S)"
proof -
  have ne: "o_order_id y \<noteq> o_order_id x" if "y \<in> S" for y
    using assms(2) that by (metis imageI)
  have "cum_of b' (o_order_id y) = cum_of b (o_order_id y)" if "y \<in> S" for y
    using assms(5) ne [OF that] by (simp add: cum_of_def)
  moreover have "cum_of b' (o_order_id x') = (case c of None \<Rightarrow> 0 | Some n \<Rightarrow> n)"
    using assms(3,5) by (simp add: cum_of_def)
  ultimately have "\<forall>y \<in> insert x' S. 0 < o_quantity y \<and> o_quantity y + cum_of b' (o_order_id y) < 4294967296"
    using assms(1,10,11) by (simp add: index_ok_def)
  moreover have "map_of (b_order_lookup b') oid = Some y \<longleftrightarrow> y \<in> insert x' S \<and> o_order_id y = oid" for oid y
  proof (cases "oid = o_order_id x")
    case True
    with assms(3,4) ne [of y] show ?thesis by auto
  next
    case False
    then show ?thesis using assms(3,4,1) by (auto simp: index_ok_def)
  qed
  moreover have "a' \<le> b_next_arrival b'" if "map_of (b_arrival b') oid = Some a'" for oid a'
  proof (cases "oid = o_order_id x")
    case True
    with assms(6,9) that show ?thesis by simp
  next
    case False
    with assms(6) that have "map_of (b_arrival b) oid = Some a'" by simp
    with assms(1) have "a' \<le> b_next_arrival b" by (auto simp: index_ok_def)
    with assms(8) show ?thesis by simp
  qed
  moreover have "dom (map_of (b_cum_filled b')) \<subseteq> o_order_id ` insert x' S"
    using assms(1,3,5) by (auto simp: index_ok_def split: if_splits)
  ultimately show ?thesis
    using assms(1,3,6,7,12-) unfolding index_ok_def by simp
qed

lemma index_enter:
  assumes "index_ok b S" and "o_order_id x \<notin> o_order_id ` S"
    and "map_of (b_order_lookup b') = (map_of (b_order_lookup b))(o_order_id x := Some x)"
    and "b_cum_filled b' = b_cum_filled b"
    and "map_of (b_arrival b') = (map_of (b_arrival b))(o_order_id x := Some a)"
    and "map_of (b_displayed b') = (map_of (b_displayed b))(o_order_id x := Some v)"
    and "b_next_arrival b \<le> b_next_arrival b'" and "a \<le> b_next_arrival b'"
    and "0 < o_quantity x" and "o_quantity x < 4294967296"
    and "hm_ok (b_order_lookup b')" "hm_ok (b_arrival b')" "hm_ok (b_displayed b')"
  shows "index_ok b' (insert x S)"
proof -
  have ne: "o_order_id y \<noteq> o_order_id x" if "y \<in> S" for y
    using assms(2) that by (metis imageI)
  have "o_order_id x \<notin> dom (map_of (b_cum_filled b))"
    using assms(1,2) by (auto simp: index_ok_def)
  then have "cum_of b' (o_order_id x) = 0"
    using assms(4) by (auto simp: cum_of_def split: option.split)
  moreover have "cum_of b' = cum_of b" using assms(4) by (simp add: cum_of_def fun_eq_iff)
  ultimately have "\<forall>y \<in> insert x S. 0 < o_quantity y \<and> o_quantity y + cum_of b' (o_order_id y) < 4294967296"
    using assms(1,9,10) by (simp add: index_ok_def)
  moreover have "map_of (b_order_lookup b') oid = Some y \<longleftrightarrow> y \<in> insert x S \<and> o_order_id y = oid" for oid y
  proof (cases "oid = o_order_id x")
    case True
    with assms(3) ne [of y] show ?thesis by auto
  next
    case False
    then show ?thesis using assms(3,1) by (auto simp: index_ok_def)
  qed
  moreover have "a' \<le> b_next_arrival b'" if "map_of (b_arrival b') oid = Some a'" for oid a'
  proof (cases "oid = o_order_id x")
    case True
    with assms(5,8) that show ?thesis by simp
  next
    case False
    with assms(5) that have "map_of (b_arrival b) oid = Some a'" by simp
    with assms(1) have "a' \<le> b_next_arrival b" by (auto simp: index_ok_def)
    with assms(7) show ?thesis by simp
  qed
  moreover have "dom (map_of (b_cum_filled b')) \<subseteq> o_order_id ` insert x S"
    using assms(1,4) by (auto simp: index_ok_def)
  ultimately show ?thesis
    using assms(1,4-6,11-) unfolding index_ok_def by simp
qed

lemma wf_fresh: "wf_with b (x # xs) \<Longrightarrow> o_order_id x \<notin> o_order_id ` set (roster b xs)"
  by (auto simp: wf_with_def roster_def)

lemma wf_index: "wf_with b (x # xs) \<Longrightarrow> index_ok b (insert x (set (roster b xs)))"
  by (simp add: wf_with_def roster_def)

lemma wf_hm_ok:
  assumes "wf_with b xs"
  shows "hm_ok (b_order_lookup b)" "hm_ok (b_arrival b)" "hm_ok (b_displayed b)" "hm_ok (b_cum_filled b)"
  using assms by (simp_all add: wf_with_def index_ok_def)

subsection \<open>Fills\<close>

lemma sync_visible_fill_frame [simp]:
  "side_levels sd (sync_visible_fill x t v b) = side_levels sd b"
  "b_next_arrival (sync_visible_fill x t v b) = b_next_arrival b"
  "b_last_added (sync_visible_fill x t v b) = b_last_added b"
  "b_refresh_log (sync_visible_fill x t v b) = b_refresh_log b"
  "b_stp (sync_visible_fill x t v b) = b_stp b"
  "b_symbol (sync_visible_fill x t v b) = b_symbol b"
  by (cases sd; simp add: sync_visible_fill_def sync_fill_def Let_def split: option.split)+

lemma queue_sync [simp]: "queue sd (sync_visible_fill x t v b) = queue sd b"
  by (simp add: queue_def)

lemma sync_visible_fill_maps:
  assumes "map_of (b_order_lookup b) (o_order_id x) = Some y"
    and "map_of (b_arrival b) (o_order_id x) = Some a"
  shows "map_of (b_order_lookup (sync_visible_fill x t v b)) =
      (map_of (b_order_lookup b))(o_order_id x :=
         if o_quantity x = 0 then None else Some (y\<lparr>o_quantity := o_quantity x\<rparr>))"
    and "map_of (b_cum_filled (sync_visible_fill x t v b)) =
      (map_of (b_cum_filled b))(o_order_id x :=
         if o_quantity x = 0 then None else Some (add_u32 (cum_of b (o_order_id x)) t))"
    and "map_of (b_arrival (sync_visible_fill x t v b)) =
      (map_of (b_arrival b))(o_order_id x := if o_quantity x = 0 then None else Some a)"
    and "map_of (b_displayed (sync_visible_fill x t v b)) =
      (map_of (b_displayed b))(o_order_id x := if o_quantity x = 0 then None else Some v)"
  using assms
  by (auto simp: sync_visible_fill_def sync_fill_def Let_def cum_of_def fun_eq_iff)

lemma sync_visible_fill_hm_ok:
  "hm_ok (b_order_lookup b) \<Longrightarrow> hm_ok (b_order_lookup (sync_visible_fill x t v b))"
  "hm_ok (b_arrival b) \<Longrightarrow> hm_ok (b_arrival (sync_visible_fill x t v b))"
  "hm_ok (b_displayed b) \<Longrightarrow> hm_ok (b_displayed (sync_visible_fill x t v b))"
  "hm_ok (b_cum_filled b) \<Longrightarrow> hm_ok (b_cum_filled (sync_visible_fill x t v b))"
  by (simp_all add: sync_visible_fill_def sync_fill_def Let_def split: option.split)

text \<open>A fill of at most the quantity of an order in flight.\<close>

lemma wf_sync:
  assumes wf: "wf_with b (x # xs)" and q: "q + t \<le> o_quantity x"
  shows "wf_with (sync_visible_fill (x\<lparr>o_quantity := q\<rparr>) t v b)
           (if q = 0 then xs else x\<lparr>o_quantity := q\<rparr> # xs)"
proof -
  let ?x = "x\<lparr>o_quantity := q\<rparr>" and ?b = "sync_visible_fill (x\<lparr>o_quantity := q\<rparr>) t v b"
  have xin: "x \<in> set (roster b (x # xs))" by (simp add: roster_def)
  have look: "map_of (b_order_lookup b) (o_order_id ?x) = Some x"
    using wf_lookup [OF wf] xin by simp
  have arr: "map_of (b_arrival b) (o_order_id ?x) = Some (arr_of b x)"
    using wf_arrival_some [OF wf xin] by simp
  note maps = sync_visible_fill_maps [OF look arr, of t v, simplified]
  have cum: "o_quantity x + cum_of b (o_order_id x) < 4294967296"
    using wf_quantity [OF wf xin] by simp
  show ?thesis
  proof (rule wf_reindex [OF wf _ maps(3,4)])
    show "index_ok ?b (set (roster b (if q = 0 then xs else ?x # xs)))"
    proof (cases "q = 0")
      case True
      have "index_ok ?b (set (roster b xs))"
        by (intro index_forget [OF wf_index [OF wf] wf_fresh [OF wf]])
          (simp_all add: maps [unfolded True] True wf_hm_ok [OF wf] sync_visible_fill_hm_ok)
      with True show ?thesis by simp
    next
      case False
      then have "index_ok ?b (insert ?x (set (roster b xs)))"
        using cum q wf_arrival_le [OF wf, of x]
        by (intro index_replace [OF wf_index [OF wf] wf_fresh [OF wf], where a = "arr_of b x" and v = v
            and c = "Some (cum_of b (o_order_id x) + t)"])
          (simp_all add: maps wf_hm_ok [OF wf] sync_visible_fill_hm_ok)
      with False show ?thesis by (simp add: roster_def)
    qed
  qed auto
qed

lemma visible_sync:
  "visible (sync_visible_fill x t v b) x = (if o_quantity x = 0 then 0 else v)"
  by (simp add: visible_def sync_visible_fill_def Let_def)

text \<open>A replenished order shows a new slice and is the newest arrival of the book.\<close>

lemma replenish_frame [simp]:
  "side_levels sd (fst (replenish x b)) = side_levels sd b"
  "b_order_lookup (fst (replenish x b)) = b_order_lookup b"
  "b_cum_filled (fst (replenish x b)) = b_cum_filled b"
  "b_last_added (fst (replenish x b)) = b_last_added b"
  "b_refresh_log (fst (replenish x b)) = b_refresh_log b"
  "b_stp (fst (replenish x b)) = b_stp b"
  "b_symbol (fst (replenish x b)) = b_symbol b"
  by (cases sd; simp add: replenish_def Let_def)+

lemma queue_replenish [simp]: "queue sd (fst (replenish x b)) = queue sd b"
  by (simp add: queue_def)

lemma replenish_None: "snd (replenish x b) = None \<Longrightarrow> fst (replenish x b) = b"
  by (auto simp: replenish_def Let_def split: if_splits)

lemma wf_replenish:
  assumes wf: "wf_with b (x # xs)"
  shows "wf_with (fst (replenish x b)) (x # xs)"
proof (cases "snd (replenish x b)")
  case None
  with wf show ?thesis by (simp add: replenish_None)
next
  case (Some u)
  let ?b = "fst (replenish x b)"
  define v where "v = min (o_quantity x) (o_display_quantity x)"
  from Some have maps: "map_of (b_arrival ?b) = (map_of (b_arrival b))(o_order_id x := Some (b_next_arrival b + 1))"
      "map_of (b_displayed ?b) = (map_of (b_displayed b))(o_order_id x := Some v)"
      "b_next_arrival ?b = b_next_arrival b + 1" "hm_ok (b_arrival ?b)" "hm_ok (b_displayed ?b)"
    by (simp_all add: replenish_def v_def Let_def wf_hm_ok [OF wf] split: if_splits)
  have xin: "x \<in> set (roster b (x # xs))" by (simp add: roster_def)
  show ?thesis
  proof (rule wf_reindex [OF wf _ maps(1,2)])
    have "index_ok ?b (insert x (set (roster b xs)))"
    proof (rule index_replace [OF wf_index [OF wf] wf_fresh [OF wf] refl,
        where c = "map_of (b_cum_filled b) (o_order_id x)" and a = "b_next_arrival b + 1" and v = v])
      show "map_of (b_order_lookup ?b) = (map_of (b_order_lookup b))(o_order_id x \<mapsto> x)"
        using wf_lookup [OF wf, of "o_order_id x" x] xin by (simp add: fun_upd_idem)
      show "o_quantity x + (case map_of (b_cum_filled b) (o_order_id x) of None \<Rightarrow> 0 | Some n \<Rightarrow> n) < 4294967296"
        using wf_quantity [OF wf xin] by (simp add: cum_of_def)
    qed (use wf_quantity [OF wf xin] maps wf_hm_ok [OF wf] in \<open>simp_all add: fun_upd_idem\<close>)
    then show "index_ok ?b (set (roster b (x # xs)))" by (simp add: roster_def)
  qed simp_all
qed

lemma replenish_Some:
  assumes wf: "wf_with b (x # xs)" and some: "snd (replenish x b) \<noteq> None"
  shows "vis_ok (fst (replenish x b)) x"
    and "y \<in> set (queue (o_side x) b) \<Longrightarrow> arr_of (fst (replenish x b)) y < arr_of (fst (replenish x b)) x"
proof -
  let ?b = "fst (replenish x b)"
  have new: "arr_of ?b x = b_next_arrival b + 1"
    using some by (simp add: replenish_def arr_of_def Let_def split: if_splits)
  show "vis_ok ?b x"
    using some wf_quantity [OF wf, of x]
    by (auto simp: replenish_def vis_ok_def Let_def roster_def split: if_splits)
  show "arr_of ?b y < arr_of ?b x" if "y \<in> set (queue (o_side x) b)"
  proof -
    from wf_inflight_fresh [OF wf, of y "o_side x"] that have "o_order_id y \<noteq> o_order_id x" by simp
    then have "arr_of ?b y = arr_of b y"
      by (simp add: replenish_def arr_of_def Let_def)
    with wf_arrival_le [OF wf, of y] new show ?thesis by simp
  qed
qed

text \<open>After a fill and its replenishment, an order with quantity left shows some of it.\<close>

lemma vis_ok_after_fill:
  assumes "vis_ok b x" and "t \<le> visible b x" and "q = o_quantity x - t" and "0 < q"
    and "snd (replenish (x\<lparr>o_quantity := q\<rparr>) (sync_visible_fill (x\<lparr>o_quantity := q\<rparr>) t (visible b x - t) b')) = None"
  shows "vis_ok (sync_visible_fill (x\<lparr>o_quantity := q\<rparr>) t (visible b x - t) b') (x\<lparr>o_quantity := q\<rparr>)"
  using assms
  by (auto simp: vis_ok_def visible_def sync_visible_fill_def replenish_def Let_def split: if_splits)

subsection \<open>New orders\<close>

text \<open>Entering an order sets its indexes and puts it behind its price level.\<close>

definition enter_index :: "order \<Rightarrow> order_book \<Rightarrow> order_book" where
  "enter_index x b =
     b\<lparr>b_displayed := hm_insert (o_order_id x)
          (if o_display_quantity x = 0 then o_quantity x else min (o_display_quantity x) (o_quantity x))
          (b_displayed b),
       b_last_added := Some (o_order_id x),
       b_order_lookup := hm_insert (o_order_id x) x (b_order_lookup b),
       b_next_arrival := b_next_arrival b + 1,
       b_arrival := hm_insert (o_order_id x) (b_next_arrival b + 1) (b_arrival b)\<rparr>"

lemma enter_index_levels [simp]: "side_levels sd (enter_index x b) = side_levels sd b"
  by (cases sd) (simp_all add: enter_index_def)

lemma add_order_enter: "0 < o_quantity x \<Longrightarrow> fst (add_order x b) = requeue x True (enter_index x b)"
  by (cases "o_side x") (simp_all add: add_order_def requeue_def enter_index_def set_levels.simps Let_def)

lemma wf_enter_index:
  assumes wf: "wf_with b xs" and new: "o_order_id x \<notin> o_order_id ` set (roster b xs)"
    and q: "0 < o_quantity x" "o_quantity x < 4294967296"
  shows "wf_with (enter_index x b) (x # xs)"
proof -
  let ?b = "enter_index x b"
  have q': "queue sd ?b = queue sd b" for sd by (simp add: queue_def)
  have fresh: "o_order_id y \<noteq> o_order_id x" if "y \<in> set (queue sd b)" for sd y
    using new queue_roster [of sd b xs] that by (metis image_eqI subsetD)
  have maps: "map_of (b_arrival ?b) = (map_of (b_arrival b))(o_order_id x := Some (b_next_arrival b + 1))"
    by (simp add: enter_index_def)
  have "index_ok ?b (insert x (set (roster b xs)))"
    by (rule index_enter [OF _ new _ _ maps])
      (use wf q in \<open>simp_all add: wf_with_def enter_index_def wf_hm_ok [OF wf]\<close>)
  moreover have "distinct (map o_order_id (roster b (x # xs)))"
    using wf new by (auto simp: wf_with_def roster_def)
  moreover have "\<forall>sd. \<forall>y \<in> set (queue sd b). vis_ok ?b y"
    using wf fresh by (simp add: wf_with_def vis_ok_def enter_index_def)
  moreover have "\<forall>sd. time_ok ?b (queue sd b)"
  proof
    fix sd
    have "time_ok ?b (queue sd b) = time_ok b (queue sd b)"
      by (rule time_ok_upd) (rule arr_of_upd [OF maps fresh])
    with wf show "time_ok ?b (queue sd b)" by (simp add: wf_with_def)
  qed
  ultimately show ?thesis
    using wf unfolding wf_with_def by (simp add: roster_def q')
qed

lemma wf_add_order:
  assumes wf: "wf_with b xs" and new: "o_order_id x \<notin> o_order_id ` set (roster b xs)"
    and q: "0 < o_quantity x" "o_quantity x < 4294967296"
  shows "wf_with (fst (add_order x b)) xs"
  unfolding add_order_enter [OF q(1)]
proof (rule wf_requeue_rear [OF wf_enter_index [OF assms]])
  show "vis_ok (enter_index x b) x"
    using q(1) by (auto simp: vis_ok_def enter_index_def)
  show "arr_of (enter_index x b) y < arr_of (enter_index x b) x"
    if "y \<in> set (queue (o_side x) (enter_index x b))" for y
  proof -
    from that have "y \<in> set (queue (o_side x) b)" by (simp add: queue_def)
    with new queue_roster [of "o_side x" b xs] have "o_order_id y \<noteq> o_order_id x"
      by (metis image_eqI subsetD)
    with wf_arrival_le [OF wf, of y] show ?thesis
      by (simp add: enter_index_def arr_of_def)
  qed
qed

lemma side_levels_add_order:
  "side_levels sd (fst (add_order x b)) =
     (if sd = o_side x then push_back x (side_levels sd b) else side_levels sd b)"
  by (cases sd; cases "o_side x") (simp_all add: add_order_def Let_def set_levels.simps)

lemma queue_add_order:
  "wf_with b xs \<Longrightarrow> queue sd (fst (add_order x b)) =
     (if sd = o_side x
      then filter (\<lambda>y. \<not> ahead sd x y) (queue sd b) @ x # filter (\<lambda>y. ahead sd x y) (queue sd b)
      else queue sd b)"
  by (simp add: queue_def side_levels_add_order flat_push_back [OF wf_levels])

subsection \<open>Cancels\<close>

lemma mset_filter_one:
  "distinct (map f xs) \<Longrightarrow> x \<in> set xs \<Longrightarrow> add_mset x (mset (filter (\<lambda>y. f y \<noteq> f x) xs)) = mset xs"
proof (induction xs)
  case (Cons z zs)
  then show ?case
  proof (cases "z = x")
    case True
    with Cons.prems have "filter (\<lambda>y. f y \<noteq> f x) zs = zs"
      by (auto simp: filter_id_conv image_iff)
    with True show ?thesis by simp
  next
    case False
    with Cons.prems have "f z \<noteq> f x" by auto
    with Cons False show ?thesis by (simp add: add_mset_commute)
  qed
qed simp

definition drop_level :: "int \<Rightarrow> string \<Rightarrow> levels \<Rightarrow> levels" where
  "drop_level p oid ls =
     (case map_of ls p of
        None \<Rightarrow> ls
      | Some os \<Rightarrow>
          (let os' = filter (\<lambda>x. o_order_id x \<noteq> oid) os in
           if os' = [] then bt_remove p ls else bt_insert p os' ls))"

lemma drop_level:
  assumes ok: "levels_ok sd ls" and x: "x \<in> set (flat sd ls)" and ids: "inj_on o_order_id (set (flat sd ls))"
  shows "levels_ok sd (drop_level (o_price x) (o_order_id x) ls)"
    and "flat sd (drop_level (o_price x) (o_order_id x) ls) = filter (\<lambda>y. o_order_id y \<noteq> o_order_id x) (flat sd ls)"
proof -
  let ?p = "o_price x"
  from x flat_level [OF ok] have lv: "x \<in> set (level_of ls ?p)" by simp
  then obtain os where os: "map_of ls ?p = Some os" by (cases "map_of ls ?p") (simp_all add: level_of_def)
  then have "o_price y = ?p \<and> o_side y = sd" if "y \<in> set os" for y
    using level_of_ok [OF ok, of y ?p] that by (simp add: level_of_def)
  with ok os show "levels_ok sd (drop_level ?p (o_order_id x) ls)"
    by (auto simp: drop_level_def Let_def intro!: levels_ok_insert levels_ok_remove)
  have other: "o_order_id y \<noteq> o_order_id x"
    if "y \<in> set (flat sd (better_levels sd ?p ls)) \<union> set (flat sd (worse_levels sd ?p ls))" for y
  proof
    assume "o_order_id y = o_order_id x"
    moreover from that have "y \<in> set (flat sd ls)" by (subst flat_around [OF ok, of ?p]) auto
    ultimately have "y = x" using ids x by (simp add: inj_on_def)
    with that better_ahead [OF ok, of x ?p x] worse_ahead [OF ok, of x ?p x] show False by auto
  qed
  then have "filter (\<lambda>y. o_order_id y \<noteq> o_order_id x) (flat sd ls) =
      flat sd (better_levels sd ?p ls) @ filter (\<lambda>y. o_order_id y \<noteq> o_order_id x) os @ flat sd (worse_levels sd ?p ls)"
    using os by (subst flat_around [OF ok, of ?p]) (auto simp: level_of_def filter_id_conv)
  with os show "flat sd (drop_level ?p (o_order_id x) ls) = filter (\<lambda>y. o_order_id y \<noteq> o_order_id x) (flat sd ls)"
    by (simp add: drop_level_def Let_def flat_insert flat_remove [OF ok])
qed

lemma wf_queue_ids:
  assumes "wf_with b xs"
  shows "distinct (map o_order_id (queue sd b))" and "inj_on o_order_id (set (queue sd b))"
  using assms by (cases sd; simp add: wf_with_def roster_def distinct_map)+

lemma wf_take_any:
  assumes wf: "wf_with b xs" and ls: "levels_ok sd ls" and x: "x \<in> set (queue sd b)"
    and q: "flat sd ls = filter (\<lambda>y. o_order_id y \<noteq> o_order_id x) (queue sd b)"
  shows "wf_with (set_levels sd ls b) (x # xs)"
proof (rule wf_rearrange [OF wf])
  have "add_mset x (mset (flat sd ls)) = mset (queue sd b)"
    unfolding q using wf_queue_ids(1) [OF wf] x by (rule mset_filter_one)
  from this [symmetric] show "mset (roster (set_levels sd ls b) (x # xs)) = mset (roster b xs)"
    by (cases sd) (simp_all add: roster_def)
  show "vis_ok b y" if "y \<in> set (queue sd' (set_levels sd ls b))" for sd' y
    using that q wf by (auto simp: wf_with_def split: if_splits)
  show "time_ok b (queue sd' (set_levels sd ls b))" for sd'
  proof (cases "sd' = sd")
    case True
    moreover have "time_ok b (queue sd b)" using wf by (simp add: wf_with_def)
    ultimately show ?thesis by (simp add: q time_ok_def sorted_wrt_filter)
  next
    case False
    with wf show ?thesis by (simp add: wf_with_def)
  qed
qed (use ls wf in \<open>simp_all add: wf_levels\<close>)

definition forget_index :: "string \<Rightarrow> order_book \<Rightarrow> order_book" where
  "forget_index oid b =
     b\<lparr>b_order_lookup := hm_remove oid (b_order_lookup b), b_displayed := hm_remove oid (b_displayed b),
       b_cum_filled := hm_remove oid (b_cum_filled b), b_arrival := hm_remove oid (b_arrival b)\<rparr>"

lemma forget_index_levels [simp]: "side_levels sd (forget_index oid b) = side_levels sd b"
  by (cases sd) (simp_all add: forget_index_def)

lemma wf_forget_index:
  assumes wf: "wf_with b (x # xs)"
  shows "wf_with (forget_index (o_order_id x) b) xs"
proof (rule wf_reindex [OF wf])
  show "index_ok (forget_index (o_order_id x) b) (set (roster b xs))"
    by (rule index_forget [OF wf_index [OF wf] wf_fresh [OF wf]])
      (simp_all add: forget_index_def wf_hm_ok [OF wf])
  show "map_of (b_arrival (forget_index (o_order_id x) b)) = (map_of (b_arrival b))(o_order_id x := None)"
    "map_of (b_displayed (forget_index (o_order_id x) b)) = (map_of (b_displayed b))(o_order_id x := None)"
    by (simp_all add: forget_index_def)
qed simp_all

lemma cancel_order_None: "map_of (b_order_lookup b) oid = None \<Longrightarrow> cancel_order oid b = (b, None)"
  by (simp add: cancel_order_def)

lemma cancel_order_Some:
  assumes "map_of (b_order_lookup b) oid = Some x"
  shows "fst (cancel_order oid b) =
      forget_index oid (set_levels (o_side x) (drop_level (o_price x) oid (side_levels (o_side x) b)) b)"
    and "snd (cancel_order oid b) = Some (generate_incremental_update b CancelOrder (o_price x)
           (case map_of (b_displayed b) oid of None \<Rightarrow> o_quantity x | Some v \<Rightarrow> v) (o_side x))"
  using assms
  by (cases "o_side x"; simp add: cancel_order_def forget_index_def drop_level_def Let_def set_levels.simps
      generate_incremental_update_def split: option.split)+

lemma cancel_order_levels:
  assumes wf: "wf_with b xs" and x: "map_of (b_order_lookup b) oid = Some x" "x \<in> set (queue sd b)"
  defines "ls \<equiv> drop_level (o_price x) oid (side_levels (o_side x) b)"
  shows "o_side x = sd" and "o_order_id x = oid" and "levels_ok sd ls"
    and "flat sd ls = filter (\<lambda>y. o_order_id y \<noteq> oid) (queue sd b)"
proof -
  from wf_lookup [OF wf] x show oid: "o_order_id x = oid" by simp
  from queue_side [OF wf x(2)] show sd: "o_side x = sd" .
  from drop_level [OF wf_levels [OF wf] x(2) [unfolded queue_def] wf_queue_ids(2) [OF wf, unfolded queue_def]]
  show "levels_ok sd ls" "flat sd ls = filter (\<lambda>y. o_order_id y \<noteq> oid) (queue sd b)"
    by (simp_all add: ls_def oid sd queue_def)
qed

lemma wf_cancel_order:
  assumes wf: "wf_with b xs" and x: "map_of (b_order_lookup b) oid = Some x" "x \<in> set (queue sd b)"
  shows "wf_with (fst (cancel_order oid b)) xs"
    and "queue sd' (fst (cancel_order oid b)) = filter (\<lambda>y. o_order_id y \<noteq> oid) (queue sd' b)"
proof -
  note ls = cancel_order_levels [OF assms]
  from wf_take_any [OF wf ls(3) x(2)] ls
  have taken: "wf_with (set_levels sd (drop_level (o_price x) oid (side_levels sd b)) b) (x # xs)"
    by simp
  from wf_forget_index [OF this] show "wf_with (fst (cancel_order oid b)) xs"
    by (simp add: cancel_order_Some [OF x(1)] ls(1,2))
  have other: "o_order_id y \<noteq> oid" if "y \<in> set (queue sd' b)" and "sd' \<noteq> sd" for y
    using wf_inflight_fresh [OF taken, of y sd'] that ls(2) by simp
  show "queue sd' (fst (cancel_order oid b)) = filter (\<lambda>y. o_order_id y \<noteq> oid) (queue sd' b)"
  proof (cases "sd' = sd")
    case True
    then show ?thesis using ls by (simp add: cancel_order_Some [OF x(1)] queue_def)
  next
    case False
    with other have "filter (\<lambda>y. o_order_id y \<noteq> oid) (queue sd' b) = queue sd' b"
      by (simp add: filter_id_conv)
    with False show ?thesis using ls by (simp add: cancel_order_Some [OF x(1)] queue_def)
  qed
qed

lemma wf_book_lookup:
  assumes "wf_book b"
  shows "map_of (b_order_lookup b) oid = Some x \<longleftrightarrow> (\<exists>sd. x \<in> set (queue sd b)) \<and> o_order_id x = oid"
proof -
  have "(\<exists>sd. x \<in> set (queue sd b)) \<longleftrightarrow> x \<in> set (queue Buy b) \<or> x \<in> set (queue Sell b)"
    by (metis order_side.exhaust)
  with wf_lookup [of b "[]"] assms show ?thesis by (simp add: wf_book_def roster_def)
qed

lemma wf_book_cancel_order: "wf_book b \<Longrightarrow> wf_book (fst (cancel_order oid b))"
proof (cases "map_of (b_order_lookup b) oid")
  case (Some x)
  assume wf: "wf_book b"
  from wf_book_lookup [OF wf, of oid x] Some obtain sd where "x \<in> set (queue sd b)" by auto
  from wf_cancel_order(1) [OF _ Some this] wf show ?thesis by (simp add: wf_book_def)
qed (simp add: cancel_order_None)

subsection \<open>Replaces\<close>

lemma wf_set_cum:
  assumes wf: "wf_with b xs" and x: "x \<in> set (roster b xs)" and c: "o_quantity x + c < 4294967296"
  shows "wf_with (b\<lparr>b_cum_filled := hm_insert (o_order_id x) c (b_cum_filled b)\<rparr>) xs" (is "wf_with ?b xs")
proof -
  have sl: "side_levels sd ?b = side_levels sd b" for sd by (cases sd) simp_all
  then have q: "queue sd ?b = queue sd b" for sd by (simp add: queue_def)
  then have r: "roster ?b xs = roster b xs" by (simp add: roster_def)
  have "o_quantity y + cum_of ?b (o_order_id y) < 4294967296" if "y \<in> set (roster b xs)" for y
    using wf_quantity [OF wf that] wf_ids [OF wf that x] c by (auto simp: cum_of_def)
  then have "index_ok ?b (set (roster b xs))"
    using wf x by (auto simp: wf_with_def index_ok_def)
  moreover have "vis_ok ?b = vis_ok b" "time_ok ?b = time_ok b"
    by (simp_all add: vis_ok_def time_ok_def arr_of_def fun_eq_iff)
  ultimately show ?thesis
    using wf by (simp add: wf_with_def sl q r)
qed

definition replaced :: "string \<Rightarrow> order_replace \<Rightarrow> nat \<Rightarrow> order \<Rightarrow> order" where
  "replaced new_id changes leaves orig =
     orig\<lparr>o_order_id := new_id,
          o_price := (if r_new_price changes > 0 then r_new_price changes else o_price orig),
          o_quantity := leaves,
          o_display_quantity :=
            (case r_new_display_quantity changes of None \<Rightarrow> o_display_quantity orig | Some d \<Rightarrow> d),
          o_time_in_force :=
            (case r_new_time_in_force changes of None \<Rightarrow> o_time_in_force orig | Some t \<Rightarrow> t),
          o_timestamp := r_timestamp changes,
          o_client_order_id := r_client_order_id changes\<rparr>"

text \<open>The quantity left by a replace: the requested total is counted from the first entry.\<close>

definition replace_leaves :: "order_replace \<Rightarrow> nat \<Rightarrow> order \<Rightarrow> nat option" where
  "replace_leaves changes filled orig =
     (if r_new_total_qty changes = 0 then Some (o_quantity orig)
      else if filled < r_new_total_qty changes then Some (r_new_total_qty changes - filled) else None)"

lemma replace_order_rejects:
  assumes "\<And>x. map_of (b_order_lookup b) orig_id = Some x \<Longrightarrow> o_trader_id x = owner \<Longrightarrow>
      new_id \<noteq> orig_id \<and> hm_contains (b_order_lookup b) new_id \<or>
      replace_leaves changes (cum_of b orig_id) x = None"
  shows "\<exists>e. replace_order orig_id new_id changes owner b = (b, Inl e)"
  using assms
  by (cases "map_of (b_order_lookup b) orig_id")
    (auto simp: replace_order_def check_owner_def replace_leaves_def cum_of_def split: if_splits)

lemma replace_order_accepts:
  assumes x: "map_of (b_order_lookup b) orig_id = Some x" "o_trader_id x = owner"
    and new: "new_id = orig_id \<or> \<not> hm_contains (b_order_lookup b) new_id"
    and lv: "replace_leaves changes (cum_of b orig_id) x = Some leaves"
  shows "fst (replace_order orig_id new_id changes owner b) =
      (let b2 = fst (add_order (replaced new_id changes leaves x) (fst (cancel_order orig_id b)))
       in if cum_of b orig_id > 0
          then b2\<lparr>b_cum_filled := hm_insert new_id (cum_of b orig_id) (b_cum_filled b2)\<rparr> else b2)"
    and "\<exists>inc. snd (replace_order orig_id new_id changes owner b) = Inr (replaced new_id changes leaves x, inc)"
proof -
  have "(if r_new_total_qty changes = 0 then Some (o_quantity x)
         else if r_new_total_qty changes > cum_of b orig_id
              then Some (sub_u32 (r_new_total_qty changes) (cum_of b orig_id)) else None) = Some leaves"
    using lv by (auto simp: replace_leaves_def split: if_splits)
  moreover have "check_owner orig_id owner b = Inr ()"
    using x by (simp add: check_owner_def)
  ultimately have r: "replace_order orig_id new_id changes owner b =
      (let (b1, removed) = cancel_order orig_id b;
           (b2, inc) = add_order (replaced new_id changes leaves x) b1;
           inc' = (case removed of None \<Rightarrow> inc | Some r \<Rightarrow> inc\<lparr>inc_changes := inc_changes r @ inc_changes inc\<rparr>);
           b3 = (if cum_of b orig_id > 0
                 then b2\<lparr>b_cum_filled := hm_insert new_id (cum_of b orig_id) (b_cum_filled b2)\<rparr> else b2)
       in (b3, Inr (replaced new_id changes leaves x, inc')))"
    using x(1) new unfolding replace_order_def replaced_def cum_of_def [symmetric]
    by (simp only: sum.case option.case Let_def) (auto cong: if_cong)
  show "fst (replace_order orig_id new_id changes owner b) =
      (let b2 = fst (add_order (replaced new_id changes leaves x) (fst (cancel_order orig_id b)))
       in if cum_of b orig_id > 0
          then b2\<lparr>b_cum_filled := hm_insert new_id (cum_of b orig_id) (b_cum_filled b2)\<rparr> else b2)"
    and "\<exists>inc. snd (replace_order orig_id new_id changes owner b) = Inr (replaced new_id changes leaves x, inc)"
    unfolding r by (simp_all add: Let_def split: prod.split)
qed

lemma replaced_fields [simp]:
  "o_order_id (replaced new_id changes leaves x) = new_id"
  "o_quantity (replaced new_id changes leaves x) = leaves"
  "o_side (replaced new_id changes leaves x) = o_side x"
  by (simp_all add: replaced_def)

lemma cancel_order_lookup:
  "map_of (b_order_lookup (fst (cancel_order oid b))) = (map_of (b_order_lookup b))(oid := None)"
proof (cases "map_of (b_order_lookup b) oid")
  case (Some x)
  then show ?thesis
    by (simp add: cancel_order_Some [OF Some] forget_index_def)
qed (simp add: cancel_order_None fun_upd_idem)

lemma add_order_lookup:
  "map_of (b_order_lookup (fst (add_order x b))) = (map_of (b_order_lookup b))(o_order_id x \<mapsto> x)"
  by (simp add: add_order_def Let_def)

lemma wf_book_add_order:
  assumes wf: "wf_book b" and new: "map_of (b_order_lookup b) (o_order_id x) = None"
    and q: "0 < o_quantity x" "o_quantity x < 4294967296"
  shows "wf_book (fst (add_order x b))"
proof -
  from wf have w: "wf_with b []" by (simp add: wf_book_def)
  have "o_order_id x \<notin> o_order_id ` set (roster b [])"
  proof
    assume "o_order_id x \<in> o_order_id ` set (roster b [])"
    then obtain y where "y \<in> set (roster b [])" "o_order_id y = o_order_id x" by auto
    with wf_lookup [OF w, of "o_order_id x" y] new show False by simp
  qed
  from wf_add_order [OF w this q] show ?thesis by (simp add: wf_book_def)
qed

lemma queue_add_mem: "wf_with b xs \<Longrightarrow> x \<in> set (queue (o_side x) (fst (add_order x b)))"
  by (simp add: queue_add_order)

lemma wf_book_replace_order:
  assumes wf: "wf_book b" and total: "r_new_total_qty changes < 4294967296"
  shows "wf_book (fst (replace_order orig_id new_id changes owner b))"
proof (cases "\<exists>x leaves. map_of (b_order_lookup b) orig_id = Some x \<and> o_trader_id x = owner \<and>
    (new_id = orig_id \<or> \<not> hm_contains (b_order_lookup b) new_id) \<and>
    replace_leaves changes (cum_of b orig_id) x = Some leaves")
  case False
  then have "\<exists>e. replace_order orig_id new_id changes owner b = (b, Inl e)"
    by (intro replace_order_rejects) (metis option.exhaust)
  with wf show ?thesis by auto
next
  case True
  then obtain x leaves where x: "map_of (b_order_lookup b) orig_id = Some x" "o_trader_id x = owner"
    and new: "new_id = orig_id \<or> \<not> hm_contains (b_order_lookup b) new_id"
    and lv: "replace_leaves changes (cum_of b orig_id) x = Some leaves"
    by blast
  let ?b1 = "fst (cancel_order orig_id b)" and ?y = "replaced new_id changes leaves x"
  from wf have w: "wf_with b []" by (simp add: wf_book_def)
  have "x \<in> set (roster b [])" "o_order_id x = orig_id"
    using wf_lookup [OF w] x(1) by simp_all
  with wf_quantity [OF w this(1)] lv total
  have q: "0 < leaves" "leaves + cum_of b orig_id < 4294967296"
    by (auto simp: replace_leaves_def split: if_splits)
  have "map_of (b_order_lookup ?b1) new_id = None"
    using new by (auto simp: cancel_order_lookup hm_contains_def)
  with wf_book_cancel_order [OF wf] q have w2: "wf_book (fst (add_order ?y ?b1))"
    by (intro wf_book_add_order) simp_all
  have w1: "wf_with ?b1 []" using wf_book_cancel_order [OF wf] by (simp add: wf_book_def)
  have "?y \<in> set (queue (o_side x) (fst (add_order ?y ?b1)))"
    using queue_add_mem [OF w1, of ?y] by simp
  then have "?y \<in> set (roster (fst (add_order ?y ?b1)) [])"
    using queue_roster by blast
  from wf_set_cum [OF w2 [unfolded wf_book_def] this, of "cum_of b orig_id"] q w2
  show ?thesis
    by (simp add: replace_order_accepts(1) [OF x new lv] Let_def wf_book_def)
qed

lemma side_levels_cum: "side_levels sd (b\<lparr>b_cum_filled := m\<rparr>) = side_levels sd b"
  by (cases sd) simp_all

lemma wf_cum_absent:
  assumes wf: "wf_with b xs" and none: "map_of (b_order_lookup b) oid = None"
  shows "cum_of b oid = 0"
proof -
  have "oid \<notin> o_order_id ` set (roster b xs)"
    using wf_lookup [OF wf, of oid] none by auto
  moreover have "dom (map_of (b_cum_filled b)) \<subseteq> o_order_id ` set (roster b xs)"
    using wf by (simp add: wf_with_def index_ok_def)
  ultimately show ?thesis by (auto simp: cum_of_def split: option.split)
qed

section \<open>A sample book\<close>

definition sample_order :: "string \<Rightarrow> string \<Rightarrow> order_side \<Rightarrow> int \<Rightarrow> nat \<Rightarrow> nat \<Rightarrow> order" where
  "sample_order oid owner sd price qty shown =
     \<lparr>o_order_id = oid, o_trader_id = owner, o_symbol = ''FXP'', o_price = price, o_quantity = qty,
      o_display_quantity = shown, o_side = sd, o_order_type = Limit, o_time_in_force = Day, o_timestamp = 0,
      o_stop_price = 0, o_expire_date = [], o_account = [], o_client_order_id = [],
      o_stp = \<lparr>stp_mode = StpNone, stp_group = []\<rparr>\<rparr>"

definition sample_bid :: order where
  "sample_bid = sample_order ''B1'' ''alice'' Buy 101 10 0"

definition sample_ask :: order where
  "sample_ask = sample_order ''S1'' ''bob'' Sell 100 8 2"

definition sample_late :: order where
  "sample_late = sample_order ''B2'' ''carol'' Buy 101 5 0"

definition sample_book :: order_book where
  "sample_book = fst (add_order sample_ask (fst (add_order sample_bid (book_new ''FXP'' []))))"

lemmas sample_defs = sample_book_def sample_bid_def sample_ask_def sample_late_def sample_order_def

lemma sample_lookup:
  "map_of (b_order_lookup sample_book) = [''B1'' \<mapsto> sample_bid, ''S1'' \<mapsto> sample_ask]"
  by (simp add: sample_book_def add_order_lookup) (simp add: book_new_def sample_defs)

lemma wf_sample_book: "wf_book sample_book"
  unfolding sample_book_def
  by (intro wf_book_add_order wf_book_new)
    (simp_all add: add_order_lookup, simp_all add: book_new_def sample_defs)

section \<open>Properties of the book operations\<close>

text \<open>
  C1. Popping the best order of a side: an empty side gives nothing; otherwise the order that
  comes out beats every order that stays, by price or, at the same price, by arrival, and the
  book without it lists the others unchanged and in the same order.
\<close>

theorem pop_best_priority:
  assumes "wf_book b"
  shows "case pop_best sd b of
      (None, b') \<Rightarrow> queue sd b = [] \<and> b' = b
    | (Some x, b') \<Rightarrow>
        queue sd b = x # queue sd b' \<and> (\<forall>sd'. sd' \<noteq> sd \<longrightarrow> queue sd' b' = queue sd' b) \<and>
        (\<forall>y \<in> set (queue sd b'). ahead sd x y \<or> o_price x = o_price y \<and> arr_of b x < arr_of b y)"
proof -
  from assms have wf: "wf_with b []" by (simp add: wf_book_def)
  note ok = wf_levels [OF wf, of sd]
  show ?thesis
  proof (cases "queue sd b")
    case Nil
    then have "pop_best sd b = (None, set_levels sd (side_levels sd b) b)"
      using side.pop_Nil [OF ok] by (simp add: pop_best_def queue_def)
    moreover have "set_levels sd (side_levels sd b) b = b" by (cases sd) (simp_all add: set_levels.simps)
    ultimately show ?thesis using Nil by simp
  next
    case (Cons x xs)
    from side.pop_Cons [OF ok Cons [unfolded queue_def]] obtain ls where
      pop: "pop_best sd b = (Some x, set_levels sd ls b)" and ls: "levels_ok sd ls" "flat sd ls = xs"
      by (auto simp: pop_best_def)
    from wf_take [OF wf ls(1), of x] Cons ls(2) have head: "head_ok (set_levels sd ls b) x" and sd: "o_side x = sd"
      by simp_all
    have "ahead sd x y \<or> o_price x = o_price y" if "\<not> ahead sd y x" for y
      using that by (cases sd) auto
    with pop ls Cons head sd show ?thesis by (auto simp: head_ok_def)
  qed
qed

theorem pop_best_priority_witness:
  "case pop_best Buy sample_book of
      (None, b') \<Rightarrow> queue Buy sample_book = [] \<and> b' = sample_book
    | (Some x, b') \<Rightarrow>
        queue Buy sample_book = x # queue Buy b' \<and>
        (\<forall>sd'. sd' \<noteq> Buy \<longrightarrow> queue sd' b' = queue sd' sample_book) \<and>
        (\<forall>y \<in> set (queue Buy b'). ahead Buy x y \<or> o_price x = o_price y \<and> arr_of sample_book x < arr_of sample_book y)"
  by (rule pop_best_priority) (rule wf_sample_book)

text \<open>
  C2. Adding an order with a fresh identifier keeps the book well-formed, stores the order, puts
  it behind every order of its side that is not at a worse price and before all others, leaves
  the other side alone, and publishes the displayed quantity.
\<close>

theorem add_order_correct:
  assumes "wf_book b" and "map_of (b_order_lookup b) (o_order_id x) = None"
    and "0 < o_quantity x" and "o_quantity x < 4294967296"
  defines "b' \<equiv> fst (add_order x b)"
  shows "wf_book b' \<and> map_of (b_order_lookup b') = (map_of (b_order_lookup b))(o_order_id x \<mapsto> x) \<and>
    queue (o_side x) b' =
      filter (\<lambda>y. \<not> ahead (o_side x) x y) (queue (o_side x) b) @ x # filter (ahead (o_side x) x) (queue (o_side x) b) \<and>
    (\<forall>sd. sd \<noteq> o_side x \<longrightarrow> queue sd b' = queue sd b) \<and>
    visible b' x = (if o_display_quantity x = 0 then o_quantity x else min (o_display_quantity x) (o_quantity x)) \<and>
    snd (add_order x b) = generate_incremental_update b NewOrder (o_price x) (visible b' x) (o_side x)"
proof -
  from assms(1) have wf: "wf_with b []" by (simp add: wf_book_def)
  have "wf_book b'" unfolding b'_def using assms(1-4) by (rule wf_book_add_order)
  moreover have "visible b' x = (if o_display_quantity x = 0 then o_quantity x else min (o_display_quantity x) (o_quantity x))"
    by (simp add: b'_def visible_def add_order_def Let_def)
  moreover from this have "snd (add_order x b) = generate_incremental_update b NewOrder (o_price x) (visible b' x) (o_side x)"
    by (simp add: add_order_def Let_def generate_incremental_update_def)
  ultimately show ?thesis
    using add_order_lookup [of x b] queue_add_order [OF wf] by (simp add: b'_def)
qed

theorem add_order_correct_witness:
  "queue Buy (fst (add_order sample_late sample_book)) =
     filter (\<lambda>y. \<not> ahead Buy sample_late y) (queue Buy sample_book) @ sample_late #
     filter (ahead Buy sample_late) (queue Buy sample_book)"
proof -
  have "map_of (b_order_lookup sample_book) (o_order_id sample_late) = None"
    and "0 < o_quantity sample_late" and "o_quantity sample_late < 4294967296" and "o_side sample_late = Buy"
    by (simp_all add: sample_lookup) (simp_all add: sample_late_def sample_order_def)
  with add_order_correct [OF wf_sample_book, of sample_late] show ?thesis by simp
qed

text \<open>
  C3. A cancel on behalf of an owner: an unknown order and an order of somebody else are
  rejected and leave the book as it is; the owner's cancel removes exactly that order from the
  queues, keeps the book well-formed and publishes the quantity that was displayed.
\<close>

theorem cancel_order_for_correct:
  assumes "wf_book b"
  shows "case map_of (b_order_lookup b) oid of
      None \<Rightarrow> cancel_order_for oid owner b = (b, Inl UnknownOrder)
    | Some x \<Rightarrow>
        if o_trader_id x \<noteq> owner then cancel_order_for oid owner b = (b, Inl NotOwner)
        else \<exists>b'. cancel_order_for oid owner b =
                 (b', Inr (generate_incremental_update b CancelOrder (o_price x) (visible b x) (o_side x))) \<and>
               wf_book b' \<and> map_of (b_order_lookup b') = (map_of (b_order_lookup b))(oid := None) \<and>
               (\<forall>sd. queue sd b' = filter (\<lambda>y. o_order_id y \<noteq> oid) (queue sd b))"
proof (cases "map_of (b_order_lookup b) oid")
  case None
  then show ?thesis by (simp add: cancel_order_for_def check_owner_def)
next
  case (Some x)
  from wf_book_lookup [OF assms, of oid x] Some obtain sd where x: "x \<in> set (queue sd b)" "o_order_id x = oid" by auto
  note q = wf_cancel_order(2) [OF assms [unfolded wf_book_def] Some x(1)]
  have "cancel_order oid b = (fst (cancel_order oid b),
      Some (generate_incremental_update b CancelOrder (o_price x) (visible b x) (o_side x)))"
    using cancel_order_Some(2) [OF Some] x(2) by (simp add: visible_def prod_eq_iff)
  then show ?thesis
    using Some wf_book_cancel_order [OF assms, of oid] cancel_order_lookup [of oid b] q
    by (auto simp: cancel_order_for_def check_owner_def split: option.splits prod.splits)
qed

theorem cancel_order_for_correct_witness:
  "cancel_order_for ''B1'' ''mallory'' sample_book = (sample_book, Inl NotOwner)"
  using cancel_order_for_correct [OF wf_sample_book, of "''B1''" "''mallory''"]
  by (simp add: sample_lookup) (simp add: sample_defs split: if_splits)

text \<open>
  C4. A replace that passes its checks: the new order takes the place of the old one in the
  index, stands at the back of its price level, has the requested total minus what was already
  filled, keeps the fill counter, and the book stays well-formed. A replace that does not pass
  leaves the book as it is.
\<close>

theorem replace_order_correct:
  assumes wf: "wf_book b" and total: "r_new_total_qty changes < 4294967296"
  shows "case map_of (b_order_lookup b) orig_id of
      None \<Rightarrow> replace_order orig_id new_id changes owner b = (b, Inl UnknownOrder)
    | Some x \<Rightarrow>
        if o_trader_id x \<noteq> owner then replace_order orig_id new_id changes owner b = (b, Inl NotOwner)
        else if new_id \<noteq> orig_id \<and> hm_contains (b_order_lookup b) new_id
        then replace_order orig_id new_id changes owner b = (b, Inl DuplicateOrderId)
        else case replace_leaves changes (cum_of b orig_id) x of
            None \<Rightarrow> replace_order orig_id new_id changes owner b = (b, Inl QuantityNotAboveFilled)
          | Some leaves \<Rightarrow>
              (let y = replaced new_id changes leaves x; b' = fst (replace_order orig_id new_id changes owner b) in
               (\<exists>inc. snd (replace_order orig_id new_id changes owner b) = Inr (y, inc)) \<and> wf_book b' \<and>
               map_of (b_order_lookup b') = (map_of (b_order_lookup b))(orig_id := None, new_id \<mapsto> y) \<and>
               cum_of b' new_id = cum_of b orig_id \<and>
               (let q = filter (\<lambda>z. o_order_id z \<noteq> orig_id) (queue (o_side x) b) in
                queue (o_side x) b' = filter (\<lambda>z. \<not> ahead (o_side x) y z) q @ y # filter (ahead (o_side x) y) q))"
proof (cases "map_of (b_order_lookup b) orig_id")
  case None
  then show ?thesis by (simp add: replace_order_def check_owner_def)
next
  case (Some x)
  show ?thesis
  proof (cases "o_trader_id x \<noteq> owner \<or> new_id \<noteq> orig_id \<and> hm_contains (b_order_lookup b) new_id \<or>
      replace_leaves changes (cum_of b orig_id) x = None")
    case True
    with Some show ?thesis
      by (auto simp: replace_order_def check_owner_def replace_leaves_def cum_of_def split: if_splits)
  next
    case False
    then obtain leaves where lv: "replace_leaves changes (cum_of b orig_id) x = Some leaves"
      and own: "o_trader_id x = owner" and new: "new_id = orig_id \<or> \<not> hm_contains (b_order_lookup b) new_id"
      by auto
    let ?y = "replaced new_id changes leaves x" and ?b1 = "fst (cancel_order orig_id b)"
    note acc = replace_order_accepts [OF Some own new lv]
    have w1: "wf_with ?b1 []" using wf_book_cancel_order [OF wf] by (simp add: wf_book_def)
    from wf_book_lookup [OF wf, of orig_id x] Some obtain sd where x: "x \<in> set (queue sd b)" by auto
    note q1 = wf_cancel_order(2) [OF wf [unfolded wf_book_def] Some x]
    have fields: "map_of (b_order_lookup (fst (replace_order orig_id new_id changes owner b))) =
        map_of (b_order_lookup (fst (add_order ?y ?b1)))"
      "\<And>sd. side_levels sd (fst (replace_order orig_id new_id changes owner b)) = side_levels sd (fst (add_order ?y ?b1))"
      by (simp_all add: acc(1) Let_def side_levels_cum)
    have "map_of (b_order_lookup ?b1) new_id = None"
      using new by (auto simp: cancel_order_lookup hm_contains_def)
    from wf_cum_absent [OF w1 this] have cum0: "cum_of (fst (add_order ?y ?b1)) new_id = 0"
      by (simp add: cum_of_def add_order_def Let_def)
    have "cum_of (fst (replace_order orig_id new_id changes owner b)) new_id = cum_of b orig_id"
      using cum0 by (auto simp: acc(1) Let_def cum_of_def)
    moreover have "queue (o_side x) (fst (replace_order orig_id new_id changes owner b)) = queue (o_side x) (fst (add_order ?y ?b1))"
      by (simp add: queue_def fields)
    ultimately show ?thesis
      using Some own new lv acc(2) wf_book_replace_order [OF wf total] fields(1)
      by (auto simp: Let_def add_order_lookup cancel_order_lookup queue_add_order [OF w1] q1)
  qed
qed


definition sample_change :: order_replace where
  "sample_change =
     \<lparr>r_new_price = 102, r_new_total_qty = 12, r_new_display_quantity = None, r_new_time_in_force = None,
      r_client_order_id = ''c-2'', r_timestamp = 5\<rparr>"

theorem replace_order_correct_witness:
  "map_of (b_order_lookup (fst (replace_order ''B1'' ''B9'' sample_change ''alice'' sample_book))) =
     [''S1'' \<mapsto> sample_ask, ''B9'' \<mapsto> replaced ''B9'' sample_change 12 sample_bid]"
proof -
  have "cum_of sample_book ''B1'' = 0"
    by (simp add: sample_defs cum_of_def add_order_def book_new_def Let_def set_levels.simps)
  then have lv: "replace_leaves sample_change (cum_of sample_book ''B1'') sample_bid = Some 12"
    by (simp add: replace_leaves_def sample_change_def)
  have "r_new_total_qty sample_change < 4294967296" by (simp add: sample_change_def)
  note rep = replace_order_correct [OF wf_sample_book this, of "''B1''" "''B9''" "''alice''"]
  have bid: "map_of (b_order_lookup sample_book) ''B1'' = Some sample_bid" "o_trader_id sample_bid = ''alice''"
    "\<not> hm_contains (b_order_lookup sample_book) ''B9''"
    by (simp_all add: sample_lookup hm_contains_def) (simp add: sample_bid_def sample_order_def)
  with rep lv have "map_of (b_order_lookup (fst (replace_order ''B1'' ''B9'' sample_change ''alice'' sample_book))) =
      (map_of (b_order_lookup sample_book))(''B1'' := None, ''B9'' \<mapsto> replaced ''B9'' sample_change 12 sample_bid)"
    by (simp add: Let_def)
  then show ?thesis by (simp add: sample_lookup fun_eq_iff)
qed

end
