(* ===== verification/Fxp_Matcher.thy ===== *)
theory Fxp_Matcher
  imports Fxp_Book_Wf
begin

text \<open>
  The matching engine of \<^verbatim>\<open>order_book/matcher.rs\<close>: the passive crossing of the book, the
  sweep of an aggressive order, self-trade prevention, and the trigger of stop orders.

  The Rust loops are instances of \<^term>\<open>loop_while\<close>; an \<^verbatim>\<open>expect\<close> or an index into a map
  that finds nothing is \<^term>\<open>None\<close>.
\<close>

section \<open>Self-trade prevention\<close>

definition self_match :: "order \<Rightarrow> order \<Rightarrow> bool" where
  "self_match newer older \<longleftrightarrow>
     stp_mode (o_stp newer) \<noteq> StpNone \<and> order_stp_key newer = order_stp_key older"

text \<open>The quantities a mode leaves to the newer and to the older order.\<close>

fun stp_left :: "stp_mode \<Rightarrow> nat \<Rightarrow> nat \<Rightarrow> nat \<times> nat" where
  "stp_left CancelNewest newer older = (0, older)"
| "stp_left CancelOldest newer older = (newer, 0)"
| "stp_left CancelBoth newer older = (0, 0)"
| "stp_left _ newer older = (sub_u32 newer (min newer older), sub_u32 older (min newer older))"

definition push_stp_event :: "stp_event \<Rightarrow> order_book \<Rightarrow> order_book" where
  "push_stp_event e b = b\<lparr>b_stp := (b_stp b)\<lparr>stp_events := stp_events (b_stp b) @ [e]\<rparr>\<rparr>"

definition push_stp_update :: "md_incremental \<Rightarrow> order_book \<Rightarrow> order_book" where
  "push_stp_update u b = b\<lparr>b_stp := (b_stp b)\<lparr>stp_updates := stp_updates (b_stp b) @ [u]\<rparr>\<rparr>"

text \<open>
  One round of the loop over \<^verbatim>\<open>[(older, old_left), (newer, new_left)]\<close> of \<^verbatim>\<open>match_orders\<close>:
  the order is cut to \<open>left\<close>; the incremental update is sent at the order's own price.
\<close>

definition stp_cut ::
  "stp_mode \<Rightarrow> string \<Rightarrow> string \<Rightarrow> nat \<Rightarrow> order \<Rightarrow> nat \<Rightarrow> order_book \<Rightarrow> order \<times> order_book" where
  "stp_cut mode old_id new_id nfills ord left b =
     (let cut = sub_u32 (o_quantity ord) left in
      if cut = 0 then (ord, b)
      else
        (let before = visible b ord;
             vis = min before left;
             ord' = ord\<lparr>o_quantity := left\<rparr>;
             b1 = (if before > vis
                   then push_stp_update
                          (generate_incremental_update b CancelOrder (o_price ord')
                             (sub_u32 before vis) (o_side ord')) b
                   else b);
             b2 = sync_visible_fill ord' 0 vis b1
         in (ord', push_stp_event
               \<lparr>e_opposing_order = (if o_order_id ord' = old_id then new_id else old_id),
                e_order_id = o_order_id ord',
                e_action = (if left = 0 then Canceled else Restated cut),
                e_mode = mode, e_before_fill = nfills\<rparr> b2)))"

section \<open>Passive matching\<close>

type_synonym match_state = "order_book \<times> execution_report list \<times> md_incremental list"

definition crossed :: "order_book \<Rightarrow> bool" where
  "crossed b =
     (case (best_price Buy (b_buy_orders b), best_price Sell (b_sell_orders b)) of
        (Some bid_price, Some ask_price) \<Rightarrow> ask_price \<le> bid_price
      | _ \<Rightarrow> False)"

definition match_stp :: "order \<Rightarrow> order \<Rightarrow> bool \<Rightarrow> nat \<Rightarrow> order_book \<Rightarrow> order_book" where
  "match_stp bid ask bid_newer nfills b =
     (let (newer, older) = (if bid_newer then (bid, ask) else (ask, bid));
          mode = stp_mode (o_stp newer);
          (new_left, old_left) = stp_left mode (o_quantity newer) (o_quantity older);
          old_id = o_order_id older;
          new_id = o_order_id newer;
          (older', b1) = stp_cut mode old_id new_id nfills older old_left b;
          (newer', b2) = stp_cut mode old_id new_id nfills newer new_left b1;
          (bid', ask') = (if bid_newer then (newer', older') else (older', newer'))
      in requeue ask' False (requeue bid' False b2))"

definition log_refresh :: "nat \<Rightarrow> string \<Rightarrow> nat \<Rightarrow> order_book \<Rightarrow> order_book" where
  "log_refresh n oid vis b =
     (case b_refresh_log b of
        None \<Rightarrow> b
      | Some log \<Rightarrow> b\<lparr>b_refresh_log := Some (log @ [(n, oid, vis)])\<rparr>)"

definition match_fill ::
  "int \<Rightarrow> int \<Rightarrow> order \<Rightarrow> order \<Rightarrow> bool \<Rightarrow> match_state \<Rightarrow> match_state" where
  "match_fill bid_price ask_price bid ask bid_newer = (\<lambda>(b, fills, updates).
     (let bid_visible = visible b bid;
          ask_visible = visible b ask;
          quantity = min bid_visible ask_visible;
          bid' = bid\<lparr>o_quantity := sub_u32 (o_quantity bid) quantity\<rparr>;
          ask' = ask\<lparr>o_quantity := sub_u32 (o_quantity ask) quantity\<rparr>;
          b1 = sync_visible_fill bid' quantity (sub_u32 bid_visible quantity) b;
          b2 = sync_visible_fill ask' quantity (sub_u32 ask_visible quantity) b1;
          fills' = fills @
            [\<lparr>x_buy_order_id = o_order_id bid', x_sell_order_id = o_order_id ask',
              x_trade_price = (if bid_newer then ask_price else bid_price),
              x_trade_quantity = quantity,
              x_aggressor_side = (if bid_newer then Buy else Sell),
              x_buy_fully_filled = (o_quantity bid' = 0),
              x_sell_fully_filled = (o_quantity ask' = 0)\<rparr>];
          updates1 = updates @
            [generate_incremental_update b2 ModifyOrder (o_price bid') quantity (o_side bid'),
             generate_incremental_update b2 ModifyOrder (o_price ask') quantity (o_side ask')];
          (b3, bid_refresh) = replenish bid' b2;
          (b4, ask_refresh) = replenish ask' b3;
          b5 = (if bid_refresh \<noteq> None
                then log_refresh (length fills' - 1) (o_order_id bid') (visible b4 bid') b4 else b4);
          b6 = (if ask_refresh \<noteq> None
                then log_refresh (length fills' - 1) (o_order_id ask') (visible b5 ask') b5 else b5);
          updates2 = updates1 @ (case bid_refresh of None \<Rightarrow> [] | Some u \<Rightarrow> [u])
                              @ (case ask_refresh of None \<Rightarrow> [] | Some u \<Rightarrow> [u]);
          b7 = requeue bid' (bid_refresh \<noteq> None) b6;
          b8 = requeue ask' (ask_refresh \<noteq> None) b7
      in (b8, fills', updates2)))"

text \<open>Which of the two orders is the newer one: the aggressor, or the later arrival.\<close>

definition is_bid_newer :: "string option \<Rightarrow> order \<Rightarrow> order \<Rightarrow> order_book \<Rightarrow> bool option" where
  "is_bid_newer aggressor bid ask b =
     (if aggressor = Some (o_order_id bid) then Some True
      else if aggressor = Some (o_order_id ask) then Some False
      else do {
        x \<leftarrow> map_of (b_arrival b) (o_order_id bid);
        y \<leftarrow> map_of (b_arrival b) (o_order_id ask);
        Some (x > y)
      })"

definition match_step :: "string option \<Rightarrow> match_state \<Rightarrow> match_state option" where
  "match_step aggressor = (\<lambda>(b, fills, updates). do {
     bid_price \<leftarrow> best_price Buy (b_buy_orders b);
     ask_price \<leftarrow> best_price Sell (b_sell_orders b);
     let (bid_opt, b1) = pop_best Buy b;
     bid \<leftarrow> bid_opt;
     let (ask_opt, b2) = pop_best Sell b1;
     ask \<leftarrow> ask_opt;
     bid_newer \<leftarrow> is_bid_newer aggressor bid ask b2;
     if (if bid_newer then self_match bid ask else self_match ask bid)
     then Some (match_stp bid ask bid_newer (length fills) b2, fills, updates)
     else Some (match_fill bid_price ask_price bid ask bid_newer (b2, fills, updates))
   })"

definition match_orders ::
  "order_book \<Rightarrow> (order_book \<times> execution_report list \<times> md_incremental list) option" where
  "match_orders b =
     (let b1 = b\<lparr>b_stp := stp_outcome_default\<rparr>
      in loop_while (\<lambda>(b, _). crossed b) (match_step (b_last_added b1)) (b1, [], []))"

section \<open>Aggressive orders\<close>

record sweep =
  sw_remaining :: nat
  sw_fills :: "execution_report list"
  sw_fill_updates :: "md_incremental list"
  sw_stopped :: bool

record aggressive_result =
  ag_fills :: "execution_report list"
  ag_fill_updates :: "md_incremental list"
  ag_unfilled_qty :: nat
  ag_rest_on_book :: bool
  ag_stp_canceled :: bool

definition sweep_new :: "order \<Rightarrow> sweep" where
  "sweep_new ord =
     \<lparr>sw_remaining = o_quantity ord, sw_fills = [], sw_fill_updates = [], sw_stopped = False\<rparr>"

definition sweep_live :: "sweep \<Rightarrow> bool" where
  "sweep_live sw \<longleftrightarrow> sw_remaining sw > 0 \<and> \<not> sw_stopped sw"

definition sweep_finish :: "sweep \<Rightarrow> aggressive_result" where
  "sweep_finish sw =
     \<lparr>ag_fills = sw_fills sw, ag_fill_updates = sw_fill_updates sw,
      ag_unfilled_qty = (if sw_stopped sw then 0 else sw_remaining sw),
      ag_rest_on_book = False, ag_stp_canceled = sw_stopped sw\<rparr>"

fun opposite :: "order_side \<Rightarrow> order_side" where
  "opposite Buy = Sell"
| "opposite Sell = Buy"

type_synonym level_state = "order_book \<times> order list \<times> sweep"

text \<open>One turn of the loop of \<^verbatim>\<open>fill_level\<close>: a self-match, or a fill.\<close>

definition level_stp :: "order \<Rightarrow> int \<Rightarrow> order \<Rightarrow> level_state \<Rightarrow> level_state" where
  "level_stp aggressor price tp = (\<lambda>(b, level, sw).
     (let vis = visible b tp;
          mode = stp_mode (o_stp aggressor);
          before_fill = length (sw_fills sw);
          (aggr_left, top_left) = stp_left mode (sw_remaining sw) (o_quantity tp);
          cut = sub_u32 (o_quantity tp) top_left;
          (tp', b1) =
            (if cut > 0 then
               (let tp' = tp\<lparr>o_quantity := top_left\<rparr>;
                    left_visible = min vis top_left;
                    c1 = (if vis > left_visible
                          then push_stp_update
                                 (generate_incremental_update b CancelOrder price
                                    (sub_u32 vis left_visible) (o_side tp')) b
                          else b);
                    c2 = sync_visible_fill tp' 0 left_visible c1
                in (tp', push_stp_event
                      \<lparr>e_opposing_order = o_order_id aggressor, e_order_id = o_order_id tp',
                       e_action = (if top_left = 0 then Canceled else Restated cut),
                       e_mode = mode, e_before_fill = before_fill\<rparr> c2))
             else (tp, b));
          aggr_cut = sub_u32 (sw_remaining sw) aggr_left;
          (sw', b2) =
            (if aggr_left = 0 then
               (sw\<lparr>sw_stopped := True\<rparr>,
                push_stp_event
                  \<lparr>e_opposing_order = o_order_id tp', e_order_id = o_order_id aggressor,
                   e_action = Canceled, e_mode = mode, e_before_fill = before_fill\<rparr> b1)
             else if aggr_cut > 0 then
               (sw\<lparr>sw_remaining := aggr_left\<rparr>,
                push_stp_event
                  \<lparr>e_opposing_order = o_order_id tp', e_order_id = o_order_id aggressor,
                   e_action = Restated aggr_cut, e_mode = mode, e_before_fill = before_fill\<rparr> b1)
             else (sw, b1))
      in (b2, if o_quantity tp' > 0 then tp' # level else level, sw')))"

definition level_fill :: "order \<Rightarrow> int \<Rightarrow> order \<Rightarrow> level_state \<Rightarrow> level_state" where
  "level_fill aggressor price tp = (\<lambda>(b, level, sw).
     (let vis = visible b tp;
          quantity = min vis (sw_remaining sw);
          tp' = tp\<lparr>o_quantity := sub_u32 (o_quantity tp) quantity\<rparr>;
          remaining = sub_u32 (sw_remaining sw) quantity;
          b1 = sync_visible_fill tp' quantity (sub_u32 vis quantity) b;
          (buy_id, sell_id, buy_done, sell_done) =
            (case o_side aggressor of
               Buy \<Rightarrow> (o_order_id aggressor, o_order_id tp', remaining = 0, o_quantity tp' = 0)
             | Sell \<Rightarrow> (o_order_id tp', o_order_id aggressor, o_quantity tp' = 0, remaining = 0));
          fills = sw_fills sw @
            [\<lparr>x_buy_order_id = buy_id, x_sell_order_id = sell_id, x_trade_price = price,
              x_trade_quantity = quantity, x_aggressor_side = o_side aggressor,
              x_buy_fully_filled = buy_done, x_sell_fully_filled = sell_done\<rparr>];
          updates = sw_fill_updates sw @
            [generate_incremental_update b1 ModifyOrder price quantity (o_side tp')];
          (b2, refresh) = replenish tp' b1;
          sw' = sw\<lparr>sw_remaining := remaining, sw_fills := fills\<rparr>
      in case refresh of
           Some md \<Rightarrow>
             (log_refresh (length fills - 1) (o_order_id tp') (visible b2 tp') b2,
              level @ [tp'], sw'\<lparr>sw_fill_updates := updates @ [md]\<rparr>)
         | None \<Rightarrow>
             (b2, if o_quantity tp' > 0 then tp' # level else level,
              sw'\<lparr>sw_fill_updates := updates\<rparr>)))"

fun level_step :: "order \<Rightarrow> int \<Rightarrow> level_state \<Rightarrow> level_state option" where
  "level_step aggressor price (b, [], sw) = None"
| "level_step aggressor price (b, tp # level, sw) =
     Some (if self_match aggressor tp then level_stp aggressor price tp (b, level, sw)
           else level_fill aggressor price tp (b, level, sw))"

definition fill_level :: "order \<Rightarrow> int \<Rightarrow> order_book \<times> sweep \<Rightarrow> (order_book \<times> sweep) option" where
  "fill_level aggressor price = (\<lambda>(b, sw). do {
     let sd = opposite (o_side aggressor);
     let level = level_of (side_levels sd b) price;
     let b1 = set_levels sd (bt_remove price (side_levels sd b)) b;
     (b2, level', sw') \<leftarrow>
       loop_while (\<lambda>(_, level, sw). sweep_live sw \<and> level \<noteq> []) (level_step aggressor price) (b1, level, sw);
     Some (if level' \<noteq> [] then set_levels sd (bt_insert price level' (side_levels sd b2)) b2 else b2, sw')
   })"

text \<open>The two sweeps: \<^verbatim>\<open>execute_market\<close> takes any price, \<^verbatim>\<open>execute_ioc\<close> prices inside the limit.\<close>

definition best_opposite :: "order \<Rightarrow> order_book \<Rightarrow> int option" where
  "best_opposite ord b = best_price (opposite (o_side ord)) (side_levels (opposite (o_side ord)) b)"

fun crosses_limit :: "order_side \<Rightarrow> int \<Rightarrow> int \<Rightarrow> bool" where
  "crosses_limit Buy limit price = (price \<le> limit)"
| "crosses_limit Sell limit price = (price \<ge> limit)"

definition sweep_step :: "order \<Rightarrow> order_book \<times> sweep \<Rightarrow> (order_book \<times> sweep) option" where
  "sweep_step ord = (\<lambda>(b, sw). do { price \<leftarrow> best_opposite ord b; fill_level ord price (b, sw) })"

definition execute_market :: "order \<Rightarrow> order_book \<Rightarrow> (order_book \<times> aggressive_result) option" where
  "execute_market ord b = do {
     (b', sw) \<leftarrow> loop_while (\<lambda>(b, sw). sweep_live sw \<and> best_opposite ord b \<noteq> None)
                  (sweep_step ord) (b, sweep_new ord);
     Some (b', sweep_finish sw)
   }"

definition execute_ioc :: "order \<Rightarrow> order_book \<Rightarrow> (order_book \<times> aggressive_result) option" where
  "execute_ioc ord b = do {
     (b', sw) \<leftarrow> loop_while
        (\<lambda>(b, sw). sweep_live sw \<and>
           (case best_opposite ord b of
              None \<Rightarrow> False
            | Some price \<Rightarrow> crosses_limit (o_side ord) (o_price ord) price))
        (sweep_step ord) (b, sweep_new ord);
     Some (b', sweep_finish sw)
   }"

definition crossing_orders :: "order \<Rightarrow> order_book \<Rightarrow> order list" where
  "crossing_orders ord b =
     (case o_side ord of
        Buy \<Rightarrow> concat (map snd (filter (\<lambda>e. fst e \<le> o_price ord) (b_sell_orders b)))
      | Sell \<Rightarrow> concat (map snd (rev (filter (\<lambda>e. fst e \<ge> o_price ord) (b_buy_orders b)))))"

fun fok_queue :: "order \<Rightarrow> nat \<Rightarrow> bool \<Rightarrow> nat \<Rightarrow> (order \<times> nat \<times> nat) list \<Rightarrow> nat \<times> string option" where
  "fok_queue ord want has_self available [] = (available, None)"
| "fok_queue ord want has_self available ((resting, tot, vis) # rest) =
     (if available \<ge> want then (available, None)
      else if self_match ord resting then (available, Some (o_order_id resting))
      else fok_queue ord want has_self (available + (if has_self then vis else tot)) rest)"

function fok_scan :: "order \<Rightarrow> order_book \<Rightarrow> nat \<Rightarrow> nat \<Rightarrow> order list \<Rightarrow> nat \<times> string option" where
  "fok_scan ord b want available crossing =
     (if available < want then
        (case crossing of
           [] \<Rightarrow> (available, None)
         | first # rest \<Rightarrow>
             (let level = takeWhile (\<lambda>x. o_price x = o_price first) (first # rest);
                  has_self = (\<exists>r \<in> set level. self_match ord r)
              in case fok_queue ord want has_self available
                        (map (\<lambda>x. (x, o_quantity x, visible b x)) level) of
                   (available', Some oid) \<Rightarrow> (available', Some oid)
                 | (available', None) \<Rightarrow>
                     fok_scan ord b want available'
                       (dropWhile (\<lambda>x. o_price x = o_price first) (first # rest))))
      else (available, None))"
  by pat_completeness auto
termination
  by (relation "measure (\<lambda>(_, _, _, _, crossing). length crossing)")
    (auto simp: less_Suc_eq_le length_dropWhile_le)

declare fok_scan.simps [simp del]

definition execute_fok :: "order \<Rightarrow> order_book \<Rightarrow> (order_book \<times> aggressive_result) option" where
  "execute_fok ord b =
     (let want = o_quantity ord in
      case fok_scan ord b want 0 (crossing_orders ord b) of
        (_, Some opposing_order) \<Rightarrow>
          Some (push_stp_event
                  \<lparr>e_opposing_order = opposing_order, e_order_id = o_order_id ord,
                   e_action = Canceled, e_mode = stp_mode (o_stp ord), e_before_fill = 0\<rparr> b,
                \<lparr>ag_fills = [], ag_fill_updates = [], ag_unfilled_qty = 0,
                 ag_rest_on_book = False, ag_stp_canceled = True\<rparr>)
      | (available, None) \<Rightarrow>
          if available < want
          then Some (b, \<lparr>ag_fills = [], ag_fill_updates = [], ag_unfilled_qty = o_quantity ord,
                         ag_rest_on_book = False, ag_stp_canceled = False\<rparr>)
          else do {
            (b', res) \<leftarrow> execute_ioc ord b;
            Some (b', res\<lparr>ag_rest_on_book := False\<rparr>)
          })"

definition rest_result :: "order \<Rightarrow> aggressive_result" where
  "rest_result ord =
     \<lparr>ag_fills = [], ag_fill_updates = [], ag_unfilled_qty = o_quantity ord,
      ag_rest_on_book = True, ag_stp_canceled = False\<rparr>"

text \<open>A triggered stop-limit order is dispatched again as a limit order.\<close>

definition process_limit :: "order \<Rightarrow> order_book \<Rightarrow> (order_book \<times> aggressive_result) option" where
  "process_limit ord b =
     (case o_time_in_force ord of
        IOC \<Rightarrow> execute_ioc ord b
      | FOK \<Rightarrow> execute_fok ord b
      | Day \<Rightarrow> Some (b, rest_result ord)
      | GTC \<Rightarrow> Some (b, rest_result ord)
      | Gtd \<Rightarrow> Some (b, rest_result ord)
      | AtOpen \<Rightarrow> Some (b, rest_result ord)
      | AtClose \<Rightarrow> Some (b, rest_result ord))"

definition process_aggressive :: "order \<Rightarrow> order_book \<Rightarrow> (order_book \<times> aggressive_result) option" where
  "process_aggressive ord b =
     (case o_order_type ord of
        Market \<Rightarrow> execute_market ord b
      | Limit \<Rightarrow> process_limit ord b
      | Stop \<Rightarrow> execute_market ord b
      | StopLimit \<Rightarrow> process_limit (ord\<lparr>o_order_type := Limit\<rparr>) b)"

section \<open>Stop triggers\<close>

definition fires :: "int \<Rightarrow> order \<Rightarrow> bool" where
  "fires last_trade_price ord =
     (case o_side ord of
        Buy \<Rightarrow> last_trade_price \<ge> o_stop_price ord
      | Sell \<Rightarrow> last_trade_price \<le> o_stop_price ord)"

text \<open>\<^verbatim>\<open>sort_by_key\<close> is a stable sort; \<^verbatim>\<open>Reverse\<close> turns the order around.\<close>

definition drain_triggered_stops :: "order list \<Rightarrow> int \<Rightarrow> order list \<times> order list" where
  "drain_triggered_stops stop_book last_trade_price =
     (let triggered = filter (fires last_trade_price) stop_book;
          remaining = filter (\<lambda>x. \<not> fires last_trade_price x) stop_book
      in (sort_key (\<lambda>x. - \<bar>o_stop_price x - last_trade_price\<bar>) triggered, remaining))"

end
