(* ===== verification/Fxp_Accounting.thy ===== *)
theory Fxp_Accounting
  imports Fxp_Matcher
begin

text \<open>
  What a fill or a self-trade cut of an order in flight does to the book: which indexes it
  touches, when the order may go back to the queue, and how quantities, fill counters and
  fills add up. Passive matching and the sweep of an aggressive order both build on it.
\<close>

section \<open>Local changes\<close>

text \<open>\<open>only oid b b'\<close>: nothing but the indexes of the order \<open>oid\<close> changed.\<close>

definition only :: "string \<Rightarrow> order_book \<Rightarrow> order_book \<Rightarrow> bool" where
  "only oid b b' \<longleftrightarrow>
     (\<forall>sd. side_levels sd b' = side_levels sd b) \<and>
     (\<forall>k. k \<noteq> oid \<longrightarrow>
        map_of (b_order_lookup b') k = map_of (b_order_lookup b) k \<and>
        map_of (b_cum_filled b') k = map_of (b_cum_filled b) k \<and>
        map_of (b_arrival b') k = map_of (b_arrival b) k \<and>
        map_of (b_displayed b') k = map_of (b_displayed b) k)"

lemma only_trans: "only oid b c \<Longrightarrow> only oid c d \<Longrightarrow> only oid b d"
  by (simp add: only_def)

lemma only_sync: "only (o_order_id x) b (sync_visible_fill x t v b)"
proof -
  have "\<forall>sd. side_levels sd (sync_visible_fill x t v b) = side_levels sd b" by simp
  moreover have "\<forall>k. k \<noteq> o_order_id x \<longrightarrow>
        map_of (b_order_lookup (sync_visible_fill x t v b)) k = map_of (b_order_lookup b) k \<and>
        map_of (b_cum_filled (sync_visible_fill x t v b)) k = map_of (b_cum_filled b) k \<and>
        map_of (b_arrival (sync_visible_fill x t v b)) k = map_of (b_arrival b) k \<and>
        map_of (b_displayed (sync_visible_fill x t v b)) k = map_of (b_displayed b) k"
    by (simp add: sync_visible_fill_def sync_fill_def Let_def split: option.split)
  ultimately show ?thesis by (simp only: only_def simp_thms)
qed

lemma only_replenish: "only (o_order_id x) b (fst (replenish x b))"
  by (simp add: only_def) (simp add: replenish_def Let_def)

text \<open>The parts of the book that neither the levels nor the indexes see.\<close>

definition same_book :: "order_book \<Rightarrow> order_book \<Rightarrow> bool" where
  "same_book b b' \<longleftrightarrow>
     b_buy_orders b' = b_buy_orders b \<and> b_sell_orders b' = b_sell_orders b \<and>
     b_order_lookup b' = b_order_lookup b \<and> b_cum_filled b' = b_cum_filled b \<and>
     b_arrival b' = b_arrival b \<and> b_next_arrival b' = b_next_arrival b \<and> b_displayed b' = b_displayed b"

lemma same_book_log [simp]: "same_book b (log_refresh n oid v b)"
  by (simp add: same_book_def log_refresh_def split: option.split)

lemma same_book_push [simp]: "same_book b (push_stp_event e b)" "same_book b (push_stp_update u b)"
  by (simp_all add: same_book_def push_stp_event_def push_stp_update_def)

lemma same_book_refl [simp]: "same_book b b"
  by (simp add: same_book_def)

lemma same_book_stp [simp]: "same_book b (b\<lparr>b_stp := s\<rparr>)"
  by (simp add: same_book_def)

lemma same_book_trans: "same_book b c \<Longrightarrow> same_book c d \<Longrightarrow> same_book b d"
  by (simp add: same_book_def)

lemma same_book_simps:
  assumes "same_book b b'"
  shows "wf_with b' = wf_with b" "head_ok b' = head_ok b" "queue sd b' = queue sd b"
    "side_levels sd b' = side_levels sd b" "vis_ok b' = vis_ok b" "visible b' = visible b"
    "arr_of b' = arr_of b" "cum_of b' = cum_of b" "qty_of b' = qty_of b"
    "b_order_lookup b' = b_order_lookup b" "replenish x b = (b2, u) \<Longrightarrow> only (o_order_id x) b' b2"
proof -
  note eq = assms [unfolded same_book_def]
  have *: "b_buy_orders b' = b_buy_orders b" "b_sell_orders b' = b_sell_orders b"
    "b_order_lookup b' = b_order_lookup b" "b_cum_filled b' = b_cum_filled b"
    "b_arrival b' = b_arrival b" "b_next_arrival b' = b_next_arrival b" "b_displayed b' = b_displayed b"
    using eq by simp_all
  show "wf_with b' = wf_with b" "head_ok b' = head_ok b" "queue sd b' = queue sd b"
    by (rule wf_frame [OF *])+
  show "vis_ok b' = vis_ok b" "visible b' = visible b" "arr_of b' = arr_of b" "cum_of b' = cum_of b"
    "qty_of b' = qty_of b"
    by (rule index_frame [OF *(3-7)])+
  show sl: "side_levels sd b' = side_levels sd b" for sd using * by (cases sd) simp_all
  show "b_order_lookup b' = b_order_lookup b" by (rule *)
  show "only (o_order_id x) b' b2" if "replenish x b = (b2, u)"
    using only_replenish [of x b] that * sl by (simp add: only_def)
qed

section \<open>Orders in flight\<close>

text \<open>An order that may be put back, to the rear or to the head of its side.\<close>

definition ready :: "bool \<Rightarrow> order_book \<Rightarrow> order \<Rightarrow> bool" where
  "ready rear b x \<longleftrightarrow>
     vis_ok b x \<and>
     (if rear then (\<forall>y \<in> set (queue (o_side x) b). arr_of b y < arr_of b x) else head_ok b x)"

definition alive :: "order \<Rightarrow> order list" where
  "alive x = (if o_quantity x = 0 then [] else [x])"

lemma wf_perm: "mset xs = mset ys \<Longrightarrow> wf_with b xs = wf_with b ys"
proof -
  assume ms: "mset xs = mset ys"
  have "mset (map o_order_id (roster b xs)) = mset (map o_order_id (roster b ys))"
    using ms by (simp add: roster_def)
  then have "distinct (map o_order_id (roster b xs)) = distinct (map o_order_id (roster b ys))"
    by (rule mset_eq_imp_distinct_iff)
  moreover have "set (roster b xs) = set (roster b ys)"
    using mset_eq_setD [OF ms] by (simp add: roster_def)
  ultimately show ?thesis by (simp add: wf_with_def)
qed

lemma wf_requeue:
  assumes wf: "wf_with b (alive x @ xs)" and ready: "0 < o_quantity x \<Longrightarrow> ready rear b x"
  shows "wf_with (requeue x rear b) xs"
proof (cases "o_quantity x = 0")
  case True
  with wf show ?thesis by (simp add: alive_def requeue_def)
next
  case False
  with wf ready show ?thesis
    using wf_requeue_front(1) [of b x xs] wf_requeue_rear [of b x xs]
    by (cases rear) (simp_all add: alive_def ready_def)
qed

lemma requeue_frame [simp]:
  "b_order_lookup (requeue x rear b) = b_order_lookup b"
  "b_cum_filled (requeue x rear b) = b_cum_filled b"
  "b_arrival (requeue x rear b) = b_arrival b"
  "b_next_arrival (requeue x rear b) = b_next_arrival b"
  "b_displayed (requeue x rear b) = b_displayed b"
  "b_last_added (requeue x rear b) = b_last_added b"
  "b_stp (requeue x rear b) = b_stp b"
  by (simp_all add: requeue_def)

lemmas requeue_index [simp] = index_frame [OF requeue_frame(1-5)]

lemma queue_requeue_other: "sd \<noteq> o_side x \<Longrightarrow> queue sd (requeue x rear b) = queue sd b"
  by (simp add: requeue_def)

lemma ready_requeue_other: "o_side y \<noteq> o_side x \<Longrightarrow> ready r (requeue x rear b) y = ready r b y"
  by (simp add: ready_def head_ok_def queue_requeue_other)

lemma only_other:
  assumes "only oid b b'" and "o_order_id y \<noteq> oid"
  shows "vis_ok b' y = vis_ok b y" "visible b' y = visible b y" "arr_of b' y = arr_of b y"
  using assms by (simp_all add: only_def vis_ok_def visible_def arr_of_def)

lemma only_queue: "only oid b b' \<Longrightarrow> queue sd b' = queue sd b"
  by (simp add: only_def queue_def)

lemma ready_other:
  assumes only: "only oid b b'" and y: "o_order_id y \<noteq> oid"
    and q: "\<And>z. z \<in> set (queue (o_side y) b) \<Longrightarrow> o_order_id z \<noteq> oid"
  shows "ready r b' y = ready r b y"
  using only_other [OF only] q y by (simp add: ready_def head_ok_def only_queue [OF only])

lemma ready_same: "same_book b b' \<Longrightarrow> ready r b' = ready r b"
  by (simp add: ready_def fun_eq_iff same_book_simps)

lemma wf_sync_alive:
  "wf_with b (x # xs) \<Longrightarrow> q + t \<le> o_quantity x \<Longrightarrow>
   wf_with (sync_visible_fill (x\<lparr>o_quantity := q\<rparr>) t v b) (alive (x\<lparr>o_quantity := q\<rparr>) @ xs)"
  using wf_sync [of b x xs q t v] by (simp add: alive_def split: if_splits)

lemma wf_replenish_alive:
  "wf_with b (alive x @ xs) \<Longrightarrow> wf_with (fst (replenish x b)) (alive x @ xs)"
  using wf_replenish [of b x xs] by (auto simp: alive_def replenish_def)

lemma vis_sync:
  assumes wf: "wf_with b (x # xs)" and x': "x' = x\<lparr>o_quantity := q\<rparr>"
    and v: "0 < v" "v \<le> q" "o_display_quantity x = 0 \<Longrightarrow> v = q"
  shows "vis_ok (sync_visible_fill x' t v b) x'" and "arr_of (sync_visible_fill x' t v b) x' = arr_of b x"
proof -
  have xin: "x \<in> set (roster b (x # xs))" by (simp add: roster_def)
  have look: "map_of (b_order_lookup b) (o_order_id x') = Some x"
    using wf_lookup [OF wf] xin x' by simp
  have arr: "map_of (b_arrival b) (o_order_id x') = Some (arr_of b x)"
    using wf_arrival_some [OF wf xin] x' by simp
  note maps = sync_visible_fill_maps [OF look arr, of t v]
  show "vis_ok (sync_visible_fill x' t v b) x'" using maps(4) v x' by (simp add: vis_ok_def)
  show "arr_of (sync_visible_fill x' t v b) x' = arr_of b x" using maps(3) v x' by (simp add: arr_of_def)
qed

lemma vis_visible:
  "vis_ok b x \<Longrightarrow> 0 < visible b x \<and> visible b x \<le> o_quantity x \<and>
     (o_display_quantity x = 0 \<longrightarrow> visible b x = o_quantity x)"
  by (auto simp: vis_ok_def visible_def)

text \<open>An order that keeps a visible part also keeps its place at the head.\<close>

lemma ready_keep:
  assumes wf: "wf_with b (x # xs)" and ready: "ready False b x" and only: "only (o_order_id x) b b'"
    and x': "x' = x\<lparr>o_quantity := q\<rparr>" and vis: "vis_ok b' x'" and arr: "arr_of b' x' = arr_of b x"
  shows "ready False b' x'"
proof -
  have "arr_of b' y = arr_of b y" if "y \<in> set (queue (o_side x) b)" for y
    using only_other(3) [OF only, of y] wf_inflight_fresh [OF wf, of y "o_side x"] that by simp
  moreover have "ahead sd y x' = ahead sd y x" for sd y by (cases sd) (simp_all add: x')
  ultimately show ?thesis
    using ready vis arr by (simp add: ready_def head_ok_def only_queue [OF only] x')
qed

lemma ready_sync:
  assumes wf: "wf_with b (x # xs)" and ready: "ready False b x"
    and x': "x' = x\<lparr>o_quantity := q\<rparr>" and b1: "b1 = sync_visible_fill x' t v b"
    and v: "0 < v" "v \<le> q" "o_display_quantity x = 0 \<Longrightarrow> v = q"
  shows "ready False b1 x'"
  using ready_keep [OF wf ready _ x'] only_sync [of x' b t v] vis_sync [OF wf x' v]
  by (simp add: x' b1)

lemma ready_visible:
  "ready r b x \<Longrightarrow> 0 < visible b x \<and> visible b x \<le> o_quantity x \<and>
     (o_display_quantity x = 0 \<longrightarrow> visible b x = o_quantity x)"
  by (auto simp: ready_def vis_ok_def visible_def)

text \<open>After a fill an order goes back to the head, or it is replenished and goes to the rear.\<close>

lemma ready_after_fill:
  assumes wf: "wf_with b (x # xs)" and ready: "ready False b x" and t: "t \<le> visible b x"
    and x': "x' = x\<lparr>o_quantity := o_quantity x - t\<rparr>"
    and b1: "b1 = sync_visible_fill x' t (visible b x - t) b"
    and only: "only k b1 c" "k \<noteq> o_order_id x" "\<And>z. z \<in> set (queue (o_side x) b) \<Longrightarrow> o_order_id z \<noteq> k"
    and wfc: "wf_with c (alive x' @ ys)" and pos: "0 < o_quantity x'"
  shows "ready (snd (replenish x' c) \<noteq> None) (fst (replenish x' c)) x'"
proof (cases "snd (replenish x' c) = None")
  case True
  have "visible c x' = visible b1 x'" using only_other(2) [OF only(1), of x'] only(2) x' by simp
  also have "\<dots> = visible b x - t" using visible_sync [of x'] pos by (simp add: b1)
  finally have "0 < visible b x - t \<or> o_display_quantity x = 0"
    using True pos x' by (auto simp: replenish_def Let_def split: if_splits)
  with ready_visible [OF ready] t pos x' have "ready False b1 x'"
    by (intro ready_sync [OF wf ready x' b1]) auto
  moreover have "ready False c x' = ready False b1 x'"
    using only by (intro ready_other [OF only(1)]) (auto simp: x' b1)
  ultimately show ?thesis using True by (simp add: replenish_None)
next
  case False
  from wfc pos have "wf_with c (x' # ys)" by (simp add: alive_def)
  from replenish_Some [OF this False] False show ?thesis by (simp add: ready_def)
qed

section \<open>Accounting\<close>

text \<open>The quantity that a list of fills trades for an order.\<close>

definition traded :: "execution_report list \<Rightarrow> string \<Rightarrow> nat" where
  "traded fills oid =
     (\<Sum>f \<leftarrow> fills. if oid \<in> {x_buy_order_id f, x_sell_order_id f} then x_trade_quantity f else 0)"

lemma traded_simps [simp]:
  "traded [] oid = 0"
  "traded (fills @ gills) oid = traded fills oid + traded gills oid"
  "traded [f] oid = (if oid = x_buy_order_id f \<or> oid = x_sell_order_id f then x_trade_quantity f else 0)"
  by (simp_all add: traded_def)

definition stp_ids :: "order_book \<Rightarrow> string set" where
  "stp_ids b = e_order_id ` set (stp_events (b_stp b))"

text \<open>
  How a book changes under fills: no order appears, an order changes only in its quantity,
  its fills are counted, and what is neither left nor traded was cut by self-trade
  prevention. Only resting orders and the aggressor, who is not in the book, trade.
\<close>

definition evolves :: "string set \<Rightarrow> order_book \<Rightarrow> order_book \<Rightarrow> execution_report list \<Rightarrow> bool" where
  "evolves A b b' fills \<longleftrightarrow>
     (\<forall>oid y. map_of (b_order_lookup b') oid = Some y \<longrightarrow>
        (\<exists>x. map_of (b_order_lookup b) oid = Some x \<and> y = x\<lparr>o_quantity := o_quantity y\<rparr>) \<and>
        cum_of b' oid = cum_of b oid + traded fills oid) \<and>
     (\<forall>oid x. map_of (b_order_lookup b) oid = Some x \<longrightarrow>
        qty_of b' oid + traded fills oid \<le> o_quantity x \<and>
        (oid \<notin> stp_ids b' \<longrightarrow> qty_of b' oid + traded fills oid = o_quantity x)) \<and>
     (\<forall>oid. map_of (b_order_lookup b) oid = None \<longrightarrow> oid \<notin> A \<longrightarrow> traded fills oid = 0) \<and>
     stp_ids b \<subseteq> stp_ids b'"

lemma qty_of_None: "map_of (b_order_lookup b) oid = None \<Longrightarrow> qty_of b oid = 0"
  by (simp add: qty_of_def)

lemma qty_of_Some: "map_of (b_order_lookup b) oid = Some x \<Longrightarrow> qty_of b oid = o_quantity x"
  by (simp add: qty_of_def)

lemma evolves_refl: "evolves A b b []"
  by (auto simp: evolves_def qty_of_def)

lemma evolves_same: "same_book b b' \<Longrightarrow> stp_ids b \<subseteq> stp_ids b' \<Longrightarrow> evolves A b b' []"
  by (auto simp: evolves_def qty_of_def same_book_def cum_of_def)

lemma evolves_trans:
  assumes e1: "evolves A b c f" and e2: "evolves A c d g"
    and A: "\<And>oid. oid \<in> A \<Longrightarrow> map_of (b_order_lookup b) oid = None"
  shows "evolves A b d (f @ g)"
  unfolding evolves_def
proof (intro conjI allI impI)
  fix oid y
  assume y: "map_of (b_order_lookup d) oid = Some y"
  from e2 y obtain x where x: "map_of (b_order_lookup c) oid = Some x" "y = x\<lparr>o_quantity := o_quantity y\<rparr>"
    and cx: "cum_of d oid = cum_of c oid + traded g oid"
    unfolding evolves_def by blast
  from e1 x(1) obtain w where w: "map_of (b_order_lookup b) oid = Some w" "x = w\<lparr>o_quantity := o_quantity x\<rparr>"
    and cw: "cum_of c oid = cum_of b oid + traded f oid"
    unfolding evolves_def by blast
  have "y = w\<lparr>o_quantity := o_quantity y\<rparr>"
    by (subst x(2), subst w(2)) simp
  with w show "\<exists>x. map_of (b_order_lookup b) oid = Some x \<and> y = x\<lparr>o_quantity := o_quantity y\<rparr>" by blast
  from cx cw show "cum_of d oid = cum_of b oid + traded (f @ g) oid" by simp
next
  fix oid x
  assume x: "map_of (b_order_lookup b) oid = Some x"
  with A have nA: "oid \<notin> A" by fastforce
  from e1 x have qx: "qty_of c oid + traded f oid \<le> o_quantity x"
    "oid \<notin> stp_ids c \<Longrightarrow> qty_of c oid + traded f oid = o_quantity x"
    unfolding evolves_def by blast+
  have sub: "stp_ids c \<subseteq> stp_ids d" using e2 by (simp add: evolves_def)
  have "qty_of d oid + traded g oid \<le> qty_of c oid \<and>
      (oid \<notin> stp_ids d \<longrightarrow> qty_of d oid + traded g oid = qty_of c oid)"
  proof (cases "map_of (b_order_lookup c) oid")
    case None
    with e2 nA have "traded g oid = 0" by (simp add: evolves_def)
    moreover from e2 None have "map_of (b_order_lookup d) oid = None"
      unfolding evolves_def by (metis option.exhaust option.distinct(1))
    ultimately show ?thesis using None by (simp add: qty_of_None)
  next
    case (Some y)
    with e2 show ?thesis by (simp add: evolves_def qty_of_Some [OF Some])
  qed
  moreover have "oid \<notin> stp_ids d \<Longrightarrow> oid \<notin> stp_ids c" using sub by blast
  ultimately show "qty_of d oid + traded (f @ g) oid \<le> o_quantity x"
    "oid \<notin> stp_ids d \<Longrightarrow> qty_of d oid + traded (f @ g) oid = o_quantity x"
    using qx by simp_all
next
  fix oid
  assume n: "map_of (b_order_lookup b) oid = None" and nA: "oid \<notin> A"
  with e1 have "map_of (b_order_lookup c) oid = None"
    unfolding evolves_def by (metis option.exhaust option.distinct(1))
  with n nA e1 e2 show "traded (f @ g) oid = 0" by (simp add: evolves_def)
next
  show "stp_ids b \<subseteq> stp_ids d" using e1 e2 by (auto simp: evolves_def)
qed

subsection \<open>The total quantity of a book\<close>

definition total_qty :: "order_book \<Rightarrow> nat" where
  "total_qty b = (\<Sum>oid \<in> dom (map_of (b_order_lookup b)). qty_of b oid)"

lemma total_qty_less:
  assumes le: "\<And>oid. qty_of b' oid \<le> qty_of b oid" and less: "qty_of b' k < qty_of b k"
  shows "total_qty b' < total_qty b"
proof -
  let ?D = "dom (map_of (b_order_lookup b)) \<union> dom (map_of (b_order_lookup b'))"
  have fin: "finite ?D" by (simp add: finite_dom_map_of)
  have "total_qty b' = (\<Sum>oid \<in> ?D. qty_of b' oid)"
    unfolding total_qty_def by (rule sum.mono_neutral_left [OF fin]) (auto simp: qty_of_def dom_def)
  moreover have "total_qty b = (\<Sum>oid \<in> ?D. qty_of b oid)"
    unfolding total_qty_def by (rule sum.mono_neutral_left [OF fin]) (auto simp: qty_of_def dom_def)
  moreover have "k \<in> ?D" using less by (auto simp: qty_of_def split: option.splits)
  ultimately show ?thesis
    using sum_strict_mono_ex1 [OF fin, of "qty_of b'" "qty_of b"] le less by auto
qed

text \<open>A fill or a cut of one order in flight, as a change of its book.\<close>

lemma evolves_sync:
  assumes wf: "wf_with b (x # xs)" and q: "q + t \<le> o_quantity x"
    and x': "x' = x\<lparr>o_quantity := q\<rparr>" and b': "b' = sync_visible_fill x' t v b"
  shows "map_of (b_order_lookup b') = (map_of (b_order_lookup b))(o_order_id x := if q = 0 then None else Some x')"
    and "qty_of b' = (qty_of b)(o_order_id x := q)"
    and "oid \<noteq> o_order_id x \<Longrightarrow> cum_of b' oid = cum_of b oid"
    and "0 < q \<Longrightarrow> cum_of b' (o_order_id x) = cum_of b (o_order_id x) + t"
    and "qty_of b (o_order_id x) = o_quantity x"
proof -
  have xin: "x \<in> set (roster b (x # xs))" by (simp add: roster_def)
  have look: "map_of (b_order_lookup b) (o_order_id x') = Some x"
    using wf_lookup [OF wf] xin by (simp add: x')
  have arr: "map_of (b_arrival b) (o_order_id x') = Some (arr_of b x)"
    using wf_arrival_some [OF wf xin] by (simp add: x')
  note maps = sync_visible_fill_maps [OF look arr, of t v, folded b']
  from maps(1) show lk: "map_of (b_order_lookup b') = (map_of (b_order_lookup b))(o_order_id x := if q = 0 then None else Some x')"
    by (simp add: x')
  then show "qty_of b' = (qty_of b)(o_order_id x := q)"
    by (auto simp: fun_eq_iff qty_of_def x')
  from maps(2) show "oid \<noteq> o_order_id x \<Longrightarrow> cum_of b' oid = cum_of b oid"
    by (simp add: cum_of_def x')
  show "cum_of b' (o_order_id x) = cum_of b (o_order_id x) + t" if "0 < q"
    using maps(2) that q wf_quantity [OF wf xin] by (simp add: cum_of_def x')
  from look show "qty_of b (o_order_id x) = o_quantity x" by (simp add: qty_of_def x')
qed

lemma evolves_cong:
  "b_order_lookup c = b_order_lookup b' \<Longrightarrow> b_cum_filled c = b_cum_filled b' \<Longrightarrow> b_stp c = b_stp b' \<Longrightarrow>
   evolves A b c f = evolves A b b' f"
  by (simp add: evolves_def qty_of_def cum_of_def stp_ids_def)

lemma evolves_fill2:
  assumes wf: "wf_with b (x # y # xs)" and t: "t \<le> o_quantity x" "t \<le> o_quantity y"
    and x': "x' = x\<lparr>o_quantity := o_quantity x - t\<rparr>" and y': "y' = y\<lparr>o_quantity := o_quantity y - t\<rparr>"
    and b1: "b1 = sync_visible_fill x' t v b" and b2: "b2 = sync_visible_fill y' t w b1"
    and f: "x_buy_order_id f = o_order_id x" "x_sell_order_id f = o_order_id y" "x_trade_quantity f = t"
  shows "evolves {} b b2 [f]"
    and "qty_of b2 = (qty_of b)(o_order_id x := o_quantity x - t, o_order_id y := o_quantity y - t)"
proof -
  have ne: "o_order_id y \<noteq> o_order_id x" using wf_inflight_fresh [OF wf, of y] by simp
  have xin: "x \<in> set (roster b (x # y # xs))" "y \<in> set (roster b (x # y # xs))"
    by (simp_all add: roster_def)
  have look: "map_of (b_order_lookup b) (o_order_id x) = Some x" "map_of (b_order_lookup b) (o_order_id y) = Some y"
    using wf_lookup [OF wf] xin by simp_all
  have wf1: "wf_with b1 (y # alive x' @ xs)"
    using wf_sync_alive [OF wf, of "o_quantity x - t" t v] t
    by (simp add: x' b1 wf_perm [of "alive x'' @ y # xs" "y # alive x'' @ xs" for x''])
  note e1 = evolves_sync [OF wf _ x' b1] and e2 = evolves_sync [OF wf1 _ y' b2]
  have stp: "stp_ids b2 = stp_ids b" by (simp add: stp_ids_def b2 b1)
  show q: "qty_of b2 = (qty_of b)(o_order_id x := o_quantity x - t, o_order_id y := o_quantity y - t)"
    using e1(2) e2(2) t by simp
  show "evolves {} b b2 [f]"
    unfolding evolves_def
  proof (intro conjI allI impI)
    fix oid z
    assume z: "map_of (b_order_lookup b2) oid = Some z"
    then show "\<exists>u. map_of (b_order_lookup b) oid = Some u \<and> z = u\<lparr>o_quantity := o_quantity z\<rparr>"
      using e1(1) e2(1) look t ne by (auto simp: x' y' split: if_splits)
    show "cum_of b2 oid = cum_of b oid + traded [f] oid"
      using z e1(1,3,4) e2(1,3,4) t ne by (auto simp: f split: if_splits)
  next
    fix oid z
    assume z: "map_of (b_order_lookup b) oid = Some z"
    then show "qty_of b2 oid + traded [f] oid \<le> o_quantity z"
      "oid \<notin> stp_ids b2 \<Longrightarrow> qty_of b2 oid + traded [f] oid = o_quantity z"
      using look t ne by (auto simp: q f qty_of_Some)
  next
    fix oid
    assume "map_of (b_order_lookup b) oid = None"
    then show "traded [f] oid = 0" using look by (auto simp: f)
  qed (simp add: stp)
qed

lemma evolves_fill1:
  assumes wf: "wf_with b (x # xs)" and t: "t \<le> o_quantity x"
    and x': "x' = x\<lparr>o_quantity := o_quantity x - t\<rparr>" and b1: "b1 = sync_visible_fill x' t v b"
    and f: "{x_buy_order_id f, x_sell_order_id f} = {o_order_id x, a}" "x_trade_quantity f = t"
    and a: "a \<in> A" "map_of (b_order_lookup b) a = None"
  shows "evolves A b b1 [f]" and "qty_of b1 = (qty_of b)(o_order_id x := o_quantity x - t)"
proof -
  have xin: "x \<in> set (roster b (x # xs))" by (simp add: roster_def)
  have look: "map_of (b_order_lookup b) (o_order_id x) = Some x"
    using wf_lookup [OF wf] xin by simp
  note e = evolves_sync [OF wf _ x' b1]
  have tr: "traded [f] oid = (if oid \<in> {o_order_id x, a} then t else 0)" for oid
    unfolding traded_def f(1) [symmetric] using f(2) by simp
  have stp: "stp_ids b1 = stp_ids b" by (simp add: stp_ids_def b1)
  show q: "qty_of b1 = (qty_of b)(o_order_id x := o_quantity x - t)"
    using e(2) t by simp
  show "evolves A b b1 [f]"
    unfolding evolves_def
  proof (intro conjI allI impI)
    fix oid z
    assume z: "map_of (b_order_lookup b1) oid = Some z"
    then show "\<exists>u. map_of (b_order_lookup b) oid = Some u \<and> z = u\<lparr>o_quantity := o_quantity z\<rparr>"
      using e(1) look t by (auto simp: x' split: if_splits)
    show "cum_of b1 oid = cum_of b oid + traded [f] oid"
      using z e(1,3,4) t a by (auto simp: tr simp del: traded_simps(3) split: if_splits)
  next
    fix oid z
    assume z: "map_of (b_order_lookup b) oid = Some z"
    then show "qty_of b1 oid + traded [f] oid \<le> o_quantity z"
      "oid \<notin> stp_ids b1 \<Longrightarrow> qty_of b1 oid + traded [f] oid = o_quantity z"
      using look t a by (auto simp: q tr qty_of_Some simp del: traded_simps(3))
  next
    fix oid
    assume "map_of (b_order_lookup b) oid = None" "oid \<notin> A"
    then show "traded [f] oid = 0" using look a by (auto simp: tr simp del: traded_simps(3))
  qed (simp add: stp)
qed

lemma evolves_cut:
  assumes wf: "wf_with b (x # xs)" and left: "left \<le> o_quantity x"
    and x': "x' = x\<lparr>o_quantity := left\<rparr>" and same: "same_book b b0"
    and b1: "b1 = sync_visible_fill x' 0 v b0" and b2: "same_book b1 b2"
    and stp: "stp_ids b2 = insert (o_order_id x) (stp_ids b)"
  shows "evolves A b b2 []" and "qty_of b2 = (qty_of b)(o_order_id x := left)"
proof -
  note s = same_book_simps [OF same] and s2 = same_book_simps [OF b2]
  from wf have wf0: "wf_with b0 (x # xs)" by (simp add: s)
  have look: "map_of (b_order_lookup b) (o_order_id x) = Some x"
    using wf_lookup [OF wf] by (simp add: roster_def)
  note e = evolves_sync [OF wf0 _ x' b1]
  show q: "qty_of b2 = (qty_of b)(o_order_id x := left)"
    using e(2) left by (simp add: s s2)
  show "evolves A b b2 []"
    unfolding evolves_def
  proof (intro conjI allI impI)
    fix oid z
    assume z: "map_of (b_order_lookup b2) oid = Some z"
    then show "\<exists>u. map_of (b_order_lookup b) oid = Some u \<and> z = u\<lparr>o_quantity := o_quantity z\<rparr>"
      using e(1) look left by (auto simp: x' s s2 split: if_splits)
    show "cum_of b2 oid = cum_of b oid + traded [] oid"
      using z e(1,3,4) left by (auto simp: s s2 split: if_splits)
  next
    fix oid z
    assume z: "map_of (b_order_lookup b) oid = Some z"
    then show "qty_of b2 oid + traded [] oid \<le> o_quantity z"
      "oid \<notin> stp_ids b2 \<Longrightarrow> qty_of b2 oid + traded [] oid = o_quantity z"
      using look left by (auto simp: q stp qty_of_Some)
  qed (use stp in auto)
qed

end
