(* ===== verification/Fxp_Matching.thy ===== *)
theory Fxp_Matching
  imports Fxp_Accounting
begin

text \<open>
  Passive matching (\<^verbatim>\<open>match_orders\<close>): every step trades or cuts the heads of the two queues,
  the loop terminates on every well-formed book, and its result is an uncrossed well-formed
  book whose fills account for every unit of quantity.
\<close>

section \<open>One step of passive matching\<close>

lemma same_book_log_step: "same_book b c \<Longrightarrow> same_book b (log_refresh n oid v c)"
  by (rule same_book_trans [OF _ same_book_log])

lemma stp_left_bound:
  "stp_left mode m n = (m', n') \<Longrightarrow> m' \<le> m \<and> n' \<le> n \<and> (0 < m \<longrightarrow> 0 < n \<longrightarrow> m' < m \<or> n' < n)"
  by (cases mode) auto

lemma stp_ids_push [simp]:
  "stp_ids (push_stp_event e b) = insert (e_order_id e) (stp_ids b)"
  "stp_ids (push_stp_update u b) = stp_ids b"
  by (auto simp: stp_ids_def push_stp_event_def push_stp_update_def)

lemma stp_ids_sync [simp]: "stp_ids (sync_visible_fill x t v b) = stp_ids b"
  by (simp add: stp_ids_def)

lemma qty_update_idem: "qty_of b oid = q \<Longrightarrow> (qty_of b)(oid := q) = qty_of b"
  by (simp add: fun_upd_idem)

lemma stp_cut_ok:
  assumes wf: "wf_with b (x # xs)" and vis: "vis_ok b x" and left: "left \<le> o_quantity x"
    and cut: "stp_cut mode old_id new_id n x left b = (x', b')"
  shows "x' = x\<lparr>o_quantity := left\<rparr>" and "wf_with b' (alive x' @ xs)"
    and "0 < left \<Longrightarrow> vis_ok b' x'" and "0 < left \<Longrightarrow> arr_of b' x' = arr_of b x"
    and "only (o_order_id x) b b'"
    and "evolves A b b' []" and "qty_of b' = (qty_of b)(o_order_id x := left)"
proof -
  have xin: "x \<in> set (roster b (x # xs))" by (simp add: roster_def)
  have look: "map_of (b_order_lookup b) (o_order_id x) = Some x"
    using wf_lookup [OF wf] xin by simp
  have "x' = x\<lparr>o_quantity := left\<rparr> \<and> wf_with b' (alive x' @ xs) \<and>
    (0 < left \<longrightarrow> vis_ok b' x' \<and> arr_of b' x' = arr_of b x) \<and>
    only (o_order_id x) b b' \<and> evolves A b b' [] \<and> qty_of b' = (qty_of b)(o_order_id x := left)"
  proof (cases "left = o_quantity x")
    case True
    with cut have "x' = x" "b' = b" by (simp_all add: stp_cut_def)
    with True wf vis wf_quantity [OF wf xin] look show ?thesis
      by (simp add: alive_def evolves_refl only_def qty_update_idem qty_of_Some)
  next
    case False
    define v where "v = min (visible b x) left"
    define y where "y = x\<lparr>o_quantity := left\<rparr>"
    define b0 where "b0 = (if visible b x > v
        then push_stp_update (generate_incremental_update b CancelOrder (o_price y) (visible b x - v) (o_side y)) b
        else b)"
    define e where "e = \<lparr>e_opposing_order = (if o_order_id y = old_id then new_id else old_id),
        e_order_id = o_order_id y, e_action = (if left = 0 then Canceled else Restated (o_quantity x - left)),
        e_mode = mode, e_before_fill = n\<rparr>"
    from cut False left have x': "x' = y" and b': "b' = push_stp_event e (sync_visible_fill y 0 v b0)"
      by (auto simp: stp_cut_def Let_def v_def y_def b0_def e_def)
    have s0: "same_book b b0" by (simp add: b0_def)
    have s1: "same_book (sync_visible_fill y 0 v b0) b'" by (simp add: b')
    have w0: "wf_with b0 (x # xs)" using wf by (simp add: same_book_simps [OF s0])
    have "wf_with b' (alive y @ xs)"
      using wf_sync_alive [OF w0, of left 0 v] left by (simp add: same_book_simps [OF s1] y_def)
    moreover have "vis_ok b' y \<and> arr_of b' y = arr_of b x" if "0 < left"
      using that vis_visible [OF vis] left vis_sync [OF w0 y_def, of v 0]
      by (simp add: same_book_simps [OF s1] same_book_simps [OF s0] v_def)
    moreover have "only (o_order_id x) b b'"
      using only_sync [of y b0 0 v] s0 s1 unfolding only_def
      by (auto simp: same_book_simps [OF s0] same_book_simps [OF s1] y_def)
        (simp_all add: same_book_def)
    moreover have "evolves A b b' []" "qty_of b' = (qty_of b)(o_order_id x := left)"
      by (rule evolves_cut [OF wf left y_def s0 refl s1]; simp add: b' b0_def e_def y_def)+
    ultimately show ?thesis by (simp add: x' y_def)
  qed
  then show "x' = x\<lparr>o_quantity := left\<rparr>" and "wf_with b' (alive x' @ xs)"
    and "0 < left \<Longrightarrow> vis_ok b' x'" and "0 < left \<Longrightarrow> arr_of b' x' = arr_of b x"
    and "only (o_order_id x) b b'"
    and "evolves A b b' []" and "qty_of b' = (qty_of b)(o_order_id x := left)"
    by blast+
qed

lemma stp_cut_ready:
  assumes "wf_with b (x # xs)" and "ready False b x" and "left \<le> o_quantity x" and "0 < left"
    and "stp_cut mode old_id new_id n x left b = (x', b')"
  shows "ready False b' x'"
proof -
  from assms(2) have "vis_ok b x" by (simp add: ready_def)
  note k = stp_cut_ok [OF assms(1) this assms(3,5)]
  show ?thesis by (rule ready_keep [OF assms(1,2) k(5,1) k(3) k(4)]) (rule assms(4))+
qed

lemma wf_requeue2:
  assumes wf: "wf_with b (alive x @ alive y)" and x: "0 < o_quantity x \<Longrightarrow> ready r b x"
    and y: "0 < o_quantity y \<Longrightarrow> ready s b y" and ne: "o_side x \<noteq> o_side y"
  shows "wf_book (requeue y s (requeue x r b))"
proof -
  from wf_requeue [OF wf x] have "wf_with (requeue x r b) (alive y @ [])" by simp
  then have "wf_with (requeue y s (requeue x r b)) []"
    by (rule wf_requeue) (simp add: ready_requeue_other [OF ne [symmetric]] y)
  then show ?thesis by (simp add: wf_book_def)
qed

text \<open>The step on two orders in flight: the invariant, the accounting and progress.\<close>

definition step_ok :: "order_book \<Rightarrow> order_book \<Rightarrow> execution_report list \<Rightarrow> bool" where
  "step_ok b b' fills \<longleftrightarrow>
     wf_book b' \<and> evolves {} b b' fills \<and> total_qty b' < total_qty b"

lemma match_stp_ok:
  assumes wf: "wf_with b [bid, ask]" and ready: "ready False b bid" "ready False b ask"
    and sides: "o_side bid = Buy" "o_side ask = Sell"
  shows "step_ok b (match_stp bid ask bid_newer n b) []"
proof -
  define newer older where "newer = (if bid_newer then bid else ask)" and "older = (if bid_newer then ask else bid)"
  obtain nl ol where left: "stp_left (stp_mode (o_stp newer)) (o_quantity newer) (o_quantity older) = (nl, ol)"
    by fastforce
  obtain o' b1 where c1: "stp_cut (stp_mode (o_stp newer)) (o_order_id older) (o_order_id newer) n older ol b = (o', b1)"
    by fastforce
  obtain n' b2 where c2: "stp_cut (stp_mode (o_stp newer)) (o_order_id older) (o_order_id newer) n newer nl b1 = (n', b2)"
    by fastforce
  have eq: "match_stp bid ask bid_newer n b =
      (if bid_newer then requeue o' False (requeue n' False b2) else requeue n' False (requeue o' False b2))"
    using left c1 c2 by (simp add: match_stp_def newer_def older_def Let_def split: prod.splits if_splits)
  have wf0: "wf_with b [older, newer]" and r: "ready False b older" "ready False b newer"
    and ne: "o_side newer \<noteq> o_side older"
    using wf ready sides by (simp_all add: newer_def older_def wf_swap [of b ask bid])
  note bound = stp_left_bound [OF left]
  have ids: "o_order_id newer \<noteq> o_order_id older" using wf_inflight_fresh [OF wf0, of newer] by simp
  have pos: "0 < o_quantity newer" "0 < o_quantity older"
    using wf_quantity [OF wf0] by (simp_all add: roster_def)
  from r have v: "vis_ok b older" by (simp add: ready_def)
  from bound have lo: "ol \<le> o_quantity older" and ln: "nl \<le> o_quantity newer" by simp_all
  note k1 = stp_cut_ok [OF wf0 v lo c1]
  have fresh: "o_order_id z \<noteq> o_order_id older" if "z \<in> set (queue sd b)" for z sd
    using wf_inflight_fresh [OF wf0, of z sd] that by simp
  have w1: "wf_with b1 (newer # alive o')" using k1(2) by (simp add: wf_perm [of "alive o' @ [newer]" "newer # alive o'"])
  have rn: "ready False b1 newer" using r(2) ids fresh by (simp add: ready_other [OF k1(5)])
  from rn have vn: "vis_ok b1 newer" by (simp add: ready_def)
  note k2 = stp_cut_ok [OF w1 vn ln c2]
  have fresh2: "o_order_id z \<noteq> o_order_id newer" if "z \<in> set (queue sd b1)" for z sd
    using wf_inflight_fresh [OF w1, of z sd] that by simp
  have ro: "ready False b2 o'" if "0 < o_quantity o'"
    using k1(1) stp_cut_ready [OF wf0 r(1) lo _ c1] that ids fresh2 by (simp add: ready_other [OF k2(5)])
  have rn': "ready False b2 n'" if "0 < o_quantity n'" using k2(1) stp_cut_ready [OF w1 rn ln _ c2] that by simp
  have sd: "o_side n' \<noteq> o_side o'" using ne k1(1) k2(1) by simp
  have "wf_book (match_stp bid ask bid_newer n b)"
    using wf_requeue2 [of b2 n' o' False False] wf_requeue2 [of b2 o' n' False False] k2(2) ro rn' sd
      wf_perm [of "alive n' @ alive o'" "alive o' @ alive n'" b2]
    by (simp add: eq ac_simps)
  moreover have ev: "evolves {} b b2 []" using evolves_trans [OF k1(6) [of "{}"] k2(6) [of "{}"]] by simp
  then have "evolves {} b (match_stp bid ask bid_newer n b) []"
    by (simp add: eq evolves_cong [of "requeue o' False (requeue n' False b2)" b2]
        evolves_cong [of "requeue n' False (requeue o' False b2)" b2])
  moreover have qb: "qty_of (match_stp bid ask bid_newer n b) = (qty_of b)(o_order_id older := ol, o_order_id newer := nl)"
    using k1(7) k2(7) by (simp add: eq)
  have "qty_of b (o_order_id older) = o_quantity older" "qty_of b (o_order_id newer) = o_quantity newer"
    using wf_lookup [OF wf0] by (simp_all add: qty_of_Some roster_def)
  then have "total_qty (match_stp bid ask bid_newer n b) < total_qty b"
    using bound pos ids
    by (intro total_qty_less [of _ _ "if nl < o_quantity newer then o_order_id newer else o_order_id older"])
      (auto simp: qb)
  ultimately show ?thesis by (simp add: step_ok_def)
qed


definition fill_report :: "int \<Rightarrow> int \<Rightarrow> order \<Rightarrow> order \<Rightarrow> bool \<Rightarrow> nat \<Rightarrow> execution_report" where
  "fill_report bid_price ask_price bid ask bid_newer t =
     \<lparr>x_buy_order_id = o_order_id bid, x_sell_order_id = o_order_id ask,
      x_trade_price = (if bid_newer then ask_price else bid_price), x_trade_quantity = t,
      x_aggressor_side = (if bid_newer then Buy else Sell),
      x_buy_fully_filled = (o_quantity bid = t), x_sell_fully_filled = (o_quantity ask = t)\<rparr>"

lemma match_fill_ok:
  assumes wf: "wf_with b [bid, ask]" and ready: "ready False b bid" "ready False b ask"
    and sides: "o_side bid = Buy" "o_side ask = Sell"
  defines "t \<equiv> min (visible b bid) (visible b ask)"
  shows "\<exists>b' updates'. match_fill bp ap bid ask bid_newer (b, fills, updates) =
           (b', fills @ [fill_report bp ap bid ask bid_newer t], updates') \<and>
         step_ok b b' [fill_report bp ap bid ask bid_newer t] \<and> b_last_added b' = b_last_added b"
proof -
  define f where "f = fill_report bp ap bid ask bid_newer t"
  note vb = ready_visible [OF ready(1)] and va = ready_visible [OF ready(2)]
  have t: "0 < t" "t \<le> visible b bid" "t \<le> visible b ask" "t \<le> o_quantity bid" "t \<le> o_quantity ask"
    using vb va by (auto simp: t_def)
  define bid' where "bid' = bid\<lparr>o_quantity := o_quantity bid - t\<rparr>"
  define ask' where "ask' = ask\<lparr>o_quantity := o_quantity ask - t\<rparr>"
  define b1 where "b1 = sync_visible_fill bid' t (visible b bid - t) b"
  define b2 where "b2 = sync_visible_fill ask' t (visible b ask - t) b1"
  define b3 where "b3 = fst (replenish bid' b2)"
  define b4 where "b4 = fst (replenish ask' b3)"
  define rb where "rb = (snd (replenish bid' b2) \<noteq> None)"
  define ra where "ra = (snd (replenish ask' b3) \<noteq> None)"
  have ids: "o_order_id ask \<noteq> o_order_id bid" using wf_inflight_fresh [OF wf, of ask] by simp
  have wf': "wf_with b [ask, bid]" using wf by (simp add: wf_swap [of b ask bid])
  have fb: "o_order_id z \<noteq> o_order_id bid" and fa: "o_order_id z \<noteq> o_order_id ask"
    if "z \<in> set (queue sd b)" for z sd
    using wf_inflight_fresh [OF wf, of z sd] wf_inflight_fresh [OF wf', of z sd] that by simp_all
  have w1: "wf_with b1 (ask # alive bid')"
    using wf_sync_alive [OF wf, of "o_quantity bid - t" t] t wf_perm [of "alive bid' @ [ask]" "ask # alive bid'" b1]
    by (simp add: b1_def bid'_def)
  have w2: "wf_with b2 (alive bid' @ alive ask')"
    using wf_sync_alive [OF w1, of "o_quantity ask - t" t] t
      wf_perm [of "alive ask' @ alive bid'" "alive bid' @ alive ask'" b2]
    by (simp add: b2_def ask'_def ac_simps)
  have w3: "wf_with b3 (alive ask' @ alive bid')"
    using wf_replenish_alive [OF w2] wf_perm [of "alive ask' @ alive bid'" "alive bid' @ alive ask'" b3]
    by (simp add: b3_def ac_simps)
  have w4: "wf_with b4 (alive bid' @ alive ask')"
    using wf_replenish_alive [OF w3] wf_perm [of "alive ask' @ alive bid'" "alive bid' @ alive ask'" b4]
    by (simp add: b4_def ac_simps)
  have o1: "only (o_order_id bid) b b1" using only_sync [of bid'] by (simp add: b1_def bid'_def)
  have o2: "only (o_order_id ask) b1 b2" using only_sync [of ask'] by (simp add: b2_def ask'_def)
  have o3: "only (o_order_id bid) b2 b3" using only_replenish [of bid'] by (simp add: b3_def bid'_def)
  have o4: "only (o_order_id ask) b3 b4" using only_replenish [of ask'] by (simp add: b4_def ask'_def)
  have q: "queue sd b1 = queue sd b" "queue sd b2 = queue sd b" "queue sd b3 = queue sd b" for sd
    by (simp_all add: only_queue [OF o1] only_queue [OF o2] only_queue [OF o3])
  have rbid: "ready rb b4 bid'" if "0 < o_quantity bid'"
  proof -
    have "ready rb b3 bid'"
      unfolding rb_def b3_def
      by (rule ready_after_fill [OF wf ready(1) t(2) bid'_def b1_def o2 ids _ w2 that]) (rule fa)
    then show ?thesis
      using ready_other [OF o4, of bid' rb] ids fa by (simp add: q bid'_def)
  qed
  have rask: "ready ra b4 ask'" if "0 < o_quantity ask'"
    unfolding ra_def b4_def
  proof (rule ready_after_fill [OF w1 _ _ ask'_def _ o3 ids [symmetric] _ w3 that])
    show "ready False b1 ask" using ready(2) ids fb by (simp add: ready_other [OF o1])
    show "t \<le> visible b1 ask" "b2 = sync_visible_fill ask' t (visible b1 ask - t) b1"
      using t ids by (simp_all add: only_other [OF o1] b2_def)
    show "\<And>z. z \<in> set (queue (o_side ask) b1) \<Longrightarrow> o_order_id z \<noteq> o_order_id bid" by (simp add: q fb)
  qed
  define b6 where "b6 = (let b5 = (if rb then log_refresh (length fills) (o_order_id bid') (visible b4 bid') b4 else b4)
    in if ra then log_refresh (length fills) (o_order_id ask') (visible b5 ask') b5 else b5)"
  have s6: "same_book b4 b6" unfolding b6_def Let_def
    by (simp add: same_book_log_step)
  define b' where "b' = requeue ask' ra (requeue bid' rb b6)"
  have eq: "\<exists>u. match_fill bp ap bid ask bid_newer (b, fills, updates) = (b', fills @ [f], u)"
    using t by (simp add: match_fill_def fill_report_def Let_def t_def [symmetric] bid'_def [symmetric] ask'_def [symmetric]
        b1_def [symmetric] b2_def [symmetric] f_def b'_def b6_def rb_def ra_def b4_def b3_def split: prod.split)
  have "wf_book b'"
    unfolding b'_def using w4 rbid rask sides
    by (intro wf_requeue2) (simp_all add: same_book_simps [OF s6] ready_same [OF s6] bid'_def ask'_def)
  moreover have ev: "evolves {} b b2 [f]" and
    qb: "qty_of b2 = (qty_of b)(o_order_id bid := o_quantity bid - t, o_order_id ask := o_quantity ask - t)"
    by (rule evolves_fill2 [OF wf t(4,5) bid'_def ask'_def b1_def b2_def, where f = f]; simp add: f_def fill_report_def)+
  have stp6: "b_stp b6 = b_stp b2" "b_last_added b6 = b_last_added b"
    by (simp_all add: b6_def b4_def b3_def b2_def b1_def log_refresh_def Let_def split: option.split)
  have fields: "b_order_lookup b' = b_order_lookup b2" "b_cum_filled b' = b_cum_filled b2" "b_stp b' = b_stp b2"
    using s6 stp6 by (simp_all add: b'_def same_book_def b4_def b3_def)
  have "evolves {} b b' [f]" using ev evolves_cong [OF fields] by simp
  moreover have "qty_of b' = qty_of b2" by (simp add: fun_eq_iff qty_of_def fields)
  moreover have "qty_of b (o_order_id bid) = o_quantity bid" "qty_of b (o_order_id ask) = o_quantity ask"
    using wf_lookup [OF wf] by (simp_all add: qty_of_Some roster_def)
  then have "total_qty b' < total_qty b" if "qty_of b' = qty_of b2"
    using t ids that by (intro total_qty_less [of _ _ "o_order_id bid"]) (auto simp: qb)
  ultimately have "step_ok b b' [f]" by (simp add: step_ok_def)
  moreover have "b_last_added b' = b_last_added b" by (simp add: b'_def stp6)
  ultimately show ?thesis using eq unfolding f_def by blast
qed

text \<open>
  A correct fill: a buy and a sell order of the book, at the price of the older order, which
  lies inside both limits, and not between orders that self-trade prevention keeps apart.
\<close>

definition fill_ok :: "order_book \<Rightarrow> execution_report \<Rightarrow> bool" where
  "fill_ok b f \<longleftrightarrow>
     (\<exists>bid ask.
        map_of (b_order_lookup b) (x_buy_order_id f) = Some bid \<and> o_side bid = Buy \<and>
        map_of (b_order_lookup b) (x_sell_order_id f) = Some ask \<and> o_side ask = Sell \<and>
        0 < x_trade_quantity f \<and> o_price ask \<le> x_trade_price f \<and> x_trade_price f \<le> o_price bid \<and>
        (case x_aggressor_side f of
           Buy \<Rightarrow> x_trade_price f = o_price ask \<and> \<not> self_match bid ask
         | Sell \<Rightarrow> x_trade_price f = o_price bid \<and> \<not> self_match ask bid))"

lemma self_match_quantity [simp]:
  "self_match (x\<lparr>o_quantity := q\<rparr>) y = self_match x y"
  "self_match y (x\<lparr>o_quantity := q\<rparr>) = self_match y x"
  by (simp_all add: self_match_def order_stp_key_def)

lemma fill_ok_back:
  assumes ev: "evolves A b c g" and ok: "fill_ok c f"
  shows "fill_ok b f"
proof -
  from ok obtain bid ask where
    bid: "map_of (b_order_lookup c) (x_buy_order_id f) = Some bid" "o_side bid = Buy" and
    ask: "map_of (b_order_lookup c) (x_sell_order_id f) = Some ask" "o_side ask = Sell" and
    rest: "0 < x_trade_quantity f" "o_price ask \<le> x_trade_price f" "x_trade_price f \<le> o_price bid"
      "case x_aggressor_side f of
         Buy \<Rightarrow> x_trade_price f = o_price ask \<and> \<not> self_match bid ask
       | Sell \<Rightarrow> x_trade_price f = o_price bid \<and> \<not> self_match ask bid"
    unfolding fill_ok_def by blast
  from ev bid(1) obtain x where x: "map_of (b_order_lookup b) (x_buy_order_id f) = Some x"
    and bx: "bid = x\<lparr>o_quantity := o_quantity bid\<rparr>"
    unfolding evolves_def by blast
  from ev ask(1) obtain y where y: "map_of (b_order_lookup b) (x_sell_order_id f) = Some y"
    and ay: "ask = y\<lparr>o_quantity := o_quantity ask\<rparr>"
    unfolding evolves_def by blast
  from bx ay obtain m n where "bid = x\<lparr>o_quantity := m\<rparr>" "ask = y\<lparr>o_quantity := n\<rparr>" by metis
  with bid ask rest x y show ?thesis
    unfolding fill_ok_def by (auto intro!: exI [of _ x] exI [of _ y] split: order_side.splits)
qed

lemma best_price_queue:
  assumes "wf_with b xs" and "best_price sd (side_levels sd b) = Some p"
  obtains x q where "queue sd b = x # q" and "o_price x = p"
  using assms by (elim pop_best_Some) auto

lemma match_pop:
  assumes wf: "wf_book b" and cr: "crossed b"
  obtains bid ask b2 where
    "best_price Buy (b_buy_orders b) = Some (o_price bid)" "best_price Sell (b_sell_orders b) = Some (o_price ask)"
    "o_price ask \<le> o_price bid"
    "\<And>ag fills updates. match_step ag (b, fills, updates) = do {
       bid_newer \<leftarrow> is_bid_newer ag bid ask b2;
       if (if bid_newer then self_match bid ask else self_match ask bid)
       then Some (match_stp bid ask bid_newer (length fills) b2, fills, updates)
       else Some (match_fill (o_price bid) (o_price ask) bid ask bid_newer (b2, fills, updates)) }"
    "wf_with b2 [bid, ask]" "ready False b2 bid" "ready False b2 ask" "o_side bid = Buy" "o_side ask = Sell"
    "b_order_lookup b2 = b_order_lookup b" "b_cum_filled b2 = b_cum_filled b" "b_stp b2 = b_stp b"
    "b_last_added b2 = b_last_added b" "queue Buy b = bid # queue Buy b2" "queue Sell b = ask # queue Sell b2"
    "visible b2 = visible b"
proof -
  from cr obtain bp ap where p: "best_price Buy (side_levels Buy b) = Some bp"
      "best_price Sell (side_levels Sell b) = Some ap" and le: "ap \<le> bp"
    by (auto simp: crossed_def split: option.splits)
  from wf have w: "wf_with b []" by (simp add: wf_book_def)
  from pop_best_Some [OF w p(1)] obtain bid l1 where pop1: "pop_best Buy b = (Some bid, set_levels Buy l1 b)"
    and l1: "levels_ok Buy l1" "queue Buy b = bid # flat Buy l1" and bp: "o_price bid = bp" .
  note t1 = wf_take [OF w l1]
  let ?b1 = "set_levels Buy l1 b"
  from p(2) have "best_price Sell (side_levels Sell ?b1) = Some ap" by simp
  from pop_best_Some [OF t1(1) this] obtain ask l2 where pop2: "pop_best Sell ?b1 = (Some ask, set_levels Sell l2 ?b1)"
    and l2: "levels_ok Sell l2" "queue Sell ?b1 = ask # flat Sell l2" and ap: "o_price ask = ap" .
  note t2 = wf_take [OF t1(1) l2]
  let ?b2 = "set_levels Sell l2 ?b1"
  have "head_ok ?b2 bid" using t1(3) by (simp add: head_ok_def t1(4))
  then show ?thesis
    using p [folded bp ap] le [folded bp ap] pop1 pop2 l1 l2 t1 t2
    by (intro that [of bid ask ?b2])
      (simp_all add: match_step_def ready_def wf_swap [of ?b2 bid ask])
qed

lemma match_step_ok:
  assumes wf: "wf_book b" and cr: "crossed b"
  shows "\<exists>b' new updates'. match_step ag (b, fills, updates) = Some (b', fills @ new, updates') \<and>
    step_ok b b' new \<and> (\<forall>f \<in> set new. fill_ok b f)"
proof -
  obtain bid ask b2 where le: "o_price ask \<le> o_price bid"
    and step: "match_step ag (b, fills, updates) = do {
       bid_newer \<leftarrow> is_bid_newer ag bid ask b2;
       if (if bid_newer then self_match bid ask else self_match ask bid)
       then Some (match_stp bid ask bid_newer (length fills) b2, fills, updates)
       else Some (match_fill (o_price bid) (o_price ask) bid ask bid_newer (b2, fills, updates)) }"
    and w2: "wf_with b2 [bid, ask]" and ready: "ready False b2 bid" "ready False b2 ask"
    and sides: "o_side bid = Buy" "o_side ask = Sell"
    and fields: "b_order_lookup b2 = b_order_lookup b" "b_cum_filled b2 = b_cum_filled b" "b_stp b2 = b_stp b"
    by (rule match_pop [OF wf cr]) blast
  have look: "map_of (b_order_lookup b) (o_order_id bid) = Some bid" "map_of (b_order_lookup b) (o_order_id ask) = Some ask"
    using wf_lookup [OF w2] by (simp_all add: roster_def fields(1) [symmetric])
  have "bid \<in> set (roster b2 [bid, ask])" "ask \<in> set (roster b2 [bid, ask])" by (simp_all add: roster_def)
  from wf_arrival_some [OF w2 this(1)] wf_arrival_some [OF w2 this(2)]
  have "\<exists>bn. is_bid_newer ag bid ask b2 = Some bn" by (auto simp: is_bid_newer_def)
  then obtain bn where bn: "is_bid_newer ag bid ask b2 = Some bn" ..
  have move: "step_ok b c new" if "step_ok b2 c new" for c new
    using that by (simp add: step_ok_def evolves_def total_qty_def qty_of_def cum_of_def stp_ids_def fields)
  show ?thesis
  proof (cases "if bn then self_match bid ask else self_match ask bid")
    case True
    with step bn move [OF match_stp_ok [OF w2 ready sides, of bn "length fills"]] show ?thesis
      by simp
  next
    case False
    define f where "f = fill_report (o_price bid) (o_price ask) bid ask bn (min (visible b2 bid) (visible b2 ask))"
    from match_fill_ok [OF w2 ready sides, of "o_price bid" "o_price ask" bn fills updates, folded f_def]
    obtain b' u where fill: "match_fill (o_price bid) (o_price ask) bid ask bn (b2, fills, updates) = (b', fills @ [f], u)"
      and ok: "step_ok b2 b' [f]"
      by blast
    have "fill_ok b f"
      using False look le sides ready_visible [OF ready(1)] ready_visible [OF ready(2)]
      by (auto simp: fill_ok_def f_def fill_report_def)
    with False fill step bn move [OF ok] show ?thesis
      by (intro exI [of _ b'] exI [of _ "[f]"]) auto
  qed
qed

definition match_inv :: "order_book \<Rightarrow> match_state \<Rightarrow> bool" where
  "match_inv b0 = (\<lambda>(b, fills, _). wf_book b \<and> evolves {} b0 b fills \<and> (\<forall>f \<in> set fills. fill_ok b0 f))"

interpretation matching: total_loop "\<lambda>(b, _). crossed b" "match_step ag" "match_inv b0" "\<lambda>(b, _). total_qty b"
  for ag b0
proof
  fix s :: match_state
  assume inv: "match_inv b0 s" and guard: "(\<lambda>(b, _). crossed b) s"
  obtain b fills updates where s: "s = (b, fills, updates)" by (cases s)
  from inv guard s have wf: "wf_book b" and ev: "evolves {} b0 b fills" and fo: "\<forall>f \<in> set fills. fill_ok b0 f"
    and cr: "crossed b"
    by (simp_all add: match_inv_def)
  from match_step_ok [OF wf cr, of ag fills updates] obtain b' new updates' where
    step: "match_step ag (b, fills, updates) = Some (b', fills @ new, updates')"
    and ok: "step_ok b b' new" and new: "\<forall>f \<in> set new. fill_ok b f"
    by blast
  from ok have "evolves {} b0 b' (fills @ new)" by (auto simp: step_ok_def intro: evolves_trans [OF ev])
  with ok fo new fill_ok_back [OF ev] step show
    "\<exists>t. match_step ag s = Some t \<and> match_inv b0 t \<and> (\<lambda>(b, _). total_qty b) t < (\<lambda>(b, _). total_qty b) s"
    by (auto simp: s match_inv_def step_ok_def)
qed

lemma match_orders_correct:
  assumes wf: "wf_book b"
  shows "\<exists>b' fills updates. match_orders b = Some (b', fills, updates) \<and> wf_book b' \<and> \<not> crossed b' \<and>
    evolves {} (b\<lparr>b_stp := stp_outcome_default\<rparr>) b' fills \<and> (\<forall>f \<in> set fills. fill_ok b f)"
proof -
  let ?b = "b\<lparr>b_stp := stp_outcome_default\<rparr>"
  have "match_inv ?b (?b, [], [])"
    using wf same_book_simps(1) [OF same_book_stp] by (simp add: match_inv_def evolves_refl wf_book_def)
  from matching.returns [OF this, of "b_last_added ?b"]
  show ?thesis by (auto simp: match_orders_def match_inv_def fill_ok_def)
qed

section \<open>Properties of passive matching\<close>

lemma sample_crossed: "crossed sample_book"
  by (simp add: crossed_def sample_defs add_order_def book_new_def Let_def set_levels.simps push_back_def
      bt_insert_def level_of_def bt_last_key_def bt_first_key_def)

text \<open>
  C5. Matching terminates on every well-formed book and leaves a well-formed book in which no
  bid reaches an ask.
\<close>

theorem match_orders_uncrosses:
  assumes "wf_book b"
  shows "\<exists>b' fills updates. match_orders b = Some (b', fills, updates) \<and> wf_book b' \<and> \<not> crossed b'"
  using match_orders_correct [OF assms] by blast

theorem match_orders_uncrosses_witness:
  "\<exists>b' fills updates. match_orders sample_book = Some (b', fills, updates) \<and> wf_book b' \<and> \<not> crossed b'"
  by (rule match_orders_uncrosses) (rule wf_sample_book)

text \<open>
  C6. Matching neither creates nor loses quantity: for every order, what is left plus what was
  traded is at most what it had, and exactly that unless self-trade prevention cut it; an order
  that is still live changed only in its quantity and its fill counter grew by what it traded;
  identifiers that were not live do not trade.
\<close>

theorem match_orders_conserves:
  assumes "wf_book b"
  shows "\<exists>b' fills updates. match_orders b = Some (b', fills, updates) \<and>
    (\<forall>oid x. map_of (b_order_lookup b) oid = Some x \<longrightarrow>
       qty_of b' oid + traded fills oid \<le> o_quantity x \<and>
       (oid \<notin> stp_ids b' \<longrightarrow> qty_of b' oid + traded fills oid = o_quantity x)) \<and>
    (\<forall>oid y. map_of (b_order_lookup b') oid = Some y \<longrightarrow>
       (\<exists>x. map_of (b_order_lookup b) oid = Some x \<and> y = x\<lparr>o_quantity := o_quantity y\<rparr>) \<and>
       cum_of b' oid = cum_of b oid + traded fills oid) \<and>
    (\<forall>oid. map_of (b_order_lookup b) oid = None \<longrightarrow> traded fills oid = 0)"
proof -
  have same: "cum_of (b\<lparr>b_stp := s\<rparr>) = cum_of b" for s by (rule same_book_simps(8)) simp
  from match_orders_correct [OF assms] show ?thesis
    unfolding evolves_def same by auto
qed

theorem match_orders_conserves_witness:
  "\<exists>b' fills updates. match_orders sample_book = Some (b', fills, updates) \<and>
     qty_of b' ''B1'' + traded fills ''B1'' \<le> 10"
proof -
  have "map_of (b_order_lookup sample_book) ''B1'' = Some sample_bid" "o_quantity sample_bid = 10"
    by (simp add: sample_lookup) (simp add: sample_bid_def sample_order_def)
  with match_orders_conserves [OF wf_sample_book] show ?thesis by metis
qed





end
