(* ===== verification/Fxp_Sweep.thy ===== *)
theory Fxp_Sweep
  imports Fxp_Matching
begin

text \<open>
  The sweep of an aggressive order (\<^verbatim>\<open>fill_level\<close>, \<^verbatim>\<open>execute_market\<close>, \<^verbatim>\<open>execute_ioc\<close>): both loops
  terminate, the book stays well-formed, every fill is at a resting order's price, prices
  only get worse along the sweep, and quantities add up.
\<close>

section \<open>A price level in flight\<close>

text \<open>\<^verbatim>\<open>fill_level\<close> takes a whole level out of the book and works on its queue.\<close>

definition level_inv :: "order_side \<Rightarrow> int \<Rightarrow> order_book \<Rightarrow> order list \<Rightarrow> bool" where
  "level_inv sd p b level \<longleftrightarrow>
     wf_with b level \<and> time_ok b level \<and> map_of (side_levels sd b) p = None \<and>
     (\<forall>x \<in> set level. vis_ok b x \<and> o_price x = p \<and> o_side x = sd)"

lemma level_of_absent: "map_of ls p = None \<Longrightarrow> level_of ls p = []"
  by (simp add: level_of_def)

lemma wf_take_level:
  fixes sd :: order_side and p :: int
  assumes wf: "wf_book b"
  defines "level \<equiv> level_of (side_levels sd b) p" and "b' \<equiv> set_levels sd (bt_remove p (side_levels sd b)) b"
  shows "level_inv sd p b' level" and "queue sd b = flat sd (better_levels sd p (side_levels sd b)) @ level @
    flat sd (worse_levels sd p (side_levels sd b))"
    and "queue sd b' = flat sd (better_levels sd p (side_levels sd b)) @ flat sd (worse_levels sd p (side_levels sd b))"
proof -
  let ?ls = "side_levels sd b"
  from wf have w: "wf_with b []" by (simp add: wf_book_def)
  note ok = wf_levels [OF w, of sd]
  show q: "queue sd b = flat sd (better_levels sd p ?ls) @ level @ flat sd (worse_levels sd p ?ls)"
    by (simp add: queue_def level_def flat_around [OF ok, of p])
  show q': "queue sd b' = flat sd (better_levels sd p ?ls) @ flat sd (worse_levels sd p ?ls)"
    by (simp add: b'_def flat_remove [OF ok])
  have vis: "vis_ok b x" if "x \<in> set (queue sd b)" for x using w that by (simp add: wf_with_def)
  have time: "time_ok b (queue sd b)" using w by (simp add: wf_with_def)
  have other: "queue sd' b' = queue sd' b" if "sd' \<noteq> sd" for sd' using that by (simp add: b'_def)
  have "wf_with b' level"
  proof (rule wf_rearrange [OF w])
    show "mset (roster b' level) = mset (roster b [])"
      using q q' other by (cases sd) (simp_all add: roster_def)
    show "vis_ok b x" if "x \<in> set (queue sd' b')" for sd' x
      using that w q q' other [of sd'] vis [of x] by (cases "sd' = sd") (auto simp: wf_with_def)
    show "time_ok b (queue sd' b')" for sd'
      using time q q' other [of sd'] w by (cases "sd' = sd") (auto simp: time_ok_def sorted_wrt_append wf_with_def)
    show "levels_ok sd' (side_levels sd' b')" for sd'
      using ok w by (simp add: b'_def levels_ok_remove wf_levels)
  qed (simp_all add: b'_def)
  moreover have "time_ok b' level" using time q by (auto simp: b'_def time_ok_def sorted_wrt_append)
  moreover have "vis_ok b' x \<and> o_price x = p \<and> o_side x = sd" if "x \<in> set level" for x
    using vis [of x] q that level_of_ok [OF ok, of x p] by (simp add: b'_def level_def)
  ultimately show "level_inv sd p b' level" by (simp add: level_inv_def b'_def)
qed

lemma wf_put_level:
  assumes inv: "level_inv sd p b level" and ne: "level \<noteq> []"
  defines "b' \<equiv> set_levels sd (bt_insert p level (side_levels sd b)) b"
  shows "wf_book b'"
    and "queue sd b' = flat sd (better_levels sd p (side_levels sd b)) @ level @ flat sd (worse_levels sd p (side_levels sd b))"
    and "queue sd b = flat sd (better_levels sd p (side_levels sd b)) @ flat sd (worse_levels sd p (side_levels sd b))"
proof -
  let ?ls = "side_levels sd b"
  from inv have w: "wf_with b level" and tl: "time_ok b level" and absent: "map_of ?ls p = None"
    and lv: "\<And>x. x \<in> set level \<Longrightarrow> vis_ok b x \<and> o_price x = p \<and> o_side x = sd"
    by (simp_all add: level_inv_def)
  note ok = wf_levels [OF w, of sd]
  show q': "queue sd b' = flat sd (better_levels sd p ?ls) @ level @ flat sd (worse_levels sd p ?ls)"
    by (simp add: b'_def flat_insert)
  show q: "queue sd b = flat sd (better_levels sd p ?ls) @ flat sd (worse_levels sd p ?ls)"
    using flat_around [OF ok, of p] by (simp add: queue_def level_of_absent [OF absent])
  have time: "time_ok b (queue sd b)" using w by (simp add: wf_with_def)
  have diff: "o_price x \<noteq> p" if "x \<in> set (flat sd (better_levels sd p ?ls)) \<union> set (flat sd (worse_levels sd p ?ls))" for x
    using that better_ahead [OF ok, of x p x] worse_ahead [OF ok, of x p x] by auto
  have other: "queue sd' b' = queue sd' b" if "sd' \<noteq> sd" for sd' using that by (simp add: b'_def)
  have vis: "vis_ok b x" if "x \<in> set (queue sd' b)" for sd' x using w that by (simp add: wf_with_def)
  have "wf_with b' []"
  proof (rule wf_rearrange [OF w])
    show "mset (roster b' []) = mset (roster b level)"
      using q q' other by (cases sd) (simp_all add: roster_def)
    show "vis_ok b x" if "x \<in> set (queue sd' b')" for sd' x
      using that q q' other [of sd'] lv [of x] vis [of x sd] vis [of x sd'] by (cases "sd' = sd") auto
    have "time_ok b (queue sd b')"
      using time tl diff lv unfolding q q' time_ok_def sorted_wrt_append by auto
    with w other show "time_ok b (queue sd' b')" for sd'
      by (cases "sd' = sd") (simp_all add: wf_with_def)
    show "levels_ok sd' (side_levels sd' b')" for sd'
      using ok w ne lv by (simp add: b'_def levels_ok_insert wf_levels)
  qed (simp_all add: b'_def)
  then show "wf_book b'" by (simp add: wf_book_def)
qed

text \<open>The head of a level changes in its quantity and in its own indexes only.\<close>

lemma level_head:
  assumes inv: "level_inv sd p b (x # level)" and only: "only (o_order_id x) b b'"
    and wf: "wf_with b' (alive x' @ level)" and x': "x' = x\<lparr>o_quantity := q\<rparr>"
    and vis: "0 < q \<Longrightarrow> vis_ok b' x'" and arr: "0 < q \<Longrightarrow> arr_of b' x' = arr_of b x"
  shows "level_inv sd p b' (alive x' @ level)"
proof -
  from inv have w: "wf_with b (x # level)" by (simp add: level_inv_def)
  have ids: "o_order_id y \<noteq> o_order_id x" if "y \<in> set level" for y
    using wf_inflight_fresh [OF w, of y] that by simp
  note o = only_other [OF only ids]
  have "time_ok b' level = time_ok b level" by (rule time_ok_upd) (simp add: o)
  then have "time_ok b' (alive x' @ level)"
    using inv arr by (auto simp: level_inv_def time_ok_def alive_def x' o)
  moreover have "vis_ok b' y \<and> o_price y = p \<and> o_side y = sd" if "y \<in> set (alive x' @ level)" for y
    using that inv vis o(1) by (auto simp: level_inv_def alive_def x' split: if_splits)
  moreover have "side_levels sd b' = side_levels sd b" using only by (simp add: only_def)
  ultimately show ?thesis using inv wf by (simp add: level_inv_def)
qed

lemma level_rear:
  assumes inv: "level_inv sd p b (x # level)" and only: "only (o_order_id x) b b1"
    and x': "x' = x\<lparr>o_quantity := q\<rparr>" and next_arr: "b_next_arrival b1 = b_next_arrival b"
    and w1: "wf_with b1 (x' # level)" and some: "snd (replenish x' b1) \<noteq> None"
  shows "level_inv sd p (fst (replenish x' b1)) (level @ [x'])"
proof -
  let ?b = "fst (replenish x' b1)"
  from inv have w: "wf_with b (x # level)" by (simp add: level_inv_def)
  have ids: "o_order_id y \<noteq> o_order_id x" if "y \<in> set level" for y
    using wf_inflight_fresh [OF w, of y] that by simp
  have both: "only (o_order_id x) b ?b"
    using only_trans [OF only] only_replenish [of x' b1] by (simp add: x')
  note o = only_other [OF both ids]
  have "wf_with ?b (level @ [x'])"
    using wf_replenish [OF w1] wf_perm [of "x' # level" "level @ [x']" ?b] by simp
  moreover have "time_ok ?b level = time_ok b level" by (rule time_ok_upd) (simp add: o)
  moreover have "arr_of ?b y < arr_of ?b x'" if "y \<in> set level" for y
  proof -
    have "arr_of ?b x' = b_next_arrival b1 + 1"
      using some by (simp add: replenish_def arr_of_def Let_def split: if_splits)
    with wf_arrival_le [OF w, of y] o(3) [OF that] next_arr show ?thesis by simp
  qed
  moreover have "vis_ok ?b y" if "y \<in> set level" for y using inv that o(1) by (simp add: level_inv_def)
  moreover have "side_levels sd ?b = side_levels sd b" using both by (simp add: only_def)
  ultimately show ?thesis
    using inv replenish_Some(1) [OF w1 some]
    by (auto simp: level_inv_def time_ok_def sorted_wrt_append x')
qed

section \<open>One turn of the level loop\<close>

text \<open>
  A correct fill of the aggressor \<open>a\<close>: against a resting order of the other side, at that
  order's price, and not against an order that self-trade prevention keeps apart.
\<close>

definition sweep_fill_ok :: "order \<Rightarrow> order_book \<Rightarrow> execution_report \<Rightarrow> bool" where
  "sweep_fill_ok a b f \<longleftrightarrow>
     (\<exists>x. map_of (b_order_lookup b) (o_order_id x) = Some x \<and> o_side x = opposite (o_side a) \<and>
          \<not> self_match a x \<and> 0 < x_trade_quantity f \<and> x_trade_price f = o_price x \<and>
          x_aggressor_side f = o_side a \<and>
          (x_buy_order_id f, x_sell_order_id f) =
            (case o_side a of Buy \<Rightarrow> (o_order_id a, o_order_id x) | Sell \<Rightarrow> (o_order_id x, o_order_id a)))"

definition sweep_meas :: "order_book \<Rightarrow> sweep \<Rightarrow> nat" where
  "sweep_meas b sw = total_qty b + (if sw_stopped sw then 0 else 1)"

definition sweep_report :: "order \<Rightarrow> order \<Rightarrow> int \<Rightarrow> nat \<Rightarrow> nat \<Rightarrow> execution_report" where
  "sweep_report a tp p t remaining =
     \<lparr>x_buy_order_id = (if o_side a = Buy then o_order_id a else o_order_id tp),
      x_sell_order_id = (if o_side a = Buy then o_order_id tp else o_order_id a),
      x_trade_price = p, x_trade_quantity = t, x_aggressor_side = o_side a,
      x_buy_fully_filled = (if o_side a = Buy then remaining = 0 else o_quantity tp = 0),
      x_sell_fully_filled = (if o_side a = Buy then o_quantity tp = 0 else remaining = 0)\<rparr>"

lemma level_fill_unfold:
  assumes t: "t = min (visible b tp) (sw_remaining sw)" and le: "t \<le> o_quantity tp"
    and tp': "tp' = tp\<lparr>o_quantity := o_quantity tp - t\<rparr>"
    and b1: "b1 = sync_visible_fill tp' t (visible b tp - t) b"
  shows "\<exists>u. level_fill a p tp (b, level, sw) =
    (let b2 = fst (replenish tp' b1);
         f = sweep_report a tp' p t (sw_remaining sw - t);
         sw' = sw\<lparr>sw_remaining := sw_remaining sw - t, sw_fills := sw_fills sw @ [f], sw_fill_updates := u\<rparr>
     in if snd (replenish tp' b1) = None then (b2, alive tp' @ level, sw')
        else (log_refresh (length (sw_fills sw)) (o_order_id tp') (visible b2 tp') b2, level @ [tp'], sw'))"
proof -
  have "t \<le> visible b tp" "t \<le> sw_remaining sw" by (simp_all add: t)
  with le have sub: "sub_u32 (o_quantity tp) t = o_quantity tp - t"
    "sub_u32 (visible b tp) t = visible b tp - t" "sub_u32 (sw_remaining sw) t = sw_remaining sw - t"
    by simp_all
  obtain b2 r where r: "replenish tp' b1 = (b2, r)" by fastforce
  have al: "(if o_quantity tp' > 0 then tp' # level else level) = alive tp' @ level"
    by (simp add: alive_def)
  show ?thesis
    unfolding level_fill_def prod.case Let_def t [symmetric] sub tp' [symmetric] b1 [symmetric] r fst_conv snd_conv al
    by (cases "o_side a"; cases r; simp add: sweep_report_def; (rule exI, rule refl))
qed

text \<open>A fill of the head of the level, computed.\<close>

lemma level_fill_shape:
  assumes le: "t \<le> o_quantity tp" and t: "t = min (visible b tp) (sw_remaining sw)"
    and tp': "tp' = tp\<lparr>o_quantity := o_quantity tp - t\<rparr>"
    and b1: "b1 = sync_visible_fill tp' t (visible b tp - t) b"
    and res: "level_fill a p tp (b, level, sw) = (b', level', sw')"
  shows "same_book (fst (replenish tp' b1)) b'" and "b_stp b' = b_stp b"
    and "level' = (if snd (replenish tp' b1) = None then alive tp' @ level else level @ [tp'])"
    and "sw_remaining sw' = sw_remaining sw - t" and "sw_stopped sw' = sw_stopped sw"
    and "sw_fills sw' = sw_fills sw @ [sweep_report a tp' p t (sw_remaining sw - t)]"
proof -
  from level_fill_unfold [OF t le tp' b1, of a p level] obtain u where "level_fill a p tp (b, level, sw) =
    (let b2 = fst (replenish tp' b1);
         f = sweep_report a tp' p t (sw_remaining sw - t);
         sw' = sw\<lparr>sw_remaining := sw_remaining sw - t, sw_fills := sw_fills sw @ [f], sw_fill_updates := u\<rparr>
     in if snd (replenish tp' b1) = None then (b2, alive tp' @ level, sw')
        else (log_refresh (length (sw_fills sw)) (o_order_id tp') (visible b2 tp') b2, level @ [tp'], sw'))"
    by blast
  note eq = this [unfolded res]
  have stp: "b_stp b1 = b_stp b" by (simp add: b1)
  from eq show "same_book (fst (replenish tp' b1)) b'"
    by (auto simp: Let_def split: if_splits)
  from eq stp show "b_stp b' = b_stp b"
    by (auto simp: Let_def log_refresh_def split: if_splits option.splits)
  from eq show "level' = (if snd (replenish tp' b1) = None then alive tp' @ level else level @ [tp'])"
    and "sw_remaining sw' = sw_remaining sw - t" and "sw_stopped sw' = sw_stopped sw"
    and "sw_fills sw' = sw_fills sw @ [sweep_report a tp' p t (sw_remaining sw - t)]"
    by (auto simp: Let_def split: if_splits)
qed

text \<open>The visible slice bounds the fill; an order that shows nothing more is refreshed or gone.\<close>

lemma level_fill_shown:
  assumes vis: "vis_ok b tp" and t: "t \<le> visible b tp" and tp': "tp' = tp\<lparr>o_quantity := o_quantity tp - t\<rparr>"
    and b1: "b1 = sync_visible_fill tp' t (visible b tp - t) b"
  shows "snd (replenish tp' b1) = None \<Longrightarrow> 0 < o_quantity tp' \<Longrightarrow> t < visible b tp"
    and "snd (replenish tp' b1) \<noteq> None \<Longrightarrow> t = visible b tp \<and> 0 < o_quantity tp'"
proof -
  note v = vis_visible [OF vis]
  have vis1: "visible b1 tp' = (if o_quantity tp' = 0 then 0 else visible b tp - t)"
    by (simp add: b1 visible_sync)
  show "t < visible b tp" if "snd (replenish tp' b1) = None" "0 < o_quantity tp'"
    using that v t vis1 by (auto simp: replenish_def Let_def tp' split: if_splits)
  show "t = visible b tp \<and> 0 < o_quantity tp'" if "snd (replenish tp' b1) \<noteq> None"
    using that t vis1 by (auto simp: replenish_def Let_def split: if_splits)
qed

lemma level_fill_inv:
  assumes inv: "level_inv sd p b (tp # level)" and t: "t = min (visible b tp) (sw_remaining sw)"
    and tp': "tp' = tp\<lparr>o_quantity := o_quantity tp - t\<rparr>"
    and res: "level_fill a p tp (b, level, sw) = (b', level', sw')"
  shows "level_inv sd p b' level'" and "side_levels sd' b' = side_levels sd' b"
    and "level' = alive tp' @ level \<and> (t = visible b tp \<longrightarrow> o_quantity tp' = 0) \<or> level' = level @ [tp'] \<and> t = visible b tp"
    and "\<And>y. y \<in> set level \<Longrightarrow> visible b' y = visible b y"
proof -
  from inv have w: "wf_with b (tp # level)" and vis: "vis_ok b tp"
    by (simp_all add: level_inv_def)
  note v = vis_visible [OF vis]
  have le: "t \<le> visible b tp" "t \<le> o_quantity tp" using v by (auto simp: t)
  define b1 where "b1 = sync_visible_fill tp' t (visible b tp - t) b"
  note shape = level_fill_shape [OF le(2) t tp' b1_def res] and shown = level_fill_shown [OF vis le(1) tp' b1_def]
  have ids: "o_order_id tp' = o_order_id tp" by (simp add: tp')
  have o1: "only (o_order_id tp) b b1" using only_sync [of tp'] by (simp add: b1_def ids)
  have o2: "only (o_order_id tp) b1 (fst (replenish tp' b1))" using only_replenish [of tp'] by (simp add: ids)
  have w1: "wf_with b1 (alive tp' @ level)"
    using wf_sync_alive [OF w, of "o_quantity tp - t" t] le by (simp add: b1_def tp')
  show "side_levels sd' b' = side_levels sd' b" for sd'
    using o1 o2 by (simp add: same_book_simps(4) [OF shape(1)] only_def)
  have "level_inv sd p (fst (replenish tp' b1)) level'"
  proof (cases "snd (replenish tp' b1) = None")
    case True
    have "level_inv sd p b1 (alive tp' @ level)"
    proof (rule level_head [OF inv o1 w1 tp'])
      assume q: "0 < o_quantity tp - t"
      with shown(1) [OF True] v le have "0 < visible b tp - t" "visible b tp - t \<le> o_quantity tp - t"
        "o_display_quantity tp = 0 \<Longrightarrow> visible b tp - t = o_quantity tp - t"
        by (auto simp: tp')
      from vis_sync [OF w tp' this] show "vis_ok b1 tp'" "arr_of b1 tp' = arr_of b tp"
        by (simp_all add: b1_def)
    qed
    with True show ?thesis by (simp add: shape(3) replenish_None)
  next
    case False
    with w1 shown(2) [OF False] have "wf_with b1 (tp' # level)" by (simp add: alive_def)
    from level_rear [OF inv o1 tp' _ this False] False show ?thesis by (auto simp: shape(3) b1_def)
  qed
  then show "level_inv sd p b' level'"
    by (simp add: level_inv_def same_book_simps [OF shape(1)] time_ok_def)
  show "level' = alive tp' @ level \<and> (t = visible b tp \<longrightarrow> o_quantity tp' = 0) \<or> level' = level @ [tp'] \<and> t = visible b tp"
    using shown by (auto simp: shape(3))
  show "visible b' y = visible b y" if "y \<in> set level" for y
    using only_other(2) [OF only_trans [OF o1 o2], of y] wf_inflight_fresh [OF w, of y] that
    by (simp add: same_book_simps [OF shape(1)])
qed

lemma level_fill_acc:
  assumes inv: "level_inv sd p b (tp # level)" and sd: "sd = opposite (o_side a)"
    and t: "t = min (visible b tp) (sw_remaining sw)" and pos: "0 < sw_remaining sw"
    and tp': "tp' = tp\<lparr>o_quantity := o_quantity tp - t\<rparr>" and ns: "\<not> self_match a tp"
    and out: "map_of (b_order_lookup b) (o_order_id a) = None"
    and f: "f = sweep_report a tp' p t (sw_remaining sw - t)"
    and res: "level_fill a p tp (b, level, sw) = (b', level', sw')"
  shows "evolves {o_order_id a} b b' [f]" and "total_qty b' < total_qty b" and "sweep_fill_ok a b f" and "0 < t"
    and "sw_fills sw' = sw_fills sw @ [f]" "sw_remaining sw' = sw_remaining sw - t"
    and "sw_stopped sw' = sw_stopped sw" and "b_stp b' = b_stp b"
proof -
  from inv have w: "wf_with b (tp # level)" and vis: "vis_ok b tp" and price: "o_price tp = p" and side: "o_side tp = sd"
    by (simp_all add: level_inv_def)
  note v = vis_visible [OF vis]
  show t0: "0 < t" using v pos by (simp add: t)
  have le: "t \<le> visible b tp" "t \<le> o_quantity tp" using v by (auto simp: t)
  define b1 where "b1 = sync_visible_fill tp' t (visible b tp - t) b"
  note shape = level_fill_shape [OF le(2) t tp' b1_def res]
  show "sw_fills sw' = sw_fills sw @ [f]" "sw_remaining sw' = sw_remaining sw - t"
    "sw_stopped sw' = sw_stopped sw" "b_stp b' = b_stp b"
    by (simp_all add: shape f)
  have ids: "{x_buy_order_id f, x_sell_order_id f} = {o_order_id tp, o_order_id a}"
    by (auto simp: f sweep_report_def tp')
  have "x_trade_quantity f = t" by (simp add: f sweep_report_def)
  note ev = evolves_fill1 [OF w le(2) tp' b1_def ids this singletonI out]
  have fields: "b_order_lookup b' = b_order_lookup b1" "b_cum_filled b' = b_cum_filled b1" "b_stp b' = b_stp b1"
    using shape(1,2) by (simp_all add: same_book_def b1_def)
  show "evolves {o_order_id a} b b' [f]" using ev(1) evolves_cong [OF fields] by simp
  have "qty_of b' = qty_of b1" by (simp add: fun_eq_iff qty_of_def fields)
  moreover have look: "map_of (b_order_lookup b) (o_order_id tp) = Some tp"
    using wf_lookup [OF w] by (simp add: roster_def)
  then have "qty_of b (o_order_id tp) = o_quantity tp" by (simp add: qty_of_Some)
  ultimately show "total_qty b' < total_qty b"
    using t0 le by (intro total_qty_less [of _ _ "o_order_id tp"]) (auto simp: ev(2))
  show "sweep_fill_ok a b f"
    using look ns side sd t0 price
    by (auto simp: sweep_fill_ok_def f sweep_report_def tp' split: order_side.split intro!: exI [of _ tp])
qed

text \<open>A self-match at the head of the level: the head is cut, the aggressor cut or stopped.\<close>

lemma level_stp_cut:
  assumes left: "stp_left (stp_mode (o_stp a)) (sw_remaining sw) (o_quantity tp) = (aleft, tleft)"
    and le: "aleft \<le> sw_remaining sw" "tleft \<le> o_quantity tp" and price: "o_price tp = p"
    and cut: "stp_cut (stp_mode (o_stp a)) (o_order_id tp) (o_order_id a) (length (sw_fills sw)) tp tleft b = (tp', b1)"
  shows "\<exists>e. e_order_id e = o_order_id a \<and> level_stp a p tp (b, level, sw) =
      (if aleft = sw_remaining sw \<and> aleft \<noteq> 0 then b1 else push_stp_event e b1, alive tp' @ level,
       if aleft = 0 then sw\<lparr>sw_stopped := True\<rparr> else sw\<lparr>sw_remaining := aleft\<rparr>)"
proof -
  have sub: "sub_u32 (sw_remaining sw) aleft = sw_remaining sw - aleft" "sub_u32 (o_quantity tp) tleft = o_quantity tp - tleft"
    using le by simp_all
  have al: "(if 0 < o_quantity tp' then tp' # level else level) = alive tp' @ level" for tp'
    by (simp add: alive_def)
  have same: "aleft = sw_remaining sw \<Longrightarrow> sw\<lparr>sw_remaining := aleft\<rparr> = sw" by simp
  let ?e = "\<lparr>e_opposing_order = o_order_id tp', e_order_id = o_order_id a,
      e_action = (if aleft = 0 then Canceled else Restated (sw_remaining sw - aleft)), e_mode = stp_mode (o_stp a),
      e_before_fill = length (sw_fills sw)\<rparr>"
  show ?thesis
    using cut le same
    by (intro exI [of _ ?e]) (auto simp: level_stp_def stp_cut_def Let_def left sub price al)
qed

lemma stp_left_aggressor:
  "stp_left mode m n = (m', n') \<Longrightarrow> 0 < m \<Longrightarrow> 0 < n \<Longrightarrow> m' = 0 \<or> n' < n"
  by (cases mode) auto

lemma level_inv_push: "level_inv sd p (push_stp_event e b) level = level_inv sd p b level"
  by (simp add: level_inv_def time_ok_def same_book_simps [OF same_book_push(1)])

lemma evolves_push:
  assumes "evolves A b c f"
  shows "evolves A b (push_stp_event e c) f"
  using assms
  by (auto simp: evolves_def qty_of_def cum_of_def push_stp_event_def stp_ids_def)

lemma level_stp_ok:
  assumes inv: "level_inv sd p b (tp # level)" and live: "sweep_live sw"
    and res: "level_stp a p tp (b, level, sw) = (b', level', sw')"
  shows "level_inv sd p b' level'" and "evolves A b b' []" and "sw_fills sw' = sw_fills sw"
    and "sw_remaining sw' \<le> sw_remaining sw" and "0 < sw_remaining sw'"
    and "sw_stopped sw' \<or> sw_remaining sw' < sw_remaining sw \<Longrightarrow> o_order_id a \<in> stp_ids b'"
    and "sweep_meas b' sw' < sweep_meas b sw" and "side_levels sd' b' = side_levels sd' b"
proof -
  from inv have w: "wf_with b (tp # level)" and vis: "vis_ok b tp" and price: "o_price tp = p"
    by (simp_all add: level_inv_def)
  obtain al tl' where left: "stp_left (stp_mode (o_stp a)) (sw_remaining sw) (o_quantity tp) = (al, tl')" by fastforce
  obtain tp' b1 where cut: "stp_cut (stp_mode (o_stp a)) (o_order_id tp) (o_order_id a) (length (sw_fills sw)) tp tl' b = (tp', b1)"
    by fastforce
  from stp_left_bound [OF left] have le: "al \<le> sw_remaining sw" "tl' \<le> o_quantity tp" by simp_all
  have pos: "0 < sw_remaining sw" "0 < o_quantity tp" and ns: "\<not> sw_stopped sw"
    using live wf_quantity [OF w, of tp] by (simp_all add: sweep_live_def roster_def)
  note prog = stp_left_aggressor [OF left pos]
  note k = stp_cut_ok [OF w vis le(2) cut]
  from level_stp_cut [OF left le price cut, of level] res obtain e where e: "e_order_id e = o_order_id a"
    and b': "b' = (if al = sw_remaining sw \<and> al \<noteq> 0 then b1 else push_stp_event e b1)"
    and level': "level' = alive tp' @ level"
    and sw': "sw' = (if al = 0 then sw\<lparr>sw_stopped := True\<rparr> else sw\<lparr>sw_remaining := al\<rparr>)"
    by auto
  have inv1: "level_inv sd p b1 (alive tp' @ level)"
    by (rule level_head [OF inv k(5,2,1,3,4)])
  then show "level_inv sd p b' level'" by (simp add: b' level' level_inv_push)
  show "evolves A b b' []" using k(6) by (simp add: b' evolves_push)
  show "sw_fills sw' = sw_fills sw" "sw_remaining sw' \<le> sw_remaining sw" "0 < sw_remaining sw'"
    using le pos by (simp_all add: sw')
  show "sw_stopped sw' \<or> sw_remaining sw' < sw_remaining sw \<Longrightarrow> o_order_id a \<in> stp_ids b'"
    using ns e by (auto simp: sw' b' split: if_splits)
  have sl: "side_levels sd' b1 = side_levels sd' b" for sd' using k(5) by (simp add: only_def)
  then show "side_levels sd' b' = side_levels sd' b"
    by (simp add: b' same_book_simps(4) [OF same_book_push(1)])
  have qb: "qty_of b' = (qty_of b)(o_order_id tp := tl')"
    using k(7) by (simp add: b' same_book_simps(9) [OF same_book_push(1)])
  have qtp: "qty_of b (o_order_id tp) = o_quantity tp"
    using wf_lookup [OF w] by (simp add: qty_of_Some roster_def)
  show "sweep_meas b' sw' < sweep_meas b sw"
  proof (cases "tl' < o_quantity tp")
    case True
    then have "total_qty b' < total_qty b"
      by (intro total_qty_less [of _ _ "o_order_id tp"]) (auto simp: qb qtp)
    then show ?thesis by (simp add: sweep_meas_def ns)
  next
    case False
    with prog le have "al = 0" "tl' = o_quantity tp" by simp_all
    moreover from this(2) cut have "b1 = b" by (simp add: stp_cut_def)
    moreover have "total_qty (push_stp_event e b) = total_qty b"
      by (simp add: total_qty_def same_book_simps [OF same_book_push(1)])
    ultimately show ?thesis by (simp add: sweep_meas_def ns sw' b')
  qed
qed

section \<open>The level loop\<close>

text \<open>The accounting of an aggressive order \<open>a\<close> that entered on the book \<open>b0\<close>.\<close>

definition sweep_acc :: "order \<Rightarrow> order_book \<Rightarrow> order_book \<Rightarrow> sweep \<Rightarrow> bool" where
  "sweep_acc a b0 b sw \<longleftrightarrow>
     evolves {o_order_id a} b0 b (sw_fills sw) \<and>
     traded (sw_fills sw) (o_order_id a) + sw_remaining sw \<le> o_quantity a \<and>
     (o_order_id a \<notin> stp_ids b \<longrightarrow>
        traded (sw_fills sw) (o_order_id a) + sw_remaining sw = o_quantity a \<and> \<not> sw_stopped sw) \<and>
     (\<forall>f \<in> set (sw_fills sw). sweep_fill_ok a b0 f)"

definition lvl_inv ::
  "order \<Rightarrow> int \<Rightarrow> order_book \<Rightarrow> (order_side \<Rightarrow> levels) \<Rightarrow> execution_report list \<Rightarrow> nat \<Rightarrow> level_state \<Rightarrow> bool" where
  "lvl_inv a p b0 L F m = (\<lambda>(b, level, sw).
     level_inv (opposite (o_side a)) p b level \<and> sweep_acc a b0 b sw \<and> sweep_meas b sw \<le> m \<and>
     (\<forall>sd. side_levels sd b = L sd) \<and>
     (\<exists>new. sw_fills sw = F @ new \<and> (\<forall>f \<in> set new. x_trade_price f = p)))"

lemma sweep_fill_ok_back:
  assumes ev: "evolves A b0 b g" and ok: "sweep_fill_ok a b f"
  shows "sweep_fill_ok a b0 f"
proof -
  from ok obtain x where x: "map_of (b_order_lookup b) (o_order_id x) = Some x" "o_side x = opposite (o_side a)"
    "\<not> self_match a x" "0 < x_trade_quantity f" "x_trade_price f = o_price x" "x_aggressor_side f = o_side a"
    "(x_buy_order_id f, x_sell_order_id f) =
       (case o_side a of Buy \<Rightarrow> (o_order_id a, o_order_id x) | Sell \<Rightarrow> (o_order_id x, o_order_id a))"
    unfolding sweep_fill_ok_def by blast
  from ev x(1) obtain y where y: "map_of (b_order_lookup b0) (o_order_id x) = Some y" "x = y\<lparr>o_quantity := o_quantity x\<rparr>"
    unfolding evolves_def by blast
  then obtain q where "x = y\<lparr>o_quantity := q\<rparr>" by metis
  with x y(1) show ?thesis
    unfolding sweep_fill_ok_def by (intro exI [of _ y]) (simp split: order_side.splits)
qed

lemma evolves_out:
  "evolves A b0 b g \<Longrightarrow> map_of (b_order_lookup b0) oid = None \<Longrightarrow> map_of (b_order_lookup b) oid = None"
  unfolding evolves_def by (metis option.exhaust option.distinct(1))

lemma traded_self: "sweep_fill_ok a b f \<Longrightarrow> traded [f] (o_order_id a) = x_trade_quantity f"
  by (cases "o_side a") (auto simp: sweep_fill_ok_def)

lemma level_step_ok:
  assumes inv: "lvl_inv a p b0 L F m (b, tp # level, sw)" and live: "sweep_live sw"
    and out: "map_of (b_order_lookup b0) (o_order_id a) = None"
  shows "\<exists>s'. level_step a p (b, tp # level, sw) = Some s' \<and> lvl_inv a p b0 L F m s' \<and>
    sweep_meas (fst s') (snd (snd s')) < sweep_meas b sw"
proof -
  let ?sd = "opposite (o_side a)"
  from inv have li: "level_inv ?sd p b (tp # level)" and acc: "sweep_acc a b0 b sw" and m: "sweep_meas b sw \<le> m"
    and L: "\<forall>sd. side_levels sd b = L sd"
    and F: "\<exists>new. sw_fills sw = F @ new \<and> (\<forall>f \<in> set new. x_trade_price f = p)"
    by (simp_all add: lvl_inv_def)
  from acc have ev: "evolves {o_order_id a} b0 b (sw_fills sw)" by (simp add: sweep_acc_def)
  have trans: "evolves {o_order_id a} b0 c (sw_fills sw @ g)" if "evolves {o_order_id a} b c g" for c g
    by (rule evolves_trans [OF ev that]) (simp add: out)
  note sub = ev [unfolded evolves_def]
  show ?thesis
  proof (cases "self_match a tp")
    case True
    obtain b' level' sw' where res: "level_stp a p tp (b, level, sw) = (b', level', sw')" by (rule prod_cases3)
    note k = level_stp_ok [OF li live res]
    have "stp_ids b \<subseteq> stp_ids b'" using k(2) by (simp add: evolves_def)
    moreover have "sw_remaining sw' = sw_remaining sw \<and> \<not> sw_stopped sw'" if "o_order_id a \<notin> stp_ids b'"
      using that k(4,6) by (meson le_neq_implies_less)
    ultimately have "sweep_acc a b0 b' sw'"
      using acc trans [OF k(2)] k(3,4) unfolding sweep_acc_def by auto
    with k(1,3,7,8) m L F True res show ?thesis by (simp add: lvl_inv_def)
  next
    case False
    obtain b' level' sw' where res: "level_fill a p tp (b, level, sw) = (b', level', sw')" by (rule prod_cases3)
    from live have pos: "0 < sw_remaining sw" by (simp add: sweep_live_def)
    note k = level_fill_inv [OF li refl refl res]
      and c = level_fill_acc [OF li refl refl pos refl False evolves_out [OF ev out] refl res]
    have "stp_ids b' = stp_ids b" using c(8) by (simp add: stp_ids_def)
    then have "sweep_acc a b0 b' sw'"
      using acc trans [OF c(1)] c(4-7) sweep_fill_ok_back [OF ev c(3)] traded_self [OF c(3)]
      unfolding sweep_acc_def by (auto simp: sweep_report_def)
    moreover have "\<exists>new. sw_fills sw' = F @ new \<and> (\<forall>f \<in> set new. x_trade_price f = p)"
      using F c(5) by (auto simp: sweep_report_def)
    ultimately show ?thesis
      using k(1,2) c(2,7) m L False res by (simp add: lvl_inv_def sweep_meas_def)
  qed
qed

interpretation level_loop: total_loop "\<lambda>(_, level, sw). sweep_live sw \<and> level \<noteq> []" "level_step a p"
  "\<lambda>s. map_of (b_order_lookup b0) (o_order_id a) = None \<and> lvl_inv a p b0 L F m s" "\<lambda>(b, _, sw). sweep_meas b sw"
  for a p b0 L F m
proof
  fix s :: level_state
  assume inv: "map_of (b_order_lookup b0) (o_order_id a) = None \<and> lvl_inv a p b0 L F m s"
    and guard: "(\<lambda>(_, level, sw). sweep_live sw \<and> level \<noteq> []) s"
  from guard obtain b tp level sw where s: "s = (b, tp # level, sw)" and live: "sweep_live sw"
    by (cases s) (auto simp: neq_Nil_conv)
  from level_step_ok [of a p b0 L F m b tp level sw] inv live s
  show "\<exists>t. level_step a p s = Some t \<and> (map_of (b_order_lookup b0) (o_order_id a) = None \<and> lvl_inv a p b0 L F m t) \<and>
      (\<lambda>(b, _, sw). sweep_meas b sw) t < (\<lambda>(b, _, sw). sweep_meas b sw) s"
    by (simp add: case_prod_beta)
qed

lemma lvl_inv_start:
  fixes p :: int
  assumes wf: "wf_book b" and acc: "sweep_acc a b0 b sw" and sd: "sd = opposite (o_side a)"
  defines "b1 \<equiv> set_levels sd (bt_remove p (side_levels sd b)) b"
  shows "lvl_inv a p b0 (\<lambda>sd'. side_levels sd' b1) (sw_fills sw) (sweep_meas b sw) (b1, level_of (side_levels sd b) p, sw)"
    and "sweep_meas b1 sw = sweep_meas b sw"
proof -
  show same: "sweep_meas b1 sw = sweep_meas b sw" by (simp add: b1_def sweep_meas_def total_qty_def)
  have "sweep_acc a b0 b1 sw"
    using acc evolves_cong [of b1 b "{o_order_id a}" b0 "sw_fills sw"] by (simp add: b1_def sweep_acc_def stp_ids_def)
  then show "lvl_inv a p b0 (\<lambda>sd'. side_levels sd' b1) (sw_fills sw) (sweep_meas b sw) (b1, level_of (side_levels sd b) p, sw)"
    using wf_take_level(1) [OF wf, of sd p] same sd by (simp add: lvl_inv_def b1_def)
qed

lemma fill_level_ok:
  assumes wf: "wf_book b" and acc: "sweep_acc a b0 b sw" and live: "sweep_live sw"
    and out: "map_of (b_order_lookup b0) (o_order_id a) = None"
    and sd: "sd = opposite (o_side a)" and some: "map_of (side_levels sd b) p \<noteq> None"
  shows "\<exists>b' sw' new level'. fill_level a p (b, sw) = Some (b', sw') \<and> wf_book b' \<and> sweep_acc a b0 b' sw' \<and>
    sweep_meas b' sw' < sweep_meas b sw \<and> sw_fills sw' = sw_fills sw @ new \<and> (\<forall>f \<in> set new. x_trade_price f = p) \<and>
    side_levels sd b' = (if level' = [] then bt_remove p (side_levels sd b) else bt_insert p level' (bt_remove p (side_levels sd b))) \<and>
    (sweep_live sw' \<longrightarrow> level' = [])"
proof -
  let ?ls = "side_levels sd b" and ?b1 = "set_levels sd (bt_remove p (side_levels sd b)) b"
  have bok: "levels_ok sd ?ls" using wf by (simp add: wf_book_def wf_levels)
  obtain level where level: "map_of ?ls p = Some level" using some by blast
  then have lv: "level_of ?ls p = level" by (simp add: level_of_def)
  have "(p, level) \<in> set ?ls" using bok level by (simp add: levels_ok_def bt_get_set)
  with bok obtain tp rest where lvl: "level = tp # rest"
    by (cases level) (auto simp: levels_ok_def level_ok_def)
  let ?L = "\<lambda>sd'. side_levels sd' ?b1"
  note start = lvl_inv_start [OF wf acc sd, of p]
  from start have same: "sweep_meas ?b1 sw = sweep_meas b sw"
    and inv0: "lvl_inv a p b0 ?L (sw_fills sw) (sweep_meas b sw) (?b1, tp # rest, sw)"
    by (simp_all add: lv lvl)
  from level_step_ok [OF inv0 live out] obtain s1 where step: "level_step a p (?b1, tp # rest, sw) = Some s1"
    and inv1: "lvl_inv a p b0 ?L (sw_fills sw) (sweep_meas b sw) s1"
    and less: "sweep_meas (fst s1) (snd (snd s1)) < sweep_meas b sw"
    using same by auto
  define m where "m = sweep_meas (fst s1) (snd (snd s1))"
  have "lvl_inv a p b0 ?L (sw_fills sw) m s1"
    using inv1 by (cases s1) (simp add: lvl_inv_def m_def)
  with level_loop.returns [of b0 a p ?L "sw_fills sw" m s1] out obtain b2 level' sw' where
    loop: "loop_while (\<lambda>(_, level, sw). sweep_live sw \<and> level \<noteq> []) (level_step a p) s1 = Some (b2, level', sw')"
    and inv2: "lvl_inv a p b0 ?L (sw_fills sw) m (b2, level', sw')" and stop: "\<not> (sweep_live sw' \<and> level' \<noteq> [])"
    by auto
  have loop0: "loop_while (\<lambda>(_, level, sw). sweep_live sw \<and> level \<noteq> []) (level_step a p) (?b1, tp # rest, sw) =
      Some (b2, level', sw')"
    using loop_while_step [of "\<lambda>(_, level, sw). sweep_live sw \<and> level \<noteq> []" "(?b1, tp # rest, sw)" "level_step a p" s1]
      step live loop by simp
  define b' where "b' = (if level' \<noteq> [] then set_levels sd (bt_insert p level' (side_levels sd b2)) b2 else b2)"
  have fl: "fill_level a p (b, sw) = Some (b', sw')"
    using loop0 by (simp add: fill_level_def sd [symmetric] lv lvl b'_def Let_def)
  from inv2 have li: "level_inv sd p b2 level'" and acc2: "sweep_acc a b0 b2 sw'" and m2: "sweep_meas b2 sw' \<le> m"
    and sl: "side_levels sd b2 = bt_remove p ?ls"
    and new: "\<exists>new. sw_fills sw' = sw_fills sw @ new \<and> (\<forall>f \<in> set new. x_trade_price f = p)"
    by (simp_all add: lvl_inv_def sd)
  have "wf_book b'"
    using wf_put_level(1) [OF li] li by (auto simp: b'_def level_inv_def wf_book_def)
  moreover have "sweep_acc a b0 b' sw'"
    using acc2 evolves_cong [of b' b2 "{o_order_id a}" b0 "sw_fills sw'"]
    by (simp add: sweep_acc_def stp_ids_def b'_def)
  moreover have "sweep_meas b' sw' = sweep_meas b2 sw'" by (simp add: b'_def sweep_meas_def total_qty_def)
  then have "sweep_meas b' sw' < sweep_meas b sw" using m2 less by (simp add: m_def)
  moreover have "side_levels sd b' = (if level' = [] then bt_remove p ?ls else bt_insert p level' (bt_remove p ?ls))"
    by (simp add: b'_def sl)
  moreover have "sweep_live sw' \<longrightarrow> level' = []" using stop by blast
  ultimately show ?thesis using fl new by blast
qed

section \<open>The sweep\<close>

text \<open>\<open>not_before sd p q\<close>: an order at price \<open>q\<close> on side \<open>sd\<close> does not precede one at price \<open>p\<close>.\<close>

fun not_before :: "order_side \<Rightarrow> int \<Rightarrow> int \<Rightarrow> bool" where
  "not_before Sell p q = (p \<le> q)"
| "not_before Buy p q = (q \<le> p)"

lemma not_before_refl [simp]: "not_before sd p p"
  by (cases sd) simp_all

lemma best_price_not_before:
  assumes "levels_ok sd ls" and "best_price sd ls = Some p" and "e \<in> set ls"
  shows "not_before sd p (fst e)" and "map_of ls p \<noteq> None"
proof -
  have bt: "bt_ok ls" using assms(1) by (simp add: levels_ok_def)
  have "map_of ls (fst e) \<noteq> None" using assms(3) by (simp add: map_of_eq_None_iff)
  then show "not_before sd p (fst e)" "map_of ls p \<noteq> None"
    using assms(2) bt.first_key_Some [OF bt, of p] bt.last_key_Some [OF bt, of p]
    by (cases sd; auto)+
qed

lemma best_price_some: "best_price sd ls = Some p \<Longrightarrow> ls \<noteq> []"
  by (cases sd) (auto simp: bt_first_key_def bt_last_key_def)

definition price_inv :: "order_side \<Rightarrow> order_book \<Rightarrow> execution_report list \<Rightarrow> bool" where
  "price_inv sd b fills \<longleftrightarrow>
     sorted_wrt (not_before sd) (map x_trade_price fills) \<and>
     (\<forall>f \<in> set fills. \<forall>e \<in> set (side_levels sd b). not_before sd (x_trade_price f) (fst e))"

definition sweep_inv :: "order \<Rightarrow> (int \<Rightarrow> bool) \<Rightarrow> order_book \<Rightarrow> order_book \<times> sweep \<Rightarrow> bool" where
  "sweep_inv a lim b0 = (\<lambda>(b, sw).
     map_of (b_order_lookup b0) (o_order_id a) = None \<and>
     wf_book b \<and> sweep_acc a b0 b sw \<and> price_inv (opposite (o_side a)) b (sw_fills sw) \<and>
     (\<forall>f \<in> set (sw_fills sw). lim (x_trade_price f)))"

lemma price_inv_step:
  assumes ok: "levels_ok sd ls" and p: "best_price sd ls = Some p" and inv: "price_inv sd b fills"
    and ls: "side_levels sd b = ls" and new: "\<forall>f \<in> set new. x_trade_price f = p"
    and ls': "side_levels sd b' = (if level = [] then bt_remove p ls else bt_insert p level (bt_remove p ls))"
  shows "price_inv sd b' (fills @ new)"
proof -
  obtain e where "e \<in> set ls" using best_price_some [OF p] by (cases ls) auto
  from best_price_not_before(2) [OF ok p this] obtain v where "(p, v) \<in> set ls"
    using ok by (auto simp: levels_ok_def bt_get_set)
  with inv ls have old: "\<forall>f \<in> set fills. not_before sd (x_trade_price f) p" by (force simp: price_inv_def)
  have keys: "fst e \<in> insert p (fst ` set ls)" if "e \<in> set (side_levels sd b')" for e
    using that by (auto simp: ls' bt_remove_def bt_insert_def split: if_splits)
  have best: "not_before sd p (fst e)" if "e \<in> set (side_levels sd b')" for e
    using keys [OF that] best_price_not_before(1) [OF ok p] by auto
  have prev: "not_before sd (x_trade_price f) (fst e)" if "f \<in> set fills" "e \<in> set (side_levels sd b')" for f e
    using keys [OF that(2)] inv old that(1) by (fastforce simp: price_inv_def ls)
  have "sorted_wrt (not_before sd) (map x_trade_price new)"
    by (rule sorted_wrt_all) (use new in auto)
  then show ?thesis
    using inv old new best prev by (auto simp: price_inv_def sorted_wrt_append)
qed

lemma sweep_step_ok:
  assumes inv: "sweep_inv a lim b0 (b, sw)" and live: "sweep_live sw"
    and p: "best_opposite a b = Some p" and lim: "lim p"
  shows "\<exists>b' sw'. sweep_step a (b, sw) = Some (b', sw') \<and> sweep_inv a lim b0 (b', sw') \<and>
    sweep_meas b' sw' < sweep_meas b sw"
proof -
  let ?sd = "opposite (o_side a)"
  from inv have out: "map_of (b_order_lookup b0) (o_order_id a) = None" and wf: "wf_book b"
    and acc: "sweep_acc a b0 b sw" and pi: "price_inv ?sd b (sw_fills sw)" and lims: "\<forall>f \<in> set (sw_fills sw). lim (x_trade_price f)"
    by (simp_all add: sweep_inv_def)
  from p have bp: "best_price ?sd (side_levels ?sd b) = Some p" by (simp add: best_opposite_def)
  have ok: "levels_ok ?sd (side_levels ?sd b)" using wf by (simp add: wf_book_def wf_levels)
  obtain e where "e \<in> set (side_levels ?sd b)" using best_price_some [OF bp] by (cases "side_levels ?sd b") auto
  from fill_level_ok [OF wf acc live out refl best_price_not_before(2) [OF ok bp this]]
  obtain b' sw' new level' where fl: "fill_level a p (b, sw) = Some (b', sw')" and w': "wf_book b'"
    and acc': "sweep_acc a b0 b' sw'" and m: "sweep_meas b' sw' < sweep_meas b sw"
    and new: "sw_fills sw' = sw_fills sw @ new" "\<forall>f \<in> set new. x_trade_price f = p"
    and sl: "side_levels ?sd b' = (if level' = [] then bt_remove p (side_levels ?sd b)
       else bt_insert p level' (bt_remove p (side_levels ?sd b)))"
    by blast
  have "price_inv ?sd b' (sw_fills sw')"
    unfolding new(1) by (rule price_inv_step [OF ok bp pi refl new(2) sl])
  with out w' acc' lims new lim have "sweep_inv a lim b0 (b', sw')" by (auto simp: sweep_inv_def)
  with m fl p show ?thesis by (simp add: sweep_step_def)
qed

interpretation market_loop: total_loop "\<lambda>(b, sw). sweep_live sw \<and> best_opposite a b \<noteq> None" "sweep_step a"
  "sweep_inv a (\<lambda>_. True) b0" "\<lambda>(b, sw). sweep_meas b sw" for a b0
proof
  fix s :: "order_book \<times> sweep"
  assume "sweep_inv a (\<lambda>_. True) b0 s" and "(\<lambda>(b, sw). sweep_live sw \<and> best_opposite a b \<noteq> None) s"
  then show "\<exists>t. sweep_step a s = Some t \<and> sweep_inv a (\<lambda>_. True) b0 t \<and>
      (\<lambda>(b, sw). sweep_meas b sw) t < (\<lambda>(b, sw). sweep_meas b sw) s"
    using sweep_step_ok [of a "\<lambda>_. True" b0 "fst s" "snd s"] by (cases s) fastforce
qed

interpretation ioc_loop: total_loop
  "\<lambda>(b, sw). sweep_live sw \<and>
     (case best_opposite a b of None \<Rightarrow> False | Some price \<Rightarrow> crosses_limit (o_side a) (o_price a) price)"
  "sweep_step a" "sweep_inv a (crosses_limit (o_side a) (o_price a)) b0" "\<lambda>(b, sw). sweep_meas b sw" for a b0
proof
  fix s :: "order_book \<times> sweep"
  assume "sweep_inv a (crosses_limit (o_side a) (o_price a)) b0 s" and "(\<lambda>(b, sw). sweep_live sw \<and>
     (case best_opposite a b of None \<Rightarrow> False | Some price \<Rightarrow> crosses_limit (o_side a) (o_price a) price)) s"
  then show "\<exists>t. sweep_step a s = Some t \<and> sweep_inv a (crosses_limit (o_side a) (o_price a)) b0 t \<and>
      (\<lambda>(b, sw). sweep_meas b sw) t < (\<lambda>(b, sw). sweep_meas b sw) s"
    using sweep_step_ok [of a "crosses_limit (o_side a) (o_price a)" b0 "fst s" "snd s"]
    by (cases s) (fastforce split: option.splits)
qed

lemma sweep_inv_start:
  "wf_book b \<Longrightarrow> map_of (b_order_lookup b) (o_order_id a) = None \<Longrightarrow>
   sweep_inv a lim b (b, sweep_new a)"
  by (simp add: sweep_inv_def sweep_acc_def sweep_new_def evolves_refl price_inv_def)

end
