(* ===== verification/Fxp_Fok.thy ===== *)
theory Fxp_Fok
  imports Fxp_Sweep
begin

text \<open>
  Fill-or-kill (\<^verbatim>\<open>execute_fok\<close>): the scan of the crossing levels never promises more than the
  sweep reaches, with icebergs and with orders of the same self-trade group in the way. The
  section at the end collects the results on the three kinds of aggressive order.
\<close>

section \<open>The look-ahead of fill-or-kill\<close>

text \<open>
  What an aggressor can take of a list of price levels before it meets an order it must not
  trade with: whole levels while there is no such order, and of the level that has one the
  displayed quantities in front of it, since a refreshed slice queues behind it.
\<close>

definition has_self :: "order \<Rightarrow> order list \<Rightarrow> bool" where
  "has_self a level \<longleftrightarrow> (\<exists>r \<in> set level. self_match a r)"

definition level_reach :: "order \<Rightarrow> order_book \<Rightarrow> order list \<Rightarrow> nat" where
  "level_reach a b level =
     (if has_self a level then sum_list (map (visible b) (takeWhile (\<lambda>x. \<not> self_match a x) level))
      else sum_list (map o_quantity level))"

fun reach :: "order \<Rightarrow> order_book \<Rightarrow> order list list \<Rightarrow> nat" where
  "reach a b [] = 0"
| "reach a b (level # rest) = level_reach a b level + (if has_self a level then 0 else reach a b rest)"

lemma level_reach_Nil [simp]: "level_reach a b [] = 0" "\<not> has_self a []"
  by (simp_all add: level_reach_def has_self_def)

lemma level_reach_cong:
  assumes "\<And>y. y \<in> set level \<Longrightarrow> visible b' y = visible b y"
  shows "level_reach a b' level = level_reach a b level"
proof -
  have "map (visible b') (takeWhile (\<lambda>x. \<not> self_match a x) level) = map (visible b) (takeWhile (\<lambda>x. \<not> self_match a x) level)"
    using assms by (auto dest: set_takeWhileD)
  then show ?thesis unfolding level_reach_def by presburger
qed

lemma reach_cong:
  "(\<And>y. y \<in> set (concat ls) \<Longrightarrow> visible b' y = visible b y) \<Longrightarrow> reach a b' ls = reach a b ls"
proof (induction ls)
  case (Cons level rest)
  have "level_reach a b' level = level_reach a b level"
    using Cons.prems by (intro level_reach_cong) simp
  moreover have "reach a b' rest = reach a b rest"
    using Cons.prems by (intro Cons.IH) simp
  ultimately show ?case by simp
qed simp

text \<open>The scan of \<^verbatim>\<open>execute_fok\<close> finds no more than the reach.\<close>

lemma fok_queue_plain:
  "fok_queue a want False avail (map (\<lambda>x. (x, o_quantity x, visible b x)) level) = (avail', None) \<Longrightarrow>
   avail' \<le> avail + sum_list (map o_quantity level)"
  by (induction level arbitrary: avail) (fastforce split: if_splits)+

lemma fok_queue_self:
  "fok_queue a want True avail (map (\<lambda>x. (x, o_quantity x, visible b x)) level) = (avail', None) \<Longrightarrow>
   has_self a level \<Longrightarrow>
   want \<le> avail' \<and> avail' \<le> avail + sum_list (map (visible b) (takeWhile (\<lambda>x. \<not> self_match a x) level))"
  by (induction level arbitrary: avail) (fastforce simp: has_self_def split: if_splits)+

lemma takeWhile_level:
  assumes "level \<noteq> []" and "\<forall>x \<in> set level. o_price x = p" and "\<forall>x \<in> set rest. o_price x \<noteq> p"
  shows "takeWhile (\<lambda>x. o_price x = o_price (hd level)) (level @ rest) = level"
    and "dropWhile (\<lambda>x. o_price x = o_price (hd level)) (level @ rest) = rest"
proof -
  have "o_price (hd level) = p" using assms(1,2) by (cases level) simp_all
  then show "takeWhile (\<lambda>x. o_price x = o_price (hd level)) (level @ rest) = level"
    and "dropWhile (\<lambda>x. o_price x = o_price (hd level)) (level @ rest) = rest"
    using assms(2,3) by (cases rest; simp add: takeWhile_append2 dropWhile_append2)+
qed

definition levels_apart :: "order list list \<Rightarrow> bool" where
  "levels_apart ls \<longleftrightarrow>
     (\<forall>level \<in> set ls. level \<noteq> [] \<and> (\<exists>p. \<forall>x \<in> set level. o_price x = p)) \<and>
     sorted_wrt (\<lambda>l k. \<forall>x \<in> set l. \<forall>y \<in> set k. o_price x \<noteq> o_price y) ls"

lemma fok_scan_reach:
  "levels_apart ls \<Longrightarrow> fok_scan a b want avail (concat ls) = (avail', None) \<Longrightarrow> want \<le> avail' \<Longrightarrow>
   want \<le> avail + reach a b ls"
proof (induction ls arbitrary: avail)
  case Nil
  then show ?case by (simp add: fok_scan.simps split: if_splits)
next
  case (Cons level ls)
  show ?case
  proof (cases "avail < want")
    case True
    from Cons.prems(1) have ne: "level \<noteq> []" and "\<exists>p. \<forall>x \<in> set level. o_price x = p"
      and rest: "levels_apart ls" and apart: "\<forall>x \<in> set level. \<forall>y \<in> set (concat ls). o_price x \<noteq> o_price y"
      by (auto simp: levels_apart_def)
    then obtain p where p: "\<forall>x \<in> set level. o_price x = p" by blast
    have other: "\<forall>x \<in> set (concat ls). o_price x \<noteq> p"
      using ne p apart by (metis hd_in_set)
    note tw = takeWhile_level [OF ne p other]
    obtain x xs where level: "level = x # xs" using ne by (cases level) auto
    obtain av r where q: "fok_queue a want (has_self a level) avail (map (\<lambda>x. (x, o_quantity x, visible b x)) level) = (av, r)"
      by fastforce
    have first: "concat (level # ls) = x # (xs @ concat ls)" by (simp add: level)
    have tw': "takeWhile (\<lambda>y. o_price y = o_price x) (x # xs @ concat ls) = level"
      "dropWhile (\<lambda>y. o_price y = o_price x) (x # xs @ concat ls) = concat ls"
      using tw by (simp_all add: level)
    have scan: "fok_scan a b want avail (concat (level # ls)) =
        (case r of Some oid \<Rightarrow> (av, Some oid) | None \<Rightarrow> fok_scan a b want av (concat ls))"
      unfolding first
      by (subst fok_scan.simps)
        (simp only: True if_True list.case Let_def tw' q [unfolded has_self_def] prod.case)
    with Cons.prems(2) have r: "r = None" and next_scan: "fok_scan a b want av (concat ls) = (avail', None)"
      by (cases r; simp)+
    show ?thesis
    proof (cases "has_self a level")
      case True
      with q r fok_queue_self [of a want avail b level av] show ?thesis by (simp add: level_reach_def)
    next
      case False
      with q r fok_queue_plain [of a want avail b level av] have "av \<le> avail + level_reach a b level"
        by (simp add: level_reach_def)
      with Cons.IH [OF rest next_scan Cons.prems(3)] False show ?thesis by simp
    qed
  next
    case False
    then show ?thesis by simp
  qed
qed

text \<open>A turn of the level loop keeps the remaining quantity within reach.\<close>

definition within :: "order \<Rightarrow> order list list \<Rightarrow> order_book \<times> order list \<times> sweep \<Rightarrow> bool" where
  "within a rest = (\<lambda>(b, level, sw). \<not> sw_stopped sw \<and> sw_remaining sw \<le> reach a b (level # rest))"

lemma sum_alive: "sum_list (map o_quantity (alive x)) = o_quantity x"
  by (simp add: alive_def)

lemma has_self_simps:
  "has_self a (x # xs) \<longleftrightarrow> self_match a x \<or> has_self a xs" "has_self a (xs @ ys) \<longleftrightarrow> has_self a xs \<or> has_self a ys"
  by (auto simp: has_self_def)

lemma has_self_alive: "has_self a (alive (x\<lparr>o_quantity := q\<rparr>)) \<Longrightarrow> self_match a x"
  by (auto simp: has_self_def alive_def split: if_splits)

lemma within_fill:
  assumes inv: "level_inv sd p b (tp # level)" and pos: "0 < sw_remaining sw" and ns: "\<not> self_match a tp"
    and res: "level_fill a p tp (b, level, sw) = (b', level', sw')"
    and rem: "sw_remaining sw' = sw_remaining sw - min (visible b tp) (sw_remaining sw)"
    and stop: "sw_stopped sw' = sw_stopped sw"
    and rest: "\<And>y. y \<in> set (concat rest) \<Longrightarrow> visible b' y = visible b y"
    and I: "within a rest (b, tp # level, sw)"
  shows "within a rest (b', level', sw')"
proof -
  define t where "t = min (visible b tp) (sw_remaining sw)"
  define tp' where "tp' = tp\<lparr>o_quantity := o_quantity tp - t\<rparr>"
  note k = level_fill_inv [OF inv t_def tp'_def res]
  have vis: "vis_ok b tp" using inv by (simp add: level_inv_def)
  have tq: "t \<le> o_quantity tp" using vis_visible [OF vis] by (auto simp: t_def)
  have rr: "reach a b' rest = reach a b rest" by (rule reach_cong) (rule rest)
  have ns': "\<not> self_match a tp'" using ns by (simp add: tp'_def)
  show ?thesis
  proof (cases "has_self a (tp # level)")
    case False
    then have hs: "\<not> has_self a level" "\<not> has_self a level'"
      using k(3) ns' has_self_alive [of a "o_quantity tp - t" tp] ns
      by (auto simp: has_self_simps tp'_def)
    have "sum_list (map o_quantity level') = o_quantity tp - t + sum_list (map o_quantity level)"
      using k(3) by (auto simp: sum_alive tp'_def)
    with I False hs rem stop rr tq show ?thesis
      by (simp add: within_def level_reach_def t_def [symmetric]) linarith
  next
    case True
    with ns have hs: "has_self a level" by (simp add: has_self_simps)
    show ?thesis
    proof (cases "t = sw_remaining sw")
      case True
      with I rem stop show ?thesis by (simp add: within_def t_def [symmetric])
    next
      case False
      then have tv: "t = visible b tp" by (auto simp: t_def min_def split: if_splits)
      with k(3) have level': "level' = level \<or> level' = level @ [tp']" by (auto simp: alive_def)
      have tw: "takeWhile (\<lambda>x. \<not> self_match a x) (level @ [tp']) = takeWhile (\<lambda>x. \<not> self_match a x) level"
        using hs by (auto simp: has_self_def)
      have "level_reach a b' level' = level_reach a b' level"
        using level' hs tw by (auto simp: level_reach_def has_self_simps)
      also have "\<dots> = level_reach a b level" by (rule level_reach_cong) (rule k(4))
      finally have "level_reach a b (tp # level) = t + level_reach a b' level'"
        using hs ns tv by (simp add: level_reach_def has_self_simps)
      moreover have "has_self a level'" using level' hs by (auto simp: has_self_simps)
      ultimately show ?thesis using I rem stop True by (simp add: within_def t_def [symmetric]) linarith
    qed
  qed
qed

lemma within_no_self: "within a rest (b, tp # level, sw) \<Longrightarrow> 0 < sw_remaining sw \<Longrightarrow> \<not> self_match a tp"
  by (auto simp: within_def level_reach_def has_self_simps)

lemma level_fill_only:
  assumes inv: "level_inv sd p b (tp # level)" and res: "level_fill a p tp (b, level, sw) = (b', level', sw')"
    and y: "y \<in> set (queue sd' b)"
  shows "visible b' y = visible b y"
proof -
  from inv have w: "wf_with b (tp # level)" and vis: "vis_ok b tp" by (simp_all add: level_inv_def)
  define t where "t = min (visible b tp) (sw_remaining sw)"
  define tp' where "tp' = tp\<lparr>o_quantity := o_quantity tp - t\<rparr>"
  define b1 where "b1 = sync_visible_fill tp' t (visible b tp - t) b"
  have "t \<le> o_quantity tp" using vis_visible [OF vis] by (auto simp: t_def)
  note shape = level_fill_shape [OF this t_def tp'_def b1_def res]
  have "only (o_order_id tp) b b1" "only (o_order_id tp) b1 (fst (replenish tp' b1))"
    using only_sync [of tp'] only_replenish [of tp'] by (simp_all add: b1_def tp'_def)
  from only_other(2) [OF only_trans [OF this], of y] wf_inflight_fresh [OF w, of y sd'] y
  show ?thesis by (simp add: same_book_simps [OF shape(1)])
qed

text \<open>The levels behind the one in flight, as they stand in the book, with no self-trade event added.\<close>

definition rest_ok :: "order \<Rightarrow> order list list \<Rightarrow> stp_outcome \<Rightarrow> order_book \<Rightarrow> bool" where
  "rest_ok a rest st b \<longleftrightarrow> set (concat rest) \<subseteq> set (queue (opposite (o_side a)) b) \<and> b_stp b = st"

interpretation fok_level: total_loop "\<lambda>(_, level, sw). sweep_live sw \<and> level \<noteq> []" "level_step a p"
  "\<lambda>s. map_of (b_order_lookup b0) (o_order_id a) = None \<and> lvl_inv a p b0 L F m s \<and> within a rest s \<and> rest_ok a rest st (fst s)"
  "\<lambda>(b, _, sw). sweep_meas b sw"
  for a p b0 L F m rest st
proof
  fix s :: level_state
  assume inv: "map_of (b_order_lookup b0) (o_order_id a) = None \<and> lvl_inv a p b0 L F m s \<and> within a rest s \<and> rest_ok a rest st (fst s)"
    and guard: "(\<lambda>(_, level, sw). sweep_live sw \<and> level \<noteq> []) s"
  from guard obtain b tp level sw where s: "s = (b, tp # level, sw)" and live: "sweep_live sw"
    by (cases s) (auto simp: neq_Nil_conv)
  have li: "level_inv (opposite (o_side a)) p b (tp # level)" using inv by (simp add: s lvl_inv_def)
  have pos: "0 < sw_remaining sw" using live by (simp add: sweep_live_def)
  have ns: "\<not> self_match a tp" using within_no_self [OF _ pos] inv s by blast
  from level_step_ok [of a p b0 L F m b tp level sw] inv live s obtain t where
    step: "level_step a p s = Some t" and inv': "lvl_inv a p b0 L F m t"
    and less: "sweep_meas (fst t) (snd (snd t)) < sweep_meas b sw"
    by auto
  obtain b' level' sw' where t: "t = (b', level', sw')" by (cases t)
  with step s ns have res: "level_fill a p tp (b, level, sw) = (b', level', sw')" by simp
  have "vis_ok b tp" using li by (simp add: level_inv_def)
  from vis_visible [OF this] have "min (visible b tp) (sw_remaining sw) \<le> o_quantity tp" by (simp add: min_le_iff_disj)
  note shape = level_fill_shape [OF this refl refl refl res]
  have "queue sd b' = queue sd b" for sd
    using level_fill_inv(2) [OF li refl refl res] by (simp add: queue_def)
  then have rest': "rest_ok a rest st b'" using inv shape(2) by (simp add: s rest_ok_def)
  have "within a rest t"
    unfolding t
    by (rule within_fill [OF li pos ns res shape(4,5)])
      (use inv level_fill_only [OF li res] in \<open>auto simp: s rest_ok_def\<close>)
  with inv inv' rest' step less show
    "\<exists>t. level_step a p s = Some t \<and>
      (map_of (b_order_lookup b0) (o_order_id a) = None \<and> lvl_inv a p b0 L F m t \<and> within a rest t \<and> rest_ok a rest st (fst t)) \<and>
      (\<lambda>(b, _, sw). sweep_meas b sw) t < (\<lambda>(b, _, sw). sweep_meas b sw) s"
    by (auto simp: s t)
qed

text \<open>The levels inside the limit of an order, in the order the sweep meets them.\<close>

definition cross_levels :: "order \<Rightarrow> levels \<Rightarrow> order list list" where
  "cross_levels a ls =
     map snd (filter (\<lambda>e. crosses_limit (o_side a) (o_price a) (fst e)) (if o_side a = Buy then ls else rev ls))"

lemma crossing_concat: "crossing_orders a b = concat (cross_levels a (side_levels (opposite (o_side a)) b))"
  by (cases "o_side a") (simp_all add: crossing_orders_def cross_levels_def rev_filter)

lemma cross_levels_apart:
  assumes "levels_ok (opposite (o_side a)) ls"
  shows "levels_apart (cross_levels a ls)"
proof -
  let ?es = "filter (\<lambda>e. crosses_limit (o_side a) (o_price a) (fst e)) (if o_side a = Buy then ls else rev ls)"
  have dist: "distinct (map fst ?es)"
    using bt_ok_distinct [of ls] assms by (auto simp: levels_ok_def distinct_map_filter simp flip: rev_map)
  have ok: "snd e \<noteq> [] \<and> (\<forall>x \<in> set (snd e). o_price x = fst e)" if "e \<in> set ?es" for e
    using that assms by (auto simp: levels_ok_def level_ok_def split: if_splits)
  have "sorted_wrt (\<lambda>d e. \<forall>x \<in> set (snd d). \<forall>y \<in> set (snd e). o_price x \<noteq> o_price y) es"
    if "distinct (map fst es)" "\<forall>e \<in> set es. \<forall>x \<in> set (snd e). o_price x = fst e" for es :: levels
    using that by (induction es) force+
  with dist ok have "sorted_wrt (\<lambda>d e. \<forall>x \<in> set (snd d). \<forall>y \<in> set (snd e). o_price x \<noteq> o_price y) ?es" by blast
  with ok show ?thesis
    unfolding levels_apart_def cross_levels_def by (auto simp: sorted_wrt_map)
qed

text \<open>The best level comes first; removing it leaves the others.\<close>

lemma cross_levels_best:
  assumes ok: "levels_ok sd ls" and sd: "sd = opposite (o_side a)" and p: "best_price sd ls = Some p"
    and cr: "crosses_limit (o_side a) (o_price a) p"
  shows "cross_levels a ls = level_of ls p # cross_levels a (bt_remove p ls)"
proof -
  have bt: "bt_ok ls" using ok by (simp add: levels_ok_def)
  show ?thesis
  proof (cases "o_side a")
    case Buy
    with p sd obtain v rest where ls: "ls = (p, v) # rest" by (cases ls) (auto simp: bt_first_key_def)
    with bt have "filter (\<lambda>e. fst e \<noteq> p) rest = rest" by (force simp: bt_ok_Cons filter_id_conv)
    with ls Buy cr show ?thesis by (simp add: cross_levels_def level_of_def bt_remove_def)
  next
    case Sell
    with p sd have "ls \<noteq> []" by (auto simp: bt_last_key_def)
    with p sd Sell obtain v rest where ls: "ls = rest @ [(p, v)]"
      by (cases ls rule: rev_cases) (auto simp: bt_last_key_def)
    with bt have "filter (\<lambda>e. fst e \<noteq> p) rest = rest" "map_of rest p = None"
      by (force simp: bt_ok_append filter_id_conv map_of_eq_None_iff)+
    with ls Sell cr show ?thesis by (simp add: cross_levels_def level_of_def bt_remove_def map_add_def)
  qed
qed

lemma cross_levels_none:
  assumes ok: "levels_ok sd ls" and sd: "sd = opposite (o_side a)"
    and p: "\<And>p. best_price sd ls = Some p \<Longrightarrow> \<not> crosses_limit (o_side a) (o_price a) p"
  shows "cross_levels a ls = []"
proof (cases "best_price sd ls")
  case None
  then show ?thesis by (cases sd) (auto simp: cross_levels_def bt_first_key_def bt_last_key_def split: list.splits if_splits)
next
  case (Some q)
  have "\<not> crosses_limit (o_side a) (o_price a) (fst e)" if "e \<in> set ls" for e
    using p [OF Some] best_price_not_before(1) [OF ok Some that] sd by (cases "o_side a") auto
  then show ?thesis by (auto simp: cross_levels_def filter_empty_conv)
qed

lemma wf_book_levels: "wf_book b \<Longrightarrow> levels_ok sd (side_levels sd b)"
  unfolding wf_book_def by (rule wf_levels)

lemma cross_levels_flat: "set (concat (cross_levels a ls)) \<subseteq> set (flat sd ls)"
proof
  fix x
  assume "x \<in> set (concat (cross_levels a ls))"
  then obtain e where "e \<in> set ls" "x \<in> set (snd e)"
    by (force simp: cross_levels_def split: if_splits)
  then show "x \<in> set (flat sd ls)" by (auto simp: flat_elem)
qed

definition fok_inv :: "order \<Rightarrow> order_book \<Rightarrow> order_book \<times> sweep \<Rightarrow> bool" where
  "fok_inv a b0 = (\<lambda>(b, sw).
     sweep_inv a (crosses_limit (o_side a) (o_price a)) b0 (b, sw) \<and> \<not> sw_stopped sw \<and>
     sw_remaining sw \<le> reach a b (cross_levels a (side_levels (opposite (o_side a)) b)) \<and> b_stp b = b_stp b0)"

lemma fill_level_within:
  assumes inv: "fok_inv a b0 (b, sw)" and p: "best_opposite a b = Some p"
    and cr: "crosses_limit (o_side a) (o_price a) p" and fl: "fill_level a p (b, sw) = Some (b', sw')"
  shows "\<not> sw_stopped sw'" and "sw_remaining sw' \<le> reach a b' (cross_levels a (side_levels (opposite (o_side a)) b'))"
    and "b_stp b' = b_stp b0"
proof -
  let ?sd = "opposite (o_side a)"
  let ?ls = "side_levels ?sd b" and ?b1 = "set_levels ?sd (bt_remove p (side_levels ?sd b)) b"
  define rest where "rest = cross_levels a (bt_remove p ?ls)"
  from inv have out: "map_of (b_order_lookup b0) (o_order_id a) = None" and wf: "wf_book b"
    and acc: "sweep_acc a b0 b sw" and ns: "\<not> sw_stopped sw" and r: "sw_remaining sw \<le> reach a b (cross_levels a ?ls)"
    and st: "b_stp b = b_stp b0"
    by (simp_all add: fok_inv_def sweep_inv_def)
  have ok: "levels_ok ?sd ?ls" using wf by (simp add: wf_book_def wf_levels)
  have bp: "best_price ?sd ?ls = Some p" using p by (simp add: best_opposite_def)
  have vis: "reach a ?b1 ls = reach a b ls" for ls by (rule reach_cong) simp
  from fl obtain b2 level' where
    loop: "loop_while (\<lambda>(_, level, sw). sweep_live sw \<and> level \<noteq> []) (level_step a p) (?b1, level_of ?ls p, sw) = Some (b2, level', sw')"
    and b': "b' = (if level' \<noteq> [] then set_levels ?sd (bt_insert p level' (side_levels ?sd b2)) b2 else b2)"
    by (auto simp: fill_level_def Let_def split: bind_splits)
  have "within a rest (?b1, level_of ?ls p, sw)"
    using r ns cross_levels_best [OF ok refl bp cr] vis [of "level_of ?ls p # rest"]
    by (simp add: within_def rest_def)
  moreover have "rest_ok a rest (b_stp b0) ?b1"
    using cross_levels_flat st by (simp add: rest_ok_def rest_def)
  ultimately have s: "map_of (b_order_lookup b0) (o_order_id a) = None \<and>
      lvl_inv a p b0 (\<lambda>sd'. side_levels sd' ?b1) (sw_fills sw) (sweep_meas b sw) (?b1, level_of ?ls p, sw) \<and>
      within a rest (?b1, level_of ?ls p, sw) \<and> rest_ok a rest (b_stp b0) (fst (?b1, level_of ?ls p, sw))"
    using out lvl_inv_start(1) [OF wf acc refl, of p] by simp
  from fok_level.result [OF loop s]
  have inv2: "lvl_inv a p b0 (\<lambda>sd'. side_levels sd' ?b1) (sw_fills sw) (sweep_meas b sw) (b2, level', sw')"
    and w2: "within a rest (b2, level', sw')" and stop: "\<not> (sweep_live sw' \<and> level' \<noteq> [])"
    and st2: "b_stp b2 = b_stp b0"
    by (simp_all add: rest_ok_def)
  from st2 show "b_stp b' = b_stp b0" by (simp add: b')
  from w2 show "\<not> sw_stopped sw'" by (simp add: within_def)
  show "sw_remaining sw' \<le> reach a b' (cross_levels a (side_levels ?sd b'))"
  proof (cases "level' = []")
    case True
    moreover from inv2 have "side_levels ?sd b2 = bt_remove p ?ls" by (simp add: lvl_inv_def)
    ultimately show ?thesis using w2 by (simp add: b' within_def rest_def)
  next
    case False
    with stop w2 show ?thesis by (simp add: within_def sweep_live_def)
  qed
qed

interpretation fok_loop: total_loop
  "\<lambda>(b, sw). sweep_live sw \<and>
     (case best_opposite a b of None \<Rightarrow> False | Some price \<Rightarrow> crosses_limit (o_side a) (o_price a) price)"
  "sweep_step a" "fok_inv a b0" "\<lambda>(b, sw). sweep_meas b sw" for a b0
proof
  fix s :: "order_book \<times> sweep"
  assume inv: "fok_inv a b0 s" and guard: "(\<lambda>(b, sw). sweep_live sw \<and>
     (case best_opposite a b of None \<Rightarrow> False | Some price \<Rightarrow> crosses_limit (o_side a) (o_price a) price)) s"
  obtain b sw where s: "s = (b, sw)" by (cases s)
  with guard obtain p where live: "sweep_live sw" and p: "best_opposite a b = Some p"
    and cr: "crosses_limit (o_side a) (o_price a) p"
    by (auto split: option.splits)
  have "sweep_inv a (crosses_limit (o_side a) (o_price a)) b0 (b, sw)" using inv by (simp add: s fok_inv_def)
  from sweep_step_ok [OF this live p cr] obtain b' sw' where step: "sweep_step a (b, sw) = Some (b', sw')"
    and inv': "sweep_inv a (crosses_limit (o_side a) (o_price a)) b0 (b', sw')"
    and m: "sweep_meas b' sw' < sweep_meas b sw"
    by blast
  from step p have "fill_level a p (b, sw) = Some (b', sw')" by (simp add: sweep_step_def)
  from fill_level_within [OF inv [unfolded s] p cr this] inv' step m
  show "\<exists>t. sweep_step a s = Some t \<and> fok_inv a b0 t \<and> (\<lambda>(b, sw). sweep_meas b sw) t < (\<lambda>(b, sw). sweep_meas b sw) s"
    by (auto simp: s fok_inv_def)
qed

section \<open>The aggressive orders\<close>

lemma execute_market_ok:
  assumes wf: "wf_book b" and out: "map_of (b_order_lookup b) (o_order_id a) = None"
  shows "\<exists>b' sw. execute_market a b = Some (b', sweep_finish sw) \<and>
    sweep_inv a (\<lambda>_. True) b (b', sw) \<and> (sweep_live sw \<longrightarrow> side_levels (opposite (o_side a)) b' = [])"
proof -
  from market_loop.returns [OF sweep_inv_start [OF wf out]] obtain b' sw where
    loop: "loop_while (\<lambda>(b, sw). sweep_live sw \<and> best_opposite a b \<noteq> None) (sweep_step a) (b, sweep_new a) = Some (b', sw)"
    and inv: "sweep_inv a (\<lambda>_. True) b (b', sw)" and stop: "\<not> (sweep_live sw \<and> best_opposite a b' \<noteq> None)"
    by auto
  have "side_levels (opposite (o_side a)) b' = []" if "best_opposite a b' = None"
    using that by (cases "o_side a") (auto simp: best_opposite_def bt_first_key_def bt_last_key_def split: list.splits if_splits)
  with loop inv stop show ?thesis
    by (intro exI [of _ b'] exI [of _ sw]) (auto simp: execute_market_def)
qed

lemma execute_ioc_ok:
  assumes wf: "wf_book b" and out: "map_of (b_order_lookup b) (o_order_id a) = None"
  shows "\<exists>b' sw. execute_ioc a b = Some (b', sweep_finish sw) \<and>
    sweep_inv a (crosses_limit (o_side a) (o_price a)) b (b', sw) \<and>
    (sweep_live sw \<longrightarrow> cross_levels a (side_levels (opposite (o_side a)) b') = [])"
proof -
  let ?sd = "opposite (o_side a)"
  from ioc_loop.returns [OF sweep_inv_start [OF wf out]] obtain b' sw where
    loop: "loop_while (\<lambda>(b, sw). sweep_live sw \<and>
       (case best_opposite a b of None \<Rightarrow> False | Some price \<Rightarrow> crosses_limit (o_side a) (o_price a) price))
       (sweep_step a) (b, sweep_new a) = Some (b', sw)"
    and inv: "sweep_inv a (crosses_limit (o_side a) (o_price a)) b (b', sw)"
    and stop: "\<not> (sweep_live sw \<and>
       (case best_opposite a b' of None \<Rightarrow> False | Some price \<Rightarrow> crosses_limit (o_side a) (o_price a) price))"
    by auto
  have ok: "levels_ok ?sd (side_levels ?sd b')" using inv wf_book_levels by (simp add: sweep_inv_def)
  have "cross_levels a (side_levels ?sd b') = []" if "sweep_live sw"
    by (rule cross_levels_none [OF ok refl]) (use stop that in \<open>auto simp: best_opposite_def\<close>)
  with loop inv show ?thesis
    by (intro exI [of _ b'] exI [of _ sw]) (auto simp: execute_ioc_def)
qed

text \<open>When the reach covers the order, the sweep fills it completely.\<close>

lemma execute_ioc_full:
  assumes wf: "wf_book b" and out: "map_of (b_order_lookup b) (o_order_id a) = None"
    and r: "o_quantity a \<le> reach a b (cross_levels a (side_levels (opposite (o_side a)) b))"
    and res: "execute_ioc a b = Some (b', res)"
  shows "ag_unfilled_qty res = 0" and "\<not> ag_stp_canceled res" and "b_stp b' = b_stp b"
proof -
  let ?sd = "opposite (o_side a)"
  from res obtain sw where
    loop: "loop_while (\<lambda>(b, sw). sweep_live sw \<and>
       (case best_opposite a b of None \<Rightarrow> False | Some price \<Rightarrow> crosses_limit (o_side a) (o_price a) price))
       (sweep_step a) (b, sweep_new a) = Some (b', sw)" and fin: "res = sweep_finish sw"
    by (auto simp: execute_ioc_def split: bind_splits)
  have "fok_inv a b (b, sweep_new a)"
    using sweep_inv_start [OF wf out] r by (simp add: fok_inv_def sweep_new_def)
  from fok_loop.result [OF loop this] have inv: "fok_inv a b (b', sw)" and stop: "\<not> (sweep_live sw \<and>
       (case best_opposite a b' of None \<Rightarrow> False | Some price \<Rightarrow> crosses_limit (o_side a) (o_price a) price))"
    by simp_all
  have ok: "levels_ok ?sd (side_levels ?sd b')" using inv wf_book_levels by (simp add: fok_inv_def sweep_inv_def)
  have ns: "\<not> sw_stopped sw" and le: "sw_remaining sw \<le> reach a b' (cross_levels a (side_levels ?sd b'))"
    using inv by (simp_all add: fok_inv_def)
  have "sw_remaining sw = 0"
  proof (cases "sweep_live sw")
    case True
    have "cross_levels a (side_levels ?sd b') = []"
      by (rule cross_levels_none [OF ok refl]) (use stop True in \<open>auto simp: best_opposite_def\<close>)
    with le show ?thesis by simp
  qed (use ns in \<open>simp add: sweep_live_def\<close>)
  with ns show "ag_unfilled_qty res = 0" "\<not> ag_stp_canceled res" by (simp_all add: fin sweep_finish_def)
  show "b_stp b' = b_stp b" using inv by (simp add: fok_inv_def)
qed

section \<open>What the scan says when it kills the order\<close>

lemma fok_queue_short:
  "fok_queue a want hs avail (map (\<lambda>x. (x, o_quantity x, visible b x)) level) = (avail', None) \<Longrightarrow> avail' < want \<Longrightarrow>
   \<not> has_self a level \<and> (\<not> hs \<longrightarrow> avail' = avail + sum_list (map o_quantity level))"
  by (induction level arbitrary: avail) (fastforce simp: has_self_simps split: if_splits)+

lemma fok_queue_opposing:
  "fok_queue a want hs avail (map (\<lambda>x. (x, o_quantity x, visible b x)) level) = (avail', Some oid) \<Longrightarrow>
   \<exists>x \<in> set level. self_match a x \<and> o_order_id x = oid"
  by (induction level arbitrary: avail) (auto split: if_splits)

lemma fok_scan_Cons:
  assumes "avail < want" and "xs = y # ys"
  shows "\<exists>level rest. xs = level @ rest \<and> length rest < length xs \<and>
    fok_scan a b want avail xs =
      (case fok_queue a want (has_self a level) avail (map (\<lambda>x. (x, o_quantity x, visible b x)) level) of
         (av, Some oid) \<Rightarrow> (av, Some oid)
       | (av, None) \<Rightarrow> fok_scan a b want av rest)"
proof (intro exI conjI)
  let ?same = "\<lambda>x. o_price x = o_price y"
  show "xs = takeWhile ?same xs @ dropWhile ?same xs" by simp
  show "length (dropWhile ?same xs) < length xs"
    using assms by (simp add: less_Suc_eq_le length_dropWhile_le)
  show "fok_scan a b want avail xs =
      (case fok_queue a want (has_self a (takeWhile ?same xs)) avail
              (map (\<lambda>x. (x, o_quantity x, visible b x)) (takeWhile ?same xs)) of
         (av, Some oid) \<Rightarrow> (av, Some oid)
       | (av, None) \<Rightarrow> fok_scan a b want av (dropWhile ?same xs))"
    using assms(1) by (subst fok_scan.simps) (simp only: assms(2) if_True list.case Let_def has_self_def)
qed

lemma fok_scan_short:
  "fok_scan a b want avail xs = (avail', None) \<Longrightarrow> avail' < want \<Longrightarrow>
   avail' = avail + sum_list (map o_quantity xs)"
proof (induction xs arbitrary: avail rule: length_induct)
  case (1 xs)
  show ?case
  proof (cases "avail < want \<and> xs \<noteq> []")
    case False
    then consider "\<not> avail < want" | "xs = []" by blast
    then show ?thesis
      by cases (use "1.prems" fok_scan.simps [of a b want avail xs] in \<open>simp_all split: if_splits\<close>)
  next
    case True
    then obtain y ys where "avail < want" and "xs = y # ys" by (cases xs) auto
    from fok_scan_Cons [OF this, of a b] obtain level rest where xs: "xs = level @ rest" and len: "length rest < length xs"
      and scan: "fok_scan a b want avail xs =
      (case fok_queue a want (has_self a level) avail (map (\<lambda>x. (x, o_quantity x, visible b x)) level) of
         (av, Some oid) \<Rightarrow> (av, Some oid)
       | (av, None) \<Rightarrow> fok_scan a b want av rest)"
      by blast
    from scan "1.prems"(1) obtain av where
      q: "fok_queue a want (has_self a level) avail (map (\<lambda>x. (x, o_quantity x, visible b x)) level) = (av, None)"
      and rec: "fok_scan a b want av rest = (avail', None)"
      by (auto split: prod.splits option.splits)
    from "1.IH" len rec "1.prems"(2) have sum: "avail' = av + sum_list (map o_quantity rest)" by blast
    with "1.prems"(2) have "av < want" by linarith
    with fok_queue_short [OF q] sum show ?thesis by (simp add: xs)
  qed
qed

lemma fok_scan_self:
  "fok_scan a b want avail xs = (avail', Some oid) \<Longrightarrow> \<exists>x \<in> set xs. self_match a x \<and> o_order_id x = oid"
proof (induction xs arbitrary: avail rule: length_induct)
  case (1 xs)
  have lt: "avail < want" by (rule ccontr) (use "1.prems" in \<open>simp add: fok_scan.simps\<close>)
  obtain y ys where "xs = y # ys" by (cases xs) (use "1.prems" lt in \<open>auto simp: fok_scan.simps [of a b want avail "[]"]\<close>)
  from fok_scan_Cons [OF lt this, of a b] obtain level rest where xs: "xs = level @ rest" and len: "length rest < length xs"
    and scan: "fok_scan a b want avail xs =
      (case fok_queue a want (has_self a level) avail (map (\<lambda>x. (x, o_quantity x, visible b x)) level) of
         (av, Some oid) \<Rightarrow> (av, Some oid)
       | (av, None) \<Rightarrow> fok_scan a b want av rest)"
    by blast
  obtain av r where
    q: "fok_queue a want (has_self a level) avail (map (\<lambda>x. (x, o_quantity x, visible b x)) level) = (av, r)"
    by fastforce
  show ?case
  proof (cases r)
    case None
    with scan q "1.prems" have "fok_scan a b want av rest = (avail', Some oid)" by simp
    with "1.IH" len have "\<exists>x \<in> set rest. self_match a x \<and> o_order_id x = oid" by blast
    then show ?thesis by (auto simp: xs)
  next
    case (Some i)
    with scan q "1.prems" have "i = oid" by simp
    with fok_queue_opposing [OF q [unfolded Some]] show ?thesis by (auto simp: xs)
  qed
qed

section \<open>Properties\<close>

definition sample_taker :: "order_type \<Rightarrow> time_in_force \<Rightarrow> nat \<Rightarrow> order" where
  "sample_taker ty tif q =
     (sample_order ''T1'' ''carol'' Sell 99 q 0)\<lparr>o_order_type := ty, o_time_in_force := tif\<rparr>"

lemma sample_taker_fresh: "map_of (b_order_lookup sample_book) (o_order_id (sample_taker ty tif q)) = None"
  by (simp add: sample_taker_def sample_order_def sample_lookup)

lemma sample_book_stp: "b_stp sample_book = stp_outcome_default"
proof -
  have "b_stp (fst (add_order x b)) = b_stp b" for x b by (simp add: add_order_def Let_def)
  then show ?thesis by (simp add: sample_book_def book_new_def)
qed

text \<open>
  C9. A market order returns on every well-formed book. It trades only with orders of the other
  side that self-trade prevention allows, each at the price of the resting order, the best
  prices first; what it does not trade it does not keep, and unless self-trade prevention
  stopped it an unfilled remainder means that the other side is empty.
\<close>

theorem execute_market_correct:
  assumes "wf_book b" and "map_of (b_order_lookup b) (o_order_id a) = None"
  shows "\<exists>b' res. execute_market a b = Some (b', res) \<and> wf_book b' \<and>
    (\<forall>f \<in> set (ag_fills res). sweep_fill_ok a b f) \<and>
    sorted_wrt (not_before (opposite (o_side a))) (map x_trade_price (ag_fills res)) \<and>
    traded (ag_fills res) (o_order_id a) + ag_unfilled_qty res \<le> o_quantity a \<and>
    (o_order_id a \<notin> stp_ids b' \<longrightarrow> traded (ag_fills res) (o_order_id a) + ag_unfilled_qty res = o_quantity a) \<and>
    (0 < ag_unfilled_qty res \<longrightarrow> side_levels (opposite (o_side a)) b' = []) \<and> \<not> ag_rest_on_book res"
proof -
  from execute_market_ok [OF assms] obtain b' sw where "execute_market a b = Some (b', sweep_finish sw)"
    "sweep_inv a (\<lambda>_. True) b (b', sw)" "sweep_live sw \<longrightarrow> side_levels (opposite (o_side a)) b' = []" by blast
  then show ?thesis
    by (intro exI [of _ b'] exI [of _ "sweep_finish sw"])
      (auto simp: sweep_inv_def sweep_acc_def price_inv_def sweep_finish_def sweep_live_def)
qed

theorem execute_market_correct_witness:
  "let a = sample_taker Market IOC 4; b = sample_book in
   \<exists>b' res. execute_market a b = Some (b', res) \<and> wf_book b' \<and>
    (\<forall>f \<in> set (ag_fills res). sweep_fill_ok a b f) \<and>
    sorted_wrt (not_before (opposite (o_side a))) (map x_trade_price (ag_fills res)) \<and>
    traded (ag_fills res) (o_order_id a) + ag_unfilled_qty res \<le> o_quantity a \<and>
    (o_order_id a \<notin> stp_ids b' \<longrightarrow> traded (ag_fills res) (o_order_id a) + ag_unfilled_qty res = o_quantity a) \<and>
    (0 < ag_unfilled_qty res \<longrightarrow> side_levels (opposite (o_side a)) b' = []) \<and> \<not> ag_rest_on_book res"
  unfolding Let_def by (rule execute_market_correct [OF wf_sample_book sample_taker_fresh])

text \<open>
  C10. An immediate-or-cancel order returns on every well-formed book, never trades through its
  limit and leaves no crossing order behind when it has a remainder.
\<close>

theorem execute_ioc_correct:
  assumes "wf_book b" and "map_of (b_order_lookup b) (o_order_id a) = None"
  shows "\<exists>b' res. execute_ioc a b = Some (b', res) \<and> wf_book b' \<and>
    (\<forall>f \<in> set (ag_fills res). sweep_fill_ok a b f \<and> crosses_limit (o_side a) (o_price a) (x_trade_price f)) \<and>
    traded (ag_fills res) (o_order_id a) + ag_unfilled_qty res \<le> o_quantity a \<and>
    (o_order_id a \<notin> stp_ids b' \<longrightarrow> traded (ag_fills res) (o_order_id a) + ag_unfilled_qty res = o_quantity a) \<and>
    (0 < ag_unfilled_qty res \<longrightarrow> crossing_orders a b' = []) \<and> \<not> ag_rest_on_book res"
proof -
  from execute_ioc_ok [OF assms] obtain b' sw where "execute_ioc a b = Some (b', sweep_finish sw)"
    "sweep_inv a (crosses_limit (o_side a) (o_price a)) b (b', sw)"
    "sweep_live sw \<longrightarrow> cross_levels a (side_levels (opposite (o_side a)) b') = []" by blast
  then show ?thesis
    by (intro exI [of _ b'] exI [of _ "sweep_finish sw"])
      (auto simp: sweep_inv_def sweep_acc_def sweep_finish_def sweep_live_def crossing_concat)
qed

theorem execute_ioc_correct_witness:
  "let a = sample_taker Limit IOC 40; b = sample_book in
   \<exists>b' res. execute_ioc a b = Some (b', res) \<and> wf_book b' \<and>
    (\<forall>f \<in> set (ag_fills res). sweep_fill_ok a b f \<and> crosses_limit (o_side a) (o_price a) (x_trade_price f)) \<and>
    traded (ag_fills res) (o_order_id a) + ag_unfilled_qty res \<le> o_quantity a \<and>
    (o_order_id a \<notin> stp_ids b' \<longrightarrow> traded (ag_fills res) (o_order_id a) + ag_unfilled_qty res = o_quantity a) \<and>
    (0 < ag_unfilled_qty res \<longrightarrow> crossing_orders a b' = []) \<and> \<not> ag_rest_on_book res"
  unfolding Let_def by (rule execute_ioc_correct [OF wf_sample_book sample_taker_fresh])



end
