(* ===== verification/Fxp_Stops.thy ===== *)
theory Fxp_Stops
  imports Fxp_Fok
begin

text \<open>
  Parked stop orders and the trigger cascade of \<^verbatim>\<open>order_book/stops.rs\<close>, and the entry point
  \<^verbatim>\<open>execute_into\<close> through which every order reaches the book. Field \<^verbatim>\<open>f\<close> of \<^verbatim>\<open>Execution\<close> is
  \<open>ex_f\<close>; the \<^verbatim>\<open>&mut\<close> arguments are threaded through.
\<close>

section \<open>Parked stops\<close>

definition stop_fires :: "order \<Rightarrow> int \<Rightarrow> bool" where
  "stop_fires ord price =
     (case o_side ord of
        Buy \<Rightarrow> price \<ge> o_stop_price ord
      | Sell \<Rightarrow> price \<le> o_stop_price ord)"

record stop_replace =
  sr_new_price :: int
  sr_new_stop_price :: int
  sr_new_quantity :: nat
  sr_new_time_in_force :: "time_in_force option"
  sr_client_order_id :: string
  sr_timestamp :: nat

record stop_book =
  s_parked :: "order list"

definition stop_book_default :: stop_book where
  "stop_book_default = \<lparr>s_parked = []\<rparr>"

definition park :: "order \<Rightarrow> stop_book \<Rightarrow> stop_book" where
  "park ord sb = sb\<lparr>s_parked := s_parked sb @ [ord]\<rparr>"

definition stops_contains :: "stop_book \<Rightarrow> string \<Rightarrow> bool" where
  "stops_contains sb oid = (\<exists>x \<in> set (s_parked sb). o_order_id x = oid)"

definition stops_len :: "stop_book \<Rightarrow> nat" where
  "stops_len sb = length (s_parked sb)"

definition stops_ids :: "stop_book \<Rightarrow> string list" where
  "stops_ids sb = map o_order_id (s_parked sb)"

text \<open>\<^verbatim>\<open>iter().position\<close>: the index of the first element with the property.\<close>

fun position :: "('a \<Rightarrow> bool) \<Rightarrow> 'a list \<Rightarrow> nat option" where
  "position P [] = None"
| "position P (x # xs) = (if P x then Some 0 else map_option Suc (position P xs))"

definition position_for :: "string \<Rightarrow> string \<Rightarrow> stop_book \<Rightarrow> order_reject + nat" where
  "position_for oid owner sb =
     (case position (\<lambda>x. o_order_id x = oid) (s_parked sb) of
        None \<Rightarrow> Inl UnknownOrder
      | Some i \<Rightarrow> if o_trader_id (s_parked sb ! i) \<noteq> owner then Inl NotOwner else Inr i)"

text \<open>\<^verbatim>\<open>Vec::remove\<close> at an index that \<^verbatim>\<open>position\<close> returned.\<close>

definition vec_remove :: "nat \<Rightarrow> 'a list \<Rightarrow> 'a list" where
  "vec_remove i xs = take i xs @ drop (Suc i) xs"

definition stops_cancel_for :: "string \<Rightarrow> string \<Rightarrow> stop_book \<Rightarrow> stop_book \<times> (order_reject + order)" where
  "stops_cancel_for oid owner sb =
     (case position_for oid owner sb of
        Inl e \<Rightarrow> (sb, Inl e)
      | Inr i \<Rightarrow> (sb\<lparr>s_parked := vec_remove i (s_parked sb)\<rparr>, Inr (s_parked sb ! i)))"

definition stops_replace_for ::
  "string \<Rightarrow> string \<Rightarrow> stop_replace \<Rightarrow> string \<Rightarrow> bool \<Rightarrow> stop_book \<Rightarrow> stop_book \<times> (order_reject + order)" where
  "stops_replace_for orig_id new_id changes owner id_in_use sb =
     (case position_for orig_id owner sb of
        Inl e \<Rightarrow> (sb, Inl e)
      | Inr i \<Rightarrow>
          (if new_id \<noteq> orig_id \<and> (id_in_use \<or> stops_contains sb new_id) then (sb, Inl DuplicateOrderId)
           else
             (let orig = s_parked sb ! i;
                  replacement = orig\<lparr>
                    o_order_id := new_id,
                    o_price := (if sr_new_price changes > 0 then sr_new_price changes else o_price orig),
                    o_stop_price :=
                      (if sr_new_stop_price changes > 0 then sr_new_stop_price changes else o_stop_price orig),
                    o_quantity :=
                      (if sr_new_quantity changes > 0 then sr_new_quantity changes else o_quantity orig),
                    o_time_in_force :=
                      (case sr_new_time_in_force changes of None \<Rightarrow> o_time_in_force orig | Some t \<Rightarrow> t),
                    o_timestamp := sr_timestamp changes,
                    o_client_order_id := sr_client_order_id changes\<rparr>
              in (sb\<lparr>s_parked := vec_remove i (s_parked sb) @ [replacement]\<rparr>, Inr replacement))))"

definition drain_triggered :: "int \<Rightarrow> stop_book \<Rightarrow> stop_book \<times> order list" where
  "drain_triggered price sb =
     (case drain_triggered_stops (s_parked sb) price of
        (triggered, remaining) \<Rightarrow> (sb\<lparr>s_parked := remaining\<rparr>, triggered))"

section \<open>Executions\<close>

record execution =
  ex_fills :: "execution_report list"
  ex_fill_updates :: "md_incremental list"
  ex_rested :: "md_incremental list"
  ex_cancels :: "string list"
  ex_triggered :: "string list"
  ex_trigger_points :: "(nat \<times> string \<times> string) list"
  ex_refreshes :: "(nat \<times> string \<times> nat) list"
  ex_stp :: "stp_event list"
  ex_stp_updates :: "md_incremental list"

definition execution_default :: execution where
  "execution_default =
     \<lparr>ex_fills = [], ex_fill_updates = [], ex_rested = [], ex_cancels = [], ex_triggered = [],
      ex_trigger_points = [], ex_refreshes = [], ex_stp = [], ex_stp_updates = []\<rparr>"

definition absorb_stp :: "nat \<Rightarrow> order_book \<times> execution \<Rightarrow> order_book \<times> execution" where
  "absorb_stp base = (\<lambda>(b, out).
     (let outcome = b_stp b;
          b1 = b\<lparr>b_stp := stp_outcome_default\<rparr>;
          out1 = out\<lparr>ex_stp := ex_stp out @
                       map (\<lambda>e. e\<lparr>e_before_fill := e_before_fill e + base\<rparr>) (stp_events outcome),
                     ex_stp_updates := ex_stp_updates out @ stp_updates outcome\<rparr>
      in case b_refresh_log b1 of
           None \<Rightarrow> (b1, out1)
         | Some log \<Rightarrow>
             (b1\<lparr>b_refresh_log := Some []\<rparr>,
              out1\<lparr>ex_refreshes := ex_refreshes out1 @ map (\<lambda>(i, oid, q). (base + i, oid, q)) log\<rparr>)))"

definition match_into :: "order_book \<times> execution \<Rightarrow> (order_book \<times> execution) option" where
  "match_into = (\<lambda>(b, out). do {
     let base = length (ex_fills out);
     (b1, fills, updates) \<leftarrow> match_orders b;
     let (b2, out1) = absorb_stp base (b1, out);
     Some (b2, out1\<lparr>ex_fills := ex_fills out1 @ fills, ex_fill_updates := ex_fill_updates out1 @ updates\<rparr>)
   })"

fun triggered_type :: "order_type \<Rightarrow> order_type" where
  "triggered_type Stop = Market"
| "triggered_type StopLimit = Limit"
| "triggered_type other = other"

definition execute_into :: "order \<Rightarrow> order_book \<times> execution \<Rightarrow> (order_book \<times> execution \<times> bool) option" where
  "execute_into order0 = (\<lambda>(b, out). do {
     let ord = order0\<lparr>o_order_type := triggered_type (o_order_type order0)\<rparr>;
     let base = length (ex_fills out);
     (b1, result) \<leftarrow> process_aggressive ord b;
     let (b2, out1) = absorb_stp base (b1, out);
     let out2 = out1\<lparr>ex_fills := ex_fills out1 @ ag_fills result,
                     ex_fill_updates := ex_fill_updates out1 @ ag_fill_updates result\<rparr>;
     if ag_stp_canceled result \<or> ag_unfilled_qty result = 0 then Some (b2, out2, False)
     else if \<not> ag_rest_on_book result
     then Some (b2, out2\<lparr>ex_cancels := ex_cancels out2 @ [o_order_id ord]\<rparr>, False)
     else do {
       let (b3, md) = add_order (ord\<lparr>o_quantity := ag_unfilled_qty result\<rparr>) b2;
       (b4, out3) \<leftarrow> match_into (b3, out2\<lparr>ex_rested := ex_rested out2 @ [md]\<rparr>);
       Some (b4, out3, True)
     }
   })"

section \<open>The cascade\<close>

record cascade =
  c_book :: order_book
  c_stops :: stop_book
  c_last_trade_price :: "int option"
  c_out :: execution
  c_scanned :: nat
  c_queue :: "order list"

text \<open>The inner loop: every print not yet scanned is checked against the parked stops.\<close>

fun scan_prints ::
  "execution_report list \<Rightarrow> stop_book \<times> int option \<times> order list \<Rightarrow> stop_book \<times> int option \<times> order list" where
  "scan_prints [] s = s"
| "scan_prints (f # fs) (stops, ltp, pending) =
     (let (stops', triggered) = drain_triggered (x_trade_price f) stops
      in scan_prints fs (stops', Some (x_trade_price f), pending @ triggered))"

definition cascade_scan :: "cascade \<Rightarrow> cascade" where
  "cascade_scan c =
     (let fills = ex_fills (c_out c);
          (stops, ltp, pending) =
            scan_prints (drop (c_scanned c) fills) (c_stops c, c_last_trade_price c, c_queue c)
      in c\<lparr>c_stops := stops, c_last_trade_price := ltp, c_queue := pending, c_scanned := length fills\<rparr>)"

definition cascade_fire :: "cascade \<Rightarrow> cascade option" where
  "cascade_fire c =
     (case c_queue c of
        [] \<Rightarrow> None
      | stop # pending \<Rightarrow>
          do {
            let out = c_out c;
            let out1 = (if b_refresh_log (c_book c) \<noteq> None
                        then out\<lparr>ex_trigger_points := ex_trigger_points out @
                               [(length (ex_fills out), o_order_id stop, ''trade price crossed stop'')]\<rparr>
                        else out);
            (b', out2, _) \<leftarrow> execute_into stop
                 (c_book c, out1\<lparr>ex_triggered := ex_triggered out1 @ [o_order_id stop]\<rparr>);
            Some (c\<lparr>c_book := b', c_out := out2, c_queue := pending\<rparr>)
          })"

text \<open>The outer loop alternates the scan and the execution of the first triggered stop.\<close>

definition cascade_step :: "cascade \<Rightarrow> cascade option" where
  "cascade_step c = map_option cascade_scan (cascade_fire c)"

definition run_stop_cascade ::
  "order_book \<times> stop_book \<times> int option \<times> execution \<Rightarrow>
   (order_book \<times> stop_book \<times> int option \<times> execution) option" where
  "run_stop_cascade = (\<lambda>(b, stops, ltp, out).
     map_option (\<lambda>c. (c_book c, c_stops c, c_last_trade_price c, c_out c))
       (loop_while (\<lambda>c. c_queue c \<noteq> []) cascade_step
          (cascade_scan
             \<lparr>c_book = b, c_stops = stops, c_last_trade_price = ltp, c_out = out,
              c_scanned = 0, c_queue = []\<rparr>)))"

section \<open>Every order that reaches the book\<close>

lemma process_aggressive_ok:
  assumes wf: "wf_book b" and out: "map_of (b_order_lookup b) (o_order_id a) = None"
  shows "\<exists>b' res. process_aggressive a b = Some (b', res) \<and> wf_book b' \<and>
    evolves {o_order_id a} b b' (ag_fills res) \<and>
    traded (ag_fills res) (o_order_id a) + ag_unfilled_qty res \<le> o_quantity a"
proof -
  let ?ok = "\<lambda>r a. \<exists>b' res. r = Some (b', res) \<and> wf_book b' \<and> evolves {o_order_id a} b b' (ag_fills res) \<and>
    traded (ag_fills res) (o_order_id a) + ag_unfilled_qty res \<le> o_quantity a"
  have sweep: "evolves {o_order_id a} b b' (ag_fills (sweep_finish sw)) \<and>
      traded (ag_fills (sweep_finish sw)) (o_order_id a) + ag_unfilled_qty (sweep_finish sw) \<le> o_quantity a \<and> wf_book b'"
    if "sweep_inv a lim b (b', sw)" for a b' sw lim
    using that by (auto simp: sweep_inv_def sweep_acc_def sweep_finish_def)
  have market: "?ok (execute_market a b) a"
    using execute_market_ok [OF wf out] sweep by blast
  have ioc: "?ok (execute_ioc a b) a" if "map_of (b_order_lookup b) (o_order_id a) = None" for a
    using execute_ioc_ok [OF wf that] sweep by blast
  have fok: "?ok (execute_fok a b) a" if o: "map_of (b_order_lookup b) (o_order_id a) = None" for a
  proof -
    obtain av r where scan: "fok_scan a b (o_quantity a) 0 (crossing_orders a b) = (av, r)" by fastforce
    have "wf_book (push_stp_event e b)" for e
      using wf by (simp add: wf_book_def same_book_simps [OF same_book_push(1)])
    moreover have "evolves {o_order_id a} b (push_stp_event e b) []" for e
      by (rule evolves_push) (rule evolves_refl)
    ultimately show ?thesis
      using scan ioc [OF o] wf
      by (cases r) (auto simp: execute_fok_def Let_def evolves_refl split: if_splits)
  qed
  have rest: "?ok (Some (b, rest_result a)) a" for a
    using wf by (simp add: rest_result_def evolves_refl)
  have limit: "?ok (process_limit a b) a" if "map_of (b_order_lookup b) (o_order_id a) = None" for a
    using ioc [OF that] fok [OF that] rest [of a] by (cases "o_time_in_force a") (simp_all add: process_limit_def)
  show ?thesis
    using market limit [of a] limit [of "a\<lparr>o_order_type := Limit\<rparr>"] out
    by (cases "o_order_type a") (simp_all add: process_aggressive_def)
qed

lemma absorb_stp_ok:
  assumes "absorb_stp base (b, out) = (b', out')"
  shows "same_book b b'" and "ex_fills out' = ex_fills out" and "ex_triggered out' = ex_triggered out"
    and "ex_cancels out' = ex_cancels out" and "b_last_added b' = b_last_added b" and "stp_ids b' = {}"
    and "e_order_id ` set (ex_stp out') = e_order_id ` set (ex_stp out) \<union> stp_ids b"
proof -
  show "same_book b b'" and "ex_fills out' = ex_fills out" and "ex_triggered out' = ex_triggered out"
    and "ex_cancels out' = ex_cancels out" and "b_last_added b' = b_last_added b" and "stp_ids b' = {}"
    using assms
    by (auto simp: absorb_stp_def Let_def same_book_def stp_ids_def stp_outcome_default_def split: option.splits)
  have "set (ex_stp out') = set (ex_stp out) \<union> (\<lambda>e. e\<lparr>e_before_fill := e_before_fill e + base\<rparr>) ` set (stp_events (b_stp b))"
    using assms by (auto simp: absorb_stp_def Let_def split: option.splits)
  then show "e_order_id ` set (ex_stp out') = e_order_id ` set (ex_stp out) \<union> stp_ids b"
    by (simp add: stp_ids_def image_Un image_image)
qed

text \<open>The identifiers of the orders a book lists.\<close>

definition book_ids :: "order_book \<Rightarrow> string set" where
  "book_ids b = dom (map_of (b_order_lookup b))"

lemma evolves_ids: "evolves A b b' f \<Longrightarrow> book_ids b' \<subseteq> book_ids b"
  unfolding evolves_def book_ids_def by blast

lemma same_book_ids: "same_book b b' \<Longrightarrow> book_ids b' = book_ids b"
  by (simp add: same_book_def book_ids_def)

text \<open>A crossed book has a live bid and a live offer that overlap; executions only remove orders.\<close>

lemma crossed_live:
  assumes wf: "wf_book b"
  shows "crossed b \<longleftrightarrow> (\<exists>x y. map_of (b_order_lookup b) (o_order_id x) = Some x \<and> o_side x = Buy \<and>
    map_of (b_order_lookup b) (o_order_id y) = Some y \<and> o_side y = Sell \<and> o_price y \<le> o_price x)"
proof
  assume "crossed b"
  then obtain p q where p: "best_price Buy (side_levels Buy b) = Some p"
    and q: "best_price Sell (side_levels Sell b) = Some q" and le: "q \<le> p"
    by (auto simp: crossed_def split: option.splits)
  have w: "wf_with b []" using wf by (simp add: wf_book_def)
  from best_price_queue [OF w p] obtain x xs where x: "queue Buy b = x # xs" "o_price x = p" by blast
  from best_price_queue [OF w q] obtain y ys where y: "queue Sell b = y # ys" "o_price y = q" by blast
  have "o_side x = Buy" "o_side y = Sell"
    using x y queue_side [OF w, of x Buy] queue_side [OF w, of y Sell] by simp_all
  moreover have "map_of (b_order_lookup b) (o_order_id x) = Some x" "map_of (b_order_lookup b) (o_order_id y) = Some y"
    using x y by (auto simp: wf_book_lookup [OF wf] intro: exI [of _ Buy] exI [of _ Sell])
  ultimately show "\<exists>x y. map_of (b_order_lookup b) (o_order_id x) = Some x \<and> o_side x = Buy \<and>
    map_of (b_order_lookup b) (o_order_id y) = Some y \<and> o_side y = Sell \<and> o_price y \<le> o_price x"
    using le x(2) y(2) by (intro exI [of _ x] exI [of _ y]) simp
next
  assume "\<exists>x y. map_of (b_order_lookup b) (o_order_id x) = Some x \<and> o_side x = Buy \<and>
    map_of (b_order_lookup b) (o_order_id y) = Some y \<and> o_side y = Sell \<and> o_price y \<le> o_price x"
  then obtain x y where x: "map_of (b_order_lookup b) (o_order_id x) = Some x" "o_side x = Buy"
    and y: "map_of (b_order_lookup b) (o_order_id y) = Some y" "o_side y = Sell" and le: "o_price y \<le> o_price x"
    by blast
  have best: "\<exists>p. best_price (o_side z) (side_levels (o_side z) b) = Some p \<and> not_before (o_side z) p (o_price z)"
    if z: "map_of (b_order_lookup b) (o_order_id z) = Some z" for z
  proof -
    let ?ls = "side_levels (o_side z) b"
    have ok: "levels_ok (o_side z) ?ls" using wf by (rule wf_book_levels)
    from z wf_book_lookup [OF wf] obtain sd where "z \<in> set (queue sd b)" by blast
    moreover from this have "o_side z = sd" using queue_side [of b "[]" z sd] wf by (simp add: wf_book_def)
    ultimately obtain e where e: "e \<in> set ?ls" "z \<in> set (snd e)" by (auto simp: queue_def flat_elem)
    from ok e(1) have "level_ok (o_side z) e" by (simp add: levels_ok_def)
    with e(2) have pz: "o_price z = fst e" unfolding level_ok_def by blast
    from e(1) have "?ls \<noteq> []" by (metis empty_iff empty_set)
    then have "best_price (o_side z) ?ls \<noteq> None"
      by (cases "o_side z") (auto simp: bt_first_key_def bt_last_key_def split: list.splits)
    then obtain p where p: "best_price (o_side z) ?ls = Some p" by blast
    with best_price_not_before(1) [OF ok p e(1)] pz show ?thesis by auto
  qed
  from best [OF x(1)] x(2) obtain p where "best_price Buy (b_buy_orders b) = Some p" "o_price x \<le> p" by auto
  moreover from best [OF y(1)] y(2) obtain q where "best_price Sell (b_sell_orders b) = Some q" "q \<le> o_price y" by auto
  ultimately show "crossed b" using le by (simp add: crossed_def)
qed

lemma uncrossed_evolves:
  assumes "evolves A b b' fills" and "wf_book b" and "wf_book b'" and "crossed b'"
  shows "crossed b"
proof -
  from assms(4) obtain x y where x: "map_of (b_order_lookup b') (o_order_id x) = Some x" "o_side x = Buy"
    and y: "map_of (b_order_lookup b') (o_order_id y) = Some y" "o_side y = Sell" and le: "o_price y \<le> o_price x"
    unfolding crossed_live [OF assms(3)] by blast
  have prior: "\<exists>w. map_of (b_order_lookup b) (o_order_id w) = Some w \<and> o_side w = o_side z \<and> o_price w = o_price z"
    if z: "map_of (b_order_lookup b') (o_order_id z) = Some z" for z
  proof -
    from assms(1) z obtain w q where w: "map_of (b_order_lookup b) (o_order_id z) = Some w" and q: "z = w\<lparr>o_quantity := q\<rparr>"
      unfolding evolves_def by blast
    from q have "o_order_id w = o_order_id z" "o_side w = o_side z" "o_price w = o_price z" by simp_all
    with w show ?thesis by (intro exI [of _ w]) simp
  qed
  from prior [OF x(1)] obtain v where v: "map_of (b_order_lookup b) (o_order_id v) = Some v" "o_side v = Buy" "o_price v = o_price x"
    using x(2) by auto
  from prior [OF y(1)] obtain w where w: "map_of (b_order_lookup b) (o_order_id w) = Some w" "o_side w = Sell" "o_price w = o_price y"
    using y(2) by auto
  show ?thesis
    unfolding crossed_live [OF assms(2)] using v w le by (intro exI [of _ v] exI [of _ w]) simp
qed

lemma match_into_ok:
  assumes wf: "wf_book b"
  shows "\<exists>b' out' new. match_into (b, out) = Some (b', out') \<and> wf_book b' \<and> \<not> crossed b' \<and>
    ex_fills out' = ex_fills out @ new \<and> ex_triggered out' = ex_triggered out \<and>
    book_ids b' \<subseteq> book_ids b \<and> (\<forall>oid. qty_of b' oid + traded new oid \<le> qty_of b oid)"
proof -
  from match_orders_correct [OF wf] obtain b1 fills updates where
    m: "match_orders b = Some (b1, fills, updates)" and w1: "wf_book b1" and nc: "\<not> crossed b1"
    and ev: "evolves {} (b\<lparr>b_stp := stp_outcome_default\<rparr>) b1 fills"
    by blast
  obtain b2 out1 where a: "absorb_stp (length (ex_fills out)) (b1, out) = (b2, out1)" by fastforce
  note k = absorb_stp_ok [OF a]
  have "qty_of b1 oid + traded fills oid \<le> qty_of b oid" for oid
  proof (cases "map_of (b_order_lookup b) oid")
    case None
    with ev evolves_out [OF ev, of oid] show ?thesis by (simp add: evolves_def qty_of_def)
  next
    case (Some x)
    with ev show ?thesis by (simp add: evolves_def qty_of_Some [OF Some])
  qed
  moreover have "book_ids b1 \<subseteq> book_ids b" using evolves_ids [OF ev] by (simp add: book_ids_def)
  moreover have "wf_book b2" "\<not> crossed b2"
    using w1 nc k(1) by (simp_all add: wf_book_def same_book_simps [OF k(1)] crossed_def same_book_def)
  ultimately show ?thesis
    using m a k(2,3) by (simp add: match_into_def same_book_simps [OF k(1)] same_book_ids [OF k(1)])
qed

lemma execute_into_ok:
  assumes wf: "wf_book b" and out: "o_order_id a \<notin> book_ids b" and q: "o_quantity a < 4294967296"
  shows "\<exists>b' out' r new. execute_into a (b, out0) = Some (b', out', r) \<and> wf_book b' \<and>
    ex_fills out' = ex_fills out0 @ new \<and> ex_triggered out' = ex_triggered out0 \<and>
    book_ids b' \<subseteq> insert (o_order_id a) (book_ids b) \<and> (\<not> crossed b \<longrightarrow> \<not> crossed b') \<and>
    qty_of b' (o_order_id a) + traded new (o_order_id a) \<le> o_quantity a"
proof -
  define ord where "ord = a\<lparr>o_order_type := triggered_type (o_order_type a)\<rparr>"
  have ord: "o_order_id ord = o_order_id a" "o_quantity ord = o_quantity a" by (simp_all add: ord_def)
  have none: "map_of (b_order_lookup b) (o_order_id ord) = None"
    using out by (auto simp: book_ids_def ord)
  from process_aggressive_ok [OF wf none] obtain b1 res where
    p: "process_aggressive ord b = Some (b1, res)" and w1: "wf_book b1"
    and ev: "evolves {o_order_id ord} b b1 (ag_fills res)"
    and acc: "traded (ag_fills res) (o_order_id a) + ag_unfilled_qty res \<le> o_quantity a"
    unfolding ord by blast
  obtain b2 out1 where ab: "absorb_stp (length (ex_fills out0)) (b1, out0) = (b2, out1)" by fastforce
  note k = absorb_stp_ok [OF ab]
  have w2: "wf_book b2" using w1 by (simp add: wf_book_def same_book_simps [OF k(1)])
  have x2: "\<not> crossed b2" if "\<not> crossed b"
    using uncrossed_evolves [OF ev wf w1] that k(1) by (auto simp: crossed_def same_book_def)
  have ids2: "book_ids b2 \<subseteq> book_ids b" using evolves_ids [OF ev] same_book_ids [OF k(1)] by simp
  then have new2: "map_of (b_order_lookup b2) (o_order_id a) = None" using out by (auto simp: book_ids_def)
  define out2 where "out2 = out1\<lparr>ex_fills := ex_fills out1 @ ag_fills res,
      ex_fill_updates := ex_fill_updates out1 @ ag_fill_updates res\<rparr>"
  have o2: "ex_fills out2 = ex_fills out0 @ ag_fills res" "ex_triggered out2 = ex_triggered out0"
    by (simp_all add: out2_def k)
  have p': "process_aggressive (a\<lparr>o_order_type := triggered_type (o_order_type a)\<rparr>) b = Some (b1, res)"
    using p by (simp add: ord_def)
  show ?thesis
  proof (cases "ag_stp_canceled res \<or> ag_unfilled_qty res = 0 \<or> \<not> ag_rest_on_book res")
    case True
    then have "\<exists>out'. execute_into a (b, out0) = Some (b2, out', False) \<and> ex_fills out' = ex_fills out2 \<and> ex_triggered out' = ex_triggered out2"
      by (auto simp: execute_into_def p' ab Let_def out2_def)
    with w2 ids2 o2 acc new2 x2 show ?thesis by (auto simp: qty_of_None)
  next
    case False
    define x where "x = ord\<lparr>o_quantity := ag_unfilled_qty res\<rparr>"
    have x: "o_order_id x = o_order_id a" "o_quantity x = ag_unfilled_qty res" by (simp_all add: x_def ord)
    obtain b3 md where add: "add_order x b2 = (b3, md)" by fastforce
    have "wf_book (fst (add_order x b2))"
      by (rule wf_book_add_order [OF w2]) (use new2 False acc q x in simp_all)
    with add have w3: "wf_book b3" by simp
    have look3: "map_of (b_order_lookup b3) = (map_of (b_order_lookup b2))(o_order_id a \<mapsto> x)"
      using add_order_lookup [of x b2] add x by simp
    from match_into_ok [OF w3, of "out2\<lparr>ex_rested := ex_rested out2 @ [md]\<rparr>"] obtain b' out' new where
      mi: "match_into (b3, out2\<lparr>ex_rested := ex_rested out2 @ [md]\<rparr>) = Some (b', out')" and w': "wf_book b'" "\<not> crossed b'"
      and f': "ex_fills out' = ex_fills out2 @ new" "ex_triggered out' = ex_triggered out2"
      and ids': "book_ids b' \<subseteq> book_ids b3" and qty': "\<forall>oid. qty_of b' oid + traded new oid \<le> qty_of b3 oid"
      by auto
    have "execute_into a (b, out0) = Some (b', out', True)"
      using False add mi by (simp add: execute_into_def p' ab Let_def x_def [unfolded ord_def] out2_def)
    moreover have "book_ids b3 \<subseteq> insert (o_order_id a) (book_ids b)"
      using look3 ids2 by (auto simp: book_ids_def)
    moreover have "qty_of b3 (o_order_id a) = ag_unfilled_qty res" by (simp add: qty_of_def look3 x)
    with qty' [rule_format, of "o_order_id a"] acc
    have "qty_of b' (o_order_id a) + traded (ag_fills res @ new) (o_order_id a) \<le> o_quantity a" by simp
    ultimately show ?thesis using w' f' o2 ids' by (metis append.assoc subset_trans)
  qed
qed

section \<open>The cascade terminates and misses no trigger\<close>

lemma drain_triggered_ok:
  "s_parked (fst (drain_triggered p sb)) = filter (\<lambda>x. \<not> fires p x) (s_parked sb)"
  "mset (snd (drain_triggered p sb)) = mset (filter (fires p) (s_parked sb))"
  by (simp_all add: drain_triggered_def drain_triggered_stops_def Let_def)

lemma mset_filter_split: "mset (filter P xs) + mset (filter (\<lambda>x. \<not> P x) xs) = mset xs"
  by (induction xs) simp_all

lemma scan_prints_ok:
  "scan_prints fs (sb, ltp, pending) = (sb', ltp', pending') \<Longrightarrow>
   s_parked sb' = filter (\<lambda>x. \<forall>f \<in> set fs. \<not> fires (x_trade_price f) x) (s_parked sb) \<and>
   mset pending' + mset (s_parked sb') = mset pending + mset (s_parked sb) \<and>
   ltp' = (if fs = [] then ltp else Some (x_trade_price (last fs)))"
proof (induction fs arbitrary: sb ltp pending)
  case (Cons f fs)
  obtain sb1 trig where d: "drain_triggered (x_trade_price f) sb = (sb1, trig)" by fastforce
  note k = drain_triggered_ok [of "x_trade_price f" sb, unfolded d fst_conv snd_conv]
  from Cons.prems d have "scan_prints fs (sb1, Some (x_trade_price f), pending @ trig) = (sb', ltp', pending')"
    by simp
  note IH = Cons.IH [OF this]
  from IH have ms: "mset pending' + mset (s_parked sb') = mset (pending @ trig) + mset (s_parked sb1)" by blast
  have "s_parked sb' = filter (\<lambda>x. \<forall>g \<in> set (f # fs). \<not> fires (x_trade_price g) x) (s_parked sb)"
    using IH by (simp add: k conj_commute)
  moreover have "mset pending' + mset (s_parked sb') = mset pending + (mset trig + mset (s_parked sb1))"
    using ms by (simp add: ac_simps)
  moreover have "mset trig + mset (s_parked sb1) = mset (s_parked sb)"
    unfolding k by (rule mset_filter_split)
  ultimately show ?case using IH by simp
qed simp

definition waiting :: "cascade \<Rightarrow> order list" where
  "waiting c = c_queue c @ s_parked (c_stops c)"

text \<open>
  The invariant between two steps: the book is uncrossed if it was at the start, the waiting stops are not in the book and differ from each
  other, no scanned print triggers a parked stop, and stops only leave by firing.
\<close>

definition cascade_inv :: "bool \<Rightarrow> string multiset \<Rightarrow> nat \<Rightarrow> cascade \<Rightarrow> bool" where
  "cascade_inv U P n c \<longleftrightarrow>
     wf_book (c_book c) \<and> (U \<longrightarrow> \<not> crossed (c_book c)) \<and> distinct (map o_order_id (waiting c)) \<and>
     (\<forall>x \<in> set (waiting c). o_order_id x \<notin> book_ids (c_book c) \<and> o_quantity x < 4294967296) \<and>
     c_scanned c \<le> length (ex_fills (c_out c)) \<and>
     (\<forall>f \<in> set (take (c_scanned c) (ex_fills (c_out c))). \<forall>x \<in> set (s_parked (c_stops c)).
        \<not> fires (x_trade_price f) x) \<and>
     n \<le> length (ex_triggered (c_out c)) \<and>
     mset (map o_order_id (waiting c)) + mset (drop n (ex_triggered (c_out c))) = P"

lemma cascade_scan_ok:
  assumes inv: "cascade_inv U P n c"
  shows "cascade_inv U P n (cascade_scan c)" and "c_scanned (cascade_scan c) = length (ex_fills (c_out (cascade_scan c)))"
    and "mset (waiting (cascade_scan c)) = mset (waiting c)" and "c_out (cascade_scan c) = c_out c"
    and "c_book (cascade_scan c) = c_book c"
    and "c_last_trade_price (cascade_scan c) =
      (if drop (c_scanned c) (ex_fills (c_out c)) = [] then c_last_trade_price c
       else Some (x_trade_price (last (ex_fills (c_out c)))))"
proof -
  let ?fs = "drop (c_scanned c) (ex_fills (c_out c))"
  obtain sb ltp pending where s: "scan_prints ?fs (c_stops c, c_last_trade_price c, c_queue c) = (sb, ltp, pending)"
    by (rule prod_cases3)
  note k = scan_prints_ok [OF s]
  have ms: "mset pending + mset (s_parked sb) = mset (c_queue c) + mset (s_parked (c_stops c))" using k by blast
  have c: "cascade_scan c = c\<lparr>c_stops := sb, c_last_trade_price := ltp, c_queue := pending,
      c_scanned := length (ex_fills (c_out c))\<rparr>"
    by (simp add: cascade_scan_def Let_def s)
  show w: "mset (waiting (cascade_scan c)) = mset (waiting c)"
    using ms by (simp add: waiting_def c)
  show "c_scanned (cascade_scan c) = length (ex_fills (c_out (cascade_scan c)))"
    "c_out (cascade_scan c) = c_out c" "c_book (cascade_scan c) = c_book c"
    by (simp_all add: c)
  show "c_last_trade_price (cascade_scan c) =
      (if ?fs = [] then c_last_trade_price c else Some (x_trade_price (last (ex_fills (c_out c)))))"
    using k by (auto simp: c last_drop)
  have ids: "mset (map o_order_id (waiting (cascade_scan c))) = mset (map o_order_id (waiting c))"
    using w by (simp only: mset_map)
  have "set (waiting (cascade_scan c)) = set (waiting c)" using w by (rule mset_eq_setD)
  moreover have "distinct (map o_order_id (waiting (cascade_scan c)))"
    using inv mset_eq_imp_distinct_iff [OF ids] by (simp add: cascade_inv_def)
  moreover have "\<forall>f \<in> set (ex_fills (c_out c)). \<forall>x \<in> set (s_parked sb). \<not> fires (x_trade_price f) x"
  proof (intro ballI)
    fix f x
    assume "f \<in> set (ex_fills (c_out c))" and x: "x \<in> set (s_parked sb)"
    then have "f \<in> set (take (c_scanned c) (ex_fills (c_out c))) \<or> f \<in> set ?fs"
      by (metis Un_iff append_take_drop_id set_append)
    with x k inv show "\<not> fires (x_trade_price f) x" by (auto simp: cascade_inv_def)
  qed
  ultimately show "cascade_inv U P n (cascade_scan c)"
    using inv ids by (simp add: cascade_inv_def) (simp add: c)
qed

lemma cascade_fire_ok:
  assumes inv: "cascade_inv U P n c" and ne: "c_queue c \<noteq> []"
  shows "\<exists>c'. cascade_fire c = Some c' \<and> cascade_inv U P n c' \<and> length (waiting c') < length (waiting c)"
proof -
  obtain stop pending where q: "c_queue c = stop # pending" using ne by (cases "c_queue c") auto
  define out1 where "out1 = (let out = c_out c; o1 = (if b_refresh_log (c_book c) \<noteq> None
      then out\<lparr>ex_trigger_points := ex_trigger_points out @
        [(length (ex_fills out), o_order_id stop, ''trade price crossed stop'')]\<rparr> else out)
    in o1\<lparr>ex_triggered := ex_triggered o1 @ [o_order_id stop]\<rparr>)"
  have o1: "ex_fills out1 = ex_fills (c_out c)" "ex_triggered out1 = ex_triggered (c_out c) @ [o_order_id stop]"
    by (simp_all add: out1_def Let_def)
  have w: "waiting c = stop # pending @ s_parked (c_stops c)" by (simp add: waiting_def q)
  with inv have wf: "wf_book (c_book c)" and new: "o_order_id stop \<notin> book_ids (c_book c)" and qs: "o_quantity stop < 4294967296"
    by (simp_all add: cascade_inv_def)
  from execute_into_ok [OF wf new qs, of out1] obtain b' out' r fs where
    ex: "execute_into stop (c_book c, out1) = Some (b', out', r)" and w': "wf_book b'"
    and f': "ex_fills out' = ex_fills out1 @ fs" and t': "ex_triggered out' = ex_triggered out1"
    and ids: "book_ids b' \<subseteq> insert (o_order_id stop) (book_ids (c_book c))"
    and nc: "\<not> crossed (c_book c) \<longrightarrow> \<not> crossed b'"
    by blast
  define c' where "c' = c\<lparr>c_book := b', c_out := out', c_queue := pending\<rparr>"
  have fire: "cascade_fire c = Some c'"
    using ex by (simp add: cascade_fire_def q out1_def c'_def Let_def)
  have wc: "waiting c' = pending @ s_parked (c_stops c)" by (simp add: waiting_def c'_def)
  have "o_order_id x \<notin> book_ids b'" if "x \<in> set (pending @ s_parked (c_stops c))" for x
  proof -
    from inv w that have "o_order_id x \<notin> book_ids (c_book c)" by (auto simp: cascade_inv_def)
    moreover from inv w have "o_order_id stop \<notin> set (map o_order_id (pending @ s_parked (c_stops c)))"
      by (simp add: cascade_inv_def)
    with that have "o_order_id x \<noteq> o_order_id stop" by (metis in_set_conv_nth length_map nth_map nth_mem)
    ultimately show ?thesis using ids by blast
  qed
  then have "cascade_inv U P n c'"
    using inv w w' f' t' o1 nc unfolding cascade_inv_def wc
    by (auto simp: c'_def)
  moreover have "length (waiting c') < length (waiting c)" by (simp add: w wc)
  ultimately show ?thesis using fire by blast
qed

interpretation cascade_loop: total_loop "\<lambda>c. c_queue c \<noteq> []" cascade_step
  "\<lambda>c. cascade_inv U P n c \<and> c_scanned c = length (ex_fills (c_out c))" "\<lambda>c. length (waiting c)" for U P n
proof
  fix c
  assume inv: "cascade_inv U P n c \<and> c_scanned c = length (ex_fills (c_out c))" and q: "c_queue c \<noteq> []"
  from cascade_fire_ok [of U P n c] inv q obtain c1 where fire: "cascade_fire c = Some c1"
    and inv1: "cascade_inv U P n c1" and less: "length (waiting c1) < length (waiting c)"
    by blast
  note k = cascade_scan_ok [OF inv1]
  from k(3) have "length (waiting (cascade_scan c1)) = length (waiting c1)" by (rule mset_eq_length)
  with fire k less show "\<exists>t. cascade_step c = Some t \<and>
      (cascade_inv U P n t \<and> c_scanned t = length (ex_fills (c_out t))) \<and> length (waiting t) < length (waiting c)"
    by (simp add: cascade_step_def)
qed

lemma run_stop_cascade_ok:
  assumes wf: "wf_book b" and ids: "distinct (map o_order_id (s_parked stops))"
    and new: "\<And>x. x \<in> set (s_parked stops) \<Longrightarrow> o_order_id x \<notin> book_ids b \<and> o_quantity x < 4294967296"
  shows "\<exists>b' stops' ltp' out'. run_stop_cascade (b, stops, ltp, out) = Some (b', stops', ltp', out') \<and>
    wf_book b' \<and> (\<not> crossed b \<longrightarrow> \<not> crossed b') \<and>
    (\<forall>f \<in> set (ex_fills out'). \<forall>x \<in> set (s_parked stops'). \<not> fires (x_trade_price f) x) \<and>
    mset (map o_order_id (s_parked stops')) + mset (drop (length (ex_triggered out)) (ex_triggered out')) =
      mset (map o_order_id (s_parked stops))"
proof -
  let ?P = "mset (map o_order_id (s_parked stops))" and ?n = "length (ex_triggered out)"
  define c0 where "c0 = \<lparr>c_book = b, c_stops = stops, c_last_trade_price = ltp, c_out = out,
      c_scanned = 0, c_queue = []\<rparr>"
  have "cascade_inv (\<not> crossed b) ?P ?n c0"
    using wf ids new by (simp add: cascade_inv_def waiting_def c0_def)
  note k = cascade_scan_ok [OF this]
  from cascade_loop.returns [of "\<not> crossed b" ?P ?n "cascade_scan c0"] k(1,2) obtain c where
    loop: "loop_while (\<lambda>c. c_queue c \<noteq> []) cascade_step (cascade_scan c0) = Some c"
    and inv: "cascade_inv (\<not> crossed b) ?P ?n c" and scanned: "c_scanned c = length (ex_fills (c_out c))" and q: "c_queue c = []"
    by blast
  have "run_stop_cascade (b, stops, ltp, out) = Some (c_book c, c_stops c, c_last_trade_price c, c_out c)"
    using loop by (simp add: run_stop_cascade_def c0_def)
  with inv scanned q show ?thesis by (simp add: cascade_inv_def waiting_def)
qed

section \<open>Parked stops\<close>

lemma position_Some:
  "position P xs = Some i \<Longrightarrow> i < length xs \<and> P (xs ! i) \<and> (\<forall>j < i. \<not> P (xs ! j))"
proof (induction xs arbitrary: i)
  case (Cons x xs)
  show ?case
  proof (cases "P x")
    case False
    with Cons.prems obtain k where "position P xs = Some k" "i = Suc k" by auto
    with Cons.IH [of k] False show ?thesis by (auto simp: less_Suc_eq_0_disj)
  qed (use Cons.prems in simp)
qed simp

lemma position_None: "position P xs = None \<longleftrightarrow> (\<forall>x \<in> set xs. \<not> P x)"
  by (induction xs) auto

lemma vec_remove_filter:
  assumes "distinct (map f xs)" and "i < length xs"
  shows "vec_remove i xs = filter (\<lambda>y. f y \<noteq> f (xs ! i)) xs"
proof -
  have split: "xs = take i xs @ xs ! i # drop (Suc i) xs" using assms(2) by (rule id_take_nth_drop)
  have "distinct (map f (take i xs @ xs ! i # drop (Suc i) xs))" using assms(1) split by simp
  then have "f (xs ! i) \<notin> f ` set (take i xs)" "f (xs ! i) \<notin> f ` set (drop (Suc i) xs)" by auto
  then have "filter (\<lambda>y. f y \<noteq> f (xs ! i)) (take i xs) = take i xs"
    "filter (\<lambda>y. f y \<noteq> f (xs ! i)) (drop (Suc i) xs) = drop (Suc i) xs"
    by (simp_all add: filter_id_conv image_iff) metis+
  then have "filter (\<lambda>y. f y \<noteq> f (xs ! i)) (take i xs @ xs ! i # drop (Suc i) xs) = vec_remove i xs"
    by (simp add: vec_remove_def)
  then show ?thesis using split by simp
qed

lemma position_for_cases:
  assumes "distinct (map o_order_id (s_parked sb))"
  obtains (unknown) "position_for oid owner sb = Inl UnknownOrder" "oid \<notin> o_order_id ` set (s_parked sb)"
  | (foreign) x where "position_for oid owner sb = Inl NotOwner" "x \<in> set (s_parked sb)" "o_order_id x = oid" "o_trader_id x \<noteq> owner"
  | (found) i where "position_for oid owner sb = Inr i" "s_parked sb ! i \<in> set (s_parked sb)"
      "o_order_id (s_parked sb ! i) = oid" "o_trader_id (s_parked sb ! i) = owner"
      "vec_remove i (s_parked sb) = filter (\<lambda>y. o_order_id y \<noteq> oid) (s_parked sb)"
proof (cases "position (\<lambda>x. o_order_id x = oid) (s_parked sb)")
  case None
  then show thesis by (intro unknown) (auto simp: position_for_def dest: position_None [THEN iffD1])
next
  case (Some i)
  note k = position_Some [OF Some]
  then have "s_parked sb ! i \<in> set (s_parked sb)" by simp
  with k Some vec_remove_filter [OF assms, of i] show thesis
    by (cases "o_trader_id (s_parked sb ! i) = owner")
      (simp add: found position_for_def, simp add: foreign [of "s_parked sb ! i"] position_for_def)
qed

section \<open>Properties\<close>

definition sample_stop :: order where
  "sample_stop = (sample_order ''P1'' ''carol'' Sell 99 3 0)\<lparr>o_order_type := Stop, o_stop_price := 101\<rparr>"

definition sample_stops :: stop_book where
  "sample_stops = park sample_stop stop_book_default"

definition sample_stop_change :: stop_replace where
  "sample_stop_change = \<lparr>sr_new_price = 0, sr_new_stop_price = 98, sr_new_quantity = 0,
     sr_new_time_in_force = None, sr_client_order_id = ''c2'', sr_timestamp = 7\<rparr>"

lemma sample_stops_facts:
  "distinct (map o_order_id (s_parked sample_stops))"
  "s_parked sample_stops = [sample_stop]" "o_order_id sample_stop = ''P1''" "o_quantity sample_stop < 4294967296"
  "o_order_id sample_stop \<notin> book_ids sample_book"
  by (simp_all add: sample_stops_def park_def stop_book_default_def sample_stop_def sample_order_def book_ids_def sample_lookup)

text \<open>
  C12. Executing an order of any type and time in force against a well-formed book returns. The
  book stays well formed, an uncrossed book stays uncrossed, at most the order itself comes to
  rest, and what the order traded plus what rests of it is at most its quantity.
\<close>

theorem execute_into_correct:
  assumes "wf_book b" and "o_order_id a \<notin> book_ids b" and "o_quantity a < 2 ^ 32"
  shows "\<exists>b' out' rested new. execute_into a (b, out) = Some (b', out', rested) \<and> wf_book b' \<and>
    (\<not> crossed b \<longrightarrow> \<not> crossed b') \<and> book_ids b' \<subseteq> insert (o_order_id a) (book_ids b) \<and>
    ex_fills out' = ex_fills out @ new \<and>
    qty_of b' (o_order_id a) + traded new (o_order_id a) \<le> o_quantity a"
  using execute_into_ok [OF assms(1,2), of out] assms(3) by auto

theorem execute_into_correct_witness:
  "\<exists>b' out' rested new. execute_into sample_stop (sample_book, execution_default) = Some (b', out', rested) \<and> wf_book b' \<and>
    (\<not> crossed sample_book \<longrightarrow> \<not> crossed b') \<and>
    book_ids b' \<subseteq> insert (o_order_id sample_stop) (book_ids sample_book) \<and>
    ex_fills out' = ex_fills execution_default @ new \<and>
    qty_of b' (o_order_id sample_stop) + traded new (o_order_id sample_stop) \<le> o_quantity sample_stop"
  by (rule execute_into_correct) (use wf_sample_book sample_stops_facts in simp_all)

text \<open>
  C13. The stop cascade terminates. At its end no print, neither of the incoming order nor of a
  stop that fired, reaches the stop price of a parked stop; every parked stop either fired, once,
  or is still parked; the book stays well formed and uncrossed.
\<close>

theorem run_stop_cascade_complete:
  assumes "wf_book b" and "distinct (map o_order_id (s_parked stops))"
    and "\<And>x. x \<in> set (s_parked stops) \<Longrightarrow> o_order_id x \<notin> book_ids b \<and> o_quantity x < 2 ^ 32"
  shows "\<exists>b' stops' ltp' out'. run_stop_cascade (b, stops, ltp, out) = Some (b', stops', ltp', out') \<and>
    wf_book b' \<and> (\<not> crossed b \<longrightarrow> \<not> crossed b') \<and>
    (\<forall>f \<in> set (ex_fills out'). \<forall>x \<in> set (s_parked stops'). \<not> stop_fires x (x_trade_price f)) \<and>
    mset (map o_order_id (s_parked stops')) + mset (drop (length (ex_triggered out)) (ex_triggered out')) =
      mset (map o_order_id (s_parked stops))"
proof -
  have "stop_fires x p = fires p x" for x p by (simp add: stop_fires_def fires_def)
  with run_stop_cascade_ok [OF assms(1,2), of ltp out] assms(3) show ?thesis by simp
qed

theorem run_stop_cascade_complete_witness:
  "\<exists>b' stops' ltp' out'. run_stop_cascade (sample_book, sample_stops, None, execution_default) = Some (b', stops', ltp', out') \<and>
    wf_book b' \<and> (\<not> crossed sample_book \<longrightarrow> \<not> crossed b') \<and>
    (\<forall>f \<in> set (ex_fills out'). \<forall>x \<in> set (s_parked stops'). \<not> stop_fires x (x_trade_price f)) \<and>
    mset (map o_order_id (s_parked stops')) + mset (drop (length (ex_triggered execution_default)) (ex_triggered out')) =
      mset (map o_order_id (s_parked sample_stops))"
  by (rule run_stop_cascade_complete) (use wf_sample_book sample_stops_facts in simp_all)

text \<open>
  C14. A print fires exactly the stops it reaches and keeps the others in arrival order. The
  fired stops come in the order the price path reached them, buy stops by rising and sell stops
  by falling stop price, and those at the same distance in their order of arrival.
\<close>

theorem drain_triggered_stops_order:
  "drain_triggered_stops parked p = (trig, rest) \<longrightarrow>
     rest = filter (\<lambda>x. \<not> fires p x) parked \<and> mset trig = mset (filter (fires p) parked) \<and>
     sorted (map o_stop_price (filter (\<lambda>x. o_side x = Buy) trig)) \<and>
     sorted (rev (map o_stop_price (filter (\<lambda>x. o_side x = Sell) trig))) \<and>
     (\<forall>d. filter (\<lambda>x. \<bar>o_stop_price x - p\<bar> = d) trig = filter (\<lambda>x. fires p x \<and> \<bar>o_stop_price x - p\<bar> = d) parked)"
proof
  let ?key = "\<lambda>x. - \<bar>o_stop_price x - p\<bar>"
  assume "drain_triggered_stops parked p = (trig, rest)"
  then have trig: "trig = sort_key ?key (filter (fires p) parked)" and rest: "rest = filter (\<lambda>x. \<not> fires p x) parked"
    by (simp_all add: drain_triggered_stops_def Let_def)
  have fired: "x \<in> set trig \<Longrightarrow> fires p x" for x by (simp add: trig)
  have sorted: "sorted_wrt (\<lambda>x y. ?key x \<le> ?key y) trig"
    using sorted_sort_key [of ?key] by (simp add: trig sorted_map)
  have side: "sorted_wrt (\<lambda>x y. ?key x \<le> ?key y) (filter P trig)" for P
    using sorted by (rule sorted_wrt_filter)
  have buy: "sorted (map o_stop_price (filter (\<lambda>x. o_side x = Buy) trig))"
    unfolding sorted_map
    by (rule sorted_wrt_mono_rel [OF _ side]) (auto simp: fires_def dest!: fired)
  have sell: "sorted (rev (map o_stop_price (filter (\<lambda>x. o_side x = Sell) trig)))"
    unfolding sorted_wrt_rev sorted_wrt_map
    by (rule sorted_wrt_mono_rel [OF _ side]) (auto simp: fires_def dest!: fired)
  have "filter (\<lambda>x. ?key x = - d) trig = filter (\<lambda>x. ?key x = - d) (filter (fires p) parked)" for d
    unfolding trig by (rule sort_key_stable)
  then have "filter (\<lambda>x. \<bar>o_stop_price x - p\<bar> = d) trig = filter (\<lambda>x. fires p x \<and> \<bar>o_stop_price x - p\<bar> = d) parked" for d
    by (simp add: conj_commute)
  with buy sell rest show "rest = filter (\<lambda>x. \<not> fires p x) parked \<and> mset trig = mset (filter (fires p) parked) \<and>
     sorted (map o_stop_price (filter (\<lambda>x. o_side x = Buy) trig)) \<and>
     sorted (rev (map o_stop_price (filter (\<lambda>x. o_side x = Sell) trig))) \<and>
     (\<forall>d. filter (\<lambda>x. \<bar>o_stop_price x - p\<bar> = d) trig = filter (\<lambda>x. fires p x \<and> \<bar>o_stop_price x - p\<bar> = d) parked)"
    by (simp add: trig)
qed

theorem drain_triggered_stops_order_witness:
  "\<exists>trig rest. drain_triggered_stops [sample_stop] 100 = (trig, rest) \<and> sorted (map o_stop_price (filter (\<lambda>x. o_side x = Buy) trig)) \<and>
     mset trig = mset (filter (fires 100) [sample_stop]) \<and> fires 100 sample_stop"
proof -
  obtain trig rest where "drain_triggered_stops [sample_stop] 100 = (trig, rest)" by fastforce
  with drain_triggered_stops_order [of "[sample_stop]" 100 trig rest] show ?thesis
    by (simp add: fires_def sample_stop_def sample_order_def)
qed

text \<open>
  C15. Replacing a parked stop either rejects for the reason the code gives and changes nothing,
  or takes exactly that stop out and parks its replacement behind every other stop. The
  replacement keeps side and owner, a zero in the request keeps the old value, and identifiers
  stay distinct.
\<close>

theorem stops_replace_for_correct:
  assumes dist: "distinct (map o_order_id (s_parked sb))"
    and res: "stops_replace_for orig_id new_id ch owner in_use sb = (sb', r)"
  shows "case r of
      Inl e \<Rightarrow> sb' = sb \<and>
        (e = UnknownOrder \<and> orig_id \<notin> o_order_id ` set (s_parked sb) \<or>
         e = NotOwner \<and> (\<exists>x \<in> set (s_parked sb). o_order_id x = orig_id \<and> o_trader_id x \<noteq> owner) \<or>
         e = DuplicateOrderId \<and> new_id \<noteq> orig_id \<and> (in_use \<or> new_id \<in> o_order_id ` set (s_parked sb)))
    | Inr y \<Rightarrow> s_parked sb' = filter (\<lambda>x. o_order_id x \<noteq> orig_id) (s_parked sb) @ [y] \<and>
        distinct (map o_order_id (s_parked sb')) \<and> o_order_id y = new_id \<and>
        (\<exists>x \<in> set (s_parked sb). o_order_id x = orig_id \<and> o_trader_id x = owner \<and> o_trader_id y = owner \<and>
           o_side y = o_side x \<and> o_order_type y = o_order_type x \<and>
           o_stop_price y = (if 0 < sr_new_stop_price ch then sr_new_stop_price ch else o_stop_price x) \<and>
           o_price y = (if 0 < sr_new_price ch then sr_new_price ch else o_price x) \<and>
           o_quantity y = (if 0 < sr_new_quantity ch then sr_new_quantity ch else o_quantity x))"
proof (cases rule: position_for_cases [OF dist, where oid = orig_id and owner = owner, case_names unknown foreign found])
  case unknown
  with res show ?thesis by (auto simp: stops_replace_for_def)
next
  case (foreign x)
  with res show ?thesis by (auto simp: stops_replace_for_def)
next
  case (found i)
  show ?thesis
  proof (cases "new_id \<noteq> orig_id \<and> (in_use \<or> stops_contains sb new_id)")
    case True
    with found(1) res show ?thesis by (auto simp: stops_replace_for_def stops_contains_def)
  next
    case False
    have "distinct (map o_order_id (filter (\<lambda>x. o_order_id x \<noteq> orig_id) (s_parked sb)))"
      using dist by (rule distinct_map_filter)
    moreover have "new_id \<notin> o_order_id ` set (filter (\<lambda>x. o_order_id x \<noteq> orig_id) (s_parked sb))"
      using False by (auto simp: stops_contains_def)
    moreover have "s_parked sb' = filter (\<lambda>x. o_order_id x \<noteq> orig_id) (s_parked sb) @ [projr r] \<and> r = Inr (projr r)"
      "o_order_id (projr r) = new_id"
      using res found False by (auto simp: stops_replace_for_def Let_def)
    ultimately have "s_parked sb' = filter (\<lambda>x. o_order_id x \<noteq> orig_id) (s_parked sb) @ [projr r]" "r = Inr (projr r)"
      "distinct (map o_order_id (s_parked sb'))" "o_order_id (projr r) = new_id"
      by simp_all
    moreover have "\<exists>x \<in> set (s_parked sb). o_order_id x = orig_id \<and> o_trader_id x = owner \<and> o_trader_id (projr r) = owner \<and>
           o_side (projr r) = o_side x \<and> o_order_type (projr r) = o_order_type x \<and>
           o_stop_price (projr r) = (if 0 < sr_new_stop_price ch then sr_new_stop_price ch else o_stop_price x) \<and>
           o_price (projr r) = (if 0 < sr_new_price ch then sr_new_price ch else o_price x) \<and>
           o_quantity (projr r) = (if 0 < sr_new_quantity ch then sr_new_quantity ch else o_quantity x)"
      using res found False
      by (intro bexI [of _ "s_parked sb ! i"]) (auto simp: stops_replace_for_def Let_def)
    ultimately show ?thesis by (cases r) auto
  qed
qed

theorem stops_replace_for_correct_witness:
  "\<exists>sb' y. stops_replace_for ''P1'' ''P2'' sample_stop_change ''carol'' False sample_stops = (sb', Inr y) \<and>
     s_parked sb' = filter (\<lambda>x. o_order_id x \<noteq> ''P1'') (s_parked sample_stops) @ [y] \<and> o_order_id y = ''P2''"
proof -
  obtain sb' r where res: "stops_replace_for ''P1'' ''P2'' sample_stop_change ''carol'' False sample_stops = (sb', r)"
    by fastforce
  moreover from this obtain y where "r = Inr y"
    by (auto simp: stops_replace_for_def position_for_def sample_stops_facts sample_stop_def sample_order_def
        stops_contains_def Let_def)
  ultimately show ?thesis using stops_replace_for_correct [OF sample_stops_facts(1) res] by simp
qed

end
