(* ===== verification/Fxp_Messages.thy ===== *)
theory Fxp_Messages
  imports Fxp_Text
begin

text \<open>
  The messages of the protocol as the engine sees them (\<^verbatim>\<open>proto/fxp.proto\<close>): requests with raw
  32-bit enum numbers, reports, and the ordered time stamps of \<^verbatim>\<open>engine.rs\<close>. A record keeps the
  fields the engine reads or writes; an enum number outside the declared ones is the error of the
  generated \<^verbatim>\<open>TryFrom\<close>.
\<close>

section \<open>Time\<close>

datatype time = Time (t_seconds: int) (t_nanos: int)

instantiation time :: linorder
begin

definition less_eq_time :: "time \<Rightarrow> time \<Rightarrow> bool" where
  "less_eq_time a b \<longleftrightarrow> t_seconds a < t_seconds b \<or> t_seconds a = t_seconds b \<and> t_nanos a \<le> t_nanos b"

definition less_time :: "time \<Rightarrow> time \<Rightarrow> bool" where
  "less_time a b \<longleftrightarrow> t_seconds a < t_seconds b \<or> t_seconds a = t_seconds b \<and> t_nanos a < t_nanos b"

instance
  by standard (auto simp: less_eq_time_def less_time_def time.expand)

end

text \<open>\<^verbatim>\<open>as_millis\<close> works on 64-bit unsigned numbers.\<close>

definition as_u64 :: "int \<Rightarrow> nat" where
  "as_u64 i = nat (i mod 2 ^ 64)"

definition as_i64 :: "int \<Rightarrow> int" where
  "as_i64 i = (i + 2 ^ 63) mod 2 ^ 64 - 2 ^ 63"

definition as_millis :: "time \<Rightarrow> nat" where
  "as_millis t = (as_u64 (t_seconds t) * 1000 + as_u64 (t_nanos t) div 1000000) mod 2 ^ 64"

section \<open>Enumerations\<close>

datatype trading_phase = Closed | OpeningCall | Continuous | ClosingCall

fun phase_i32 :: "trading_phase \<Rightarrow> int" where
  "phase_i32 Closed = 1"
| "phase_i32 OpeningCall = 2"
| "phase_i32 Continuous = 3"
| "phase_i32 ClosingCall = 4"

datatype execution_type =
  ExecNew | ExecFilled | ExecCanceled | ExecReplaced | ExecRejected | ExecExpired
| ExecPendingCancel | ExecPendingReplace | ExecRestated | ExecOrderStatus

fun exec_i32 :: "execution_type \<Rightarrow> int" where
  "exec_i32 ExecNew = 1"
| "exec_i32 ExecFilled = 2"
| "exec_i32 ExecCanceled = 3"
| "exec_i32 ExecReplaced = 4"
| "exec_i32 ExecRejected = 5"
| "exec_i32 ExecExpired = 6"
| "exec_i32 ExecPendingCancel = 7"
| "exec_i32 ExecPendingReplace = 8"
| "exec_i32 ExecRestated = 9"
| "exec_i32 ExecOrderStatus = 10"

datatype order_status =
  OrderNew | OrderPending | OrderFilled | OrderPartiallyFilled | OrderCanceled | OrderRejected
| OrderReplaced | OrderExpired | OrderPendingCancel | OrderPendingReplace

fun status_i32 :: "order_status \<Rightarrow> int" where
  "status_i32 OrderNew = 1"
| "status_i32 OrderPending = 2"
| "status_i32 OrderFilled = 3"
| "status_i32 OrderPartiallyFilled = 4"
| "status_i32 OrderCanceled = 5"
| "status_i32 OrderRejected = 6"
| "status_i32 OrderReplaced = 7"
| "status_i32 OrderExpired = 8"
| "status_i32 OrderPendingCancel = 9"
| "status_i32 OrderPendingReplace = 10"

section \<open>Requests\<close>

record new_order_single =
  n_order_id :: string
  n_sender :: string
  n_symbol :: string
  n_price :: int
  n_side :: int
  n_quantity :: int
  n_order_type :: int
  n_time_in_force :: int
  n_stop_price :: int
  n_expire_date :: string
  n_account :: string
  n_client_order_id :: string
  n_stp_mode :: int
  n_stp_group :: string
  n_display_quantity :: int

section \<open>Reports\<close>

definition protocol_version :: string where
  "protocol_version = ''2.6''"

record fxp_header =
  h_protocol_version :: string
  h_sequence_number :: nat

record report =
  rp_header :: "fxp_header option"
  rp_execution_id :: string
  rp_order_id :: string
  rp_symbol :: string
  rp_execution_type :: int
  rp_order_status :: int
  rp_execution_price :: int
  rp_executed_quantity :: int
  rp_timestamp :: "time option"
  rp_leaves_quantity :: int
  rp_avg_px :: int
  rp_cum_quantity :: int
  rp_account :: string
  rp_client_order_id :: string
  rp_orig_order_id :: string
  rp_reject_reason :: string
  rp_side :: int
  rp_order_quantity :: int
  rp_auction :: bool
  rp_display_quantity :: int

text \<open>\<^verbatim>\<open>ExecutionReport::default()\<close>: zeros and empty strings.\<close>

definition report_default :: report where
  "report_default =
     \<lparr>rp_header = None, rp_execution_id = [], rp_order_id = [], rp_symbol = [], rp_execution_type = 0,
      rp_order_status = 0, rp_execution_price = 0, rp_executed_quantity = 0, rp_timestamp = None,
      rp_leaves_quantity = 0, rp_avg_px = 0, rp_cum_quantity = 0, rp_account = [],
      rp_client_order_id = [], rp_orig_order_id = [], rp_reject_reason = [], rp_side = 0,
      rp_order_quantity = 0, rp_auction = False, rp_display_quantity = 0\<rparr>"

record fxp_md_change =
  fm_update_type :: int
  fm_price :: int
  fm_quantity :: int
  fm_side :: int

record fxp_md_update =
  fm_header :: "fxp_header option"
  fm_symbol :: string
  fm_changes :: "fxp_md_change list"
  fm_timestamp :: "time option"

record fxp_entry =
  fe_price :: int
  fe_size :: int
  fe_side :: int

record fxp_snapshot =
  fs_header :: "fxp_header option"
  fs_symbol :: string
  fs_bid_levels :: "fxp_entry list"
  fs_ask_levels :: "fxp_entry list"
  fs_bid_ask_spread :: int
  fs_total_volume :: int
  fs_timestamp :: "time option"

record trade_report =
  tr_header :: "fxp_header option"
  tr_trade_id :: string
  tr_buy_order_id :: string
  tr_sell_order_id :: string
  tr_symbol :: string
  tr_trade_price :: int
  tr_trade_quantity :: int
  tr_timestamp :: "time option"
  tr_aggressor_side :: int
  tr_seq :: nat
  tr_is_auction :: bool

record session_status =
  ss_symbol :: string
  ss_phase :: int
  ss_timestamp :: "time option"

record auction_info =
  ai_symbol :: string
  ai_phase :: int
  ai_indicative_price :: int
  ai_indicative_volume :: nat
  ai_imbalance_quantity :: nat
  ai_imbalance_side :: int
  ai_reference_price :: int
  ai_timestamp :: "time option"

datatype 'r engine_output =
  TradingSessionStatus session_status
| AuctionInfo auction_info
| ExecutionReport 'r report
| MarketData fxp_md_update
| Trade trade_report
| Snapshot 'r fxp_snapshot
| MassCancelCount nat

end
