(* ===== verification/Fxp_Auction.thy ===== *)
theory Fxp_Auction
  imports Fxp_Messages
begin

text \<open>
  The call auction (\<^verbatim>\<open>engine/auction.rs\<close>): the clearing price and volume of a set of orders
  (\<^verbatim>\<open>uncross\<close>) and the allocation of that volume in market, price and time priority
  (\<^verbatim>\<open>allocate\<close>). The 64-bit sums of 32-bit quantities are natural numbers here.
\<close>

datatype auction_side = AuctionBuy | AuctionSell

record auction_order =
  a_id :: string
  a_side :: auction_side
  a_limit_price :: "int option"
  a_quantity :: nat
  a_seq :: nat

record auction_result =
  ar_price :: int
  ar_volume :: nat
  ar_imbalance :: int

definition auction_result_default :: auction_result where
  "auction_result_default = \<lparr>ar_price = 0, ar_volume = 0, ar_imbalance = 0\<rparr>"

record auction_fill =
  af_buy_id :: string
  af_sell_id :: string
  af_quantity :: nat
  af_price :: int

section \<open>Clearing\<close>

type_synonym auction_levels = "(int, nat \<times> nat) btreemap"

text \<open>One turn of the collecting loop: the levels, all buys, market sells and all sells.\<close>

definition collect_order ::
  "auction_levels \<times> nat \<times> nat \<times> nat \<Rightarrow> auction_order \<Rightarrow> auction_levels \<times> nat \<times> nat \<times> nat" where
  "collect_order = (\<lambda>(levels, buys, sells, total_sells) ord.
     (let qty = a_quantity ord;
          (buys', sells', total_sells') =
            (case a_side ord of
               AuctionBuy \<Rightarrow> (buys + qty, sells, total_sells)
             | AuctionSell \<Rightarrow>
                 (buys, if a_limit_price ord = None then sells + qty else sells, total_sells + qty));
          levels' =
            (case a_limit_price ord of
               None \<Rightarrow> levels
             | Some price \<Rightarrow>
                 (let (at_buy, at_sell) = (case map_of levels price of None \<Rightarrow> (0, 0) | Some l \<Rightarrow> l)
                  in bt_insert price
                       (case a_side ord of
                          AuctionBuy \<Rightarrow> (at_buy + qty, at_sell)
                        | AuctionSell \<Rightarrow> (at_buy, at_sell + qty)) levels))
      in (levels', buys', sells', total_sells')))"

fun candidates :: "nat \<Rightarrow> nat \<Rightarrow> auction_levels \<Rightarrow> auction_result list" where
  "candidates buys sells [] = []"
| "candidates buys sells ((price, at_buy, at_sell) # rest) =
     (let sells' = sells + at_sell
      in \<lparr>ar_price = price, ar_volume = min buys sells', ar_imbalance = int buys - int sells'\<rparr> #
         candidates (buys - at_buy) sells' rest)"

definition uncross :: "auction_order list \<Rightarrow> int option \<Rightarrow> auction_result" where
  "uncross orders reference_price =
     (let (levels, buys, sells, total_sells) = foldl collect_order ([], 0, 0, 0) orders;
          no_cross = \<lparr>ar_price = 0, ar_volume = 0, ar_imbalance = int buys - int total_sells\<rparr>
      in if levels = [] then
           (case reference_price of
              Some price \<Rightarrow>
                (if min buys sells > 0
                 then \<lparr>ar_price = price, ar_volume = min buys sells, ar_imbalance = ar_imbalance no_cross\<rparr>
                 else no_cross)
            | None \<Rightarrow> no_cross)
         else
           (let cands = candidates buys sells levels;
                max_volume = Max (set (map ar_volume cands))
            in if max_volume = 0 then no_cross
               else
                 (let cands1 = filter (\<lambda>r. ar_volume r = max_volume) cands;
                      min_imbalance = Min (set (map (\<lambda>r. \<bar>ar_imbalance r\<bar>) cands1));
                      cands2 = filter (\<lambda>r. \<bar>ar_imbalance r\<bar> = min_imbalance) cands1;
                      cands3 =
                        (case reference_price of
                           None \<Rightarrow> cands2
                         | Some reference \<Rightarrow>
                             (let closest = Min (set (map (\<lambda>r. \<bar>ar_price r - reference\<bar>) cands2))
                              in filter (\<lambda>r. \<bar>ar_price r - reference\<bar> = closest) cands2))
                  in if list_all (\<lambda>r. ar_imbalance r > 0) cands3 then last cands3 else hd cands3)))"

section \<open>Allocation\<close>

text \<open>
  The comparison of \<^verbatim>\<open>sort_by\<close> as a lexicographic key: market orders first, then the better
  price, then the sequence number, then the identifier.
\<close>

definition auction_key :: "auction_side \<Rightarrow> auction_order \<Rightarrow> bool \<times> int \<times> nat \<times> string" where
  "auction_key sd ord =
     (a_limit_price ord \<noteq> None,
      (case a_limit_price ord of
         None \<Rightarrow> 0
       | Some p \<Rightarrow> (case sd of AuctionBuy \<Rightarrow> - p | AuctionSell \<Rightarrow> p)),
      a_seq ord, a_id ord)"

definition eligible :: "auction_side \<Rightarrow> int \<Rightarrow> auction_order \<Rightarrow> bool" where
  "eligible sd price ord \<longleftrightarrow>
     a_side ord = sd \<and> a_quantity ord > 0 \<and>
     (case a_limit_price ord of
        None \<Rightarrow> True
      | Some p \<Rightarrow> (case sd of AuctionBuy \<Rightarrow> p \<ge> price | AuctionSell \<Rightarrow> p \<le> price))"

definition auction_queue :: "auction_order list \<Rightarrow> int \<Rightarrow> auction_side \<Rightarrow> auction_order list" where
  "auction_queue orders price sd = sort_key (auction_key sd) (filter (eligible sd price) orders)"

record allocation =
  al_b :: nat
  al_s :: nat
  al_buy_used :: nat
  al_sell_used :: nat
  al_remaining :: nat
  al_fills :: "auction_fill list"

definition allocate_step ::
  "int \<Rightarrow> auction_order list \<Rightarrow> auction_order list \<Rightarrow> allocation \<Rightarrow> allocation option" where
  "allocate_step price buys sells st =
     (let buy = buys ! al_b st;
          sell = sells ! al_s st;
          buy_left = sub_u32 (a_quantity buy) (al_buy_used st);
          sell_left = sub_u32 (a_quantity sell) (al_sell_used st);
          quantity = min (min buy_left sell_left) (al_remaining st);
          fills = al_fills st @
            [\<lparr>af_buy_id = a_id buy, af_sell_id = a_id sell, af_quantity = quantity, af_price = price\<rparr>];
          buy_used = add_u32 (al_buy_used st) quantity;
          sell_used = add_u32 (al_sell_used st) quantity;
          (b, buy_used') = (if buy_used = a_quantity buy then (al_b st + 1, 0) else (al_b st, buy_used));
          (s, sell_used') = (if sell_used = a_quantity sell then (al_s st + 1, 0) else (al_s st, sell_used))
      in Some \<lparr>al_b = b, al_s = s, al_buy_used = buy_used', al_sell_used = sell_used',
               al_remaining = al_remaining st - quantity, al_fills = fills\<rparr>)"

definition allocate :: "auction_order list \<Rightarrow> auction_result \<Rightarrow> auction_fill list option" where
  "allocate orders result =
     (let buys = auction_queue orders (ar_price result) AuctionBuy;
          sells = auction_queue orders (ar_price result) AuctionSell
      in map_option al_fills
           (loop_while (\<lambda>st. al_remaining st > 0 \<and> al_b st < length buys \<and> al_s st < length sells)
              (allocate_step (ar_price result) buys sells)
              \<lparr>al_b = 0, al_s = 0, al_buy_used = 0, al_sell_used = 0,
               al_remaining = ar_volume result, al_fills = []\<rparr>))"

section \<open>Demand and supply\<close>

text \<open>
  The quantities an auction is about: what the orders are worth at a price, on each side, and
  what can trade there.
\<close>

definition qty_where :: "(auction_order \<Rightarrow> bool) \<Rightarrow> auction_order list \<Rightarrow> nat" where
  "qty_where P xs = sum_list (map a_quantity (filter P xs))"

definition buys_at :: "int \<Rightarrow> auction_order \<Rightarrow> bool" where
  "buys_at p x \<longleftrightarrow> a_side x = AuctionBuy \<and> (case a_limit_price x of None \<Rightarrow> True | Some l \<Rightarrow> p \<le> l)"

definition sells_at :: "int \<Rightarrow> auction_order \<Rightarrow> bool" where
  "sells_at p x \<longleftrightarrow> a_side x = AuctionSell \<and> (case a_limit_price x of None \<Rightarrow> True | Some l \<Rightarrow> l \<le> p)"

definition demand_at :: "auction_order list \<Rightarrow> int \<Rightarrow> nat" where
  "demand_at xs p = qty_where (buys_at p) xs"

definition supply_at :: "auction_order list \<Rightarrow> int \<Rightarrow> nat" where
  "supply_at xs p = qty_where (sells_at p) xs"

definition volume_at :: "auction_order list \<Rightarrow> int \<Rightarrow> nat" where
  "volume_at xs p = min (demand_at xs p) (supply_at xs p)"

definition imbalance_at :: "auction_order list \<Rightarrow> int \<Rightarrow> int" where
  "imbalance_at xs p = int (demand_at xs p) - int (supply_at xs p)"

definition limits :: "auction_order list \<Rightarrow> int set" where
  "limits xs = {p. \<exists>x \<in> set xs. a_limit_price x = Some p}"

definition cand :: "auction_order list \<Rightarrow> int \<Rightarrow> auction_result" where
  "cand xs p = \<lparr>ar_price = p, ar_volume = volume_at xs p, ar_imbalance = imbalance_at xs p\<rparr>"

lemma qty_where_Nil [simp]: "qty_where P [] = 0"
  and qty_where_Cons: "qty_where P (x # xs) = (if P x then a_quantity x else 0) + qty_where P xs"
  and qty_where_append: "qty_where P (xs @ ys) = qty_where P xs + qty_where P ys"
  by (simp_all add: qty_where_def)

lemma qty_where_cong: "(\<And>x. x \<in> set xs \<Longrightarrow> P x = Q x) \<Longrightarrow> qty_where P xs = qty_where Q xs"
  by (induction xs) (simp_all add: qty_where_Cons)

lemma qty_where_mono: "(\<And>x. x \<in> set xs \<Longrightarrow> P x \<Longrightarrow> Q x) \<Longrightarrow> qty_where P xs \<le> qty_where Q xs"
  by (induction xs) (auto simp: qty_where_Cons add_mono trans_le_add2)

lemma qty_where_disj:
  "(\<And>x. x \<in> set xs \<Longrightarrow> \<not> (P x \<and> Q x)) \<Longrightarrow> qty_where (\<lambda>x. P x \<or> Q x) xs = qty_where P xs + qty_where Q xs"
  by (induction xs) (auto simp: qty_where_Cons)

lemma finite_limits [simp]: "finite (limits xs)"
proof -
  have "limits xs \<subseteq> (\<lambda>x. the (a_limit_price x)) ` set xs" by (force simp: limits_def)
  then show ?thesis by (rule finite_subset) simp
qed

section \<open>What the collecting loop computes\<close>

definition at_limit :: "auction_side \<Rightarrow> int \<Rightarrow> auction_order \<Rightarrow> bool" where
  "at_limit sd p x \<longleftrightarrow> a_side x = sd \<and> a_limit_price x = Some p"

definition collected :: "auction_order list \<Rightarrow> auction_levels \<times> nat \<times> nat \<times> nat \<Rightarrow> bool" where
  "collected xs = (\<lambda>(levels, buys, sells, total_sells).
     bt_ok levels \<and>
     (\<forall>p. map_of levels p =
        (if p \<in> limits xs then Some (qty_where (at_limit AuctionBuy p) xs, qty_where (at_limit AuctionSell p) xs) else None)) \<and>
     buys = qty_where (\<lambda>x. a_side x = AuctionBuy) xs \<and>
     sells = qty_where (\<lambda>x. a_side x = AuctionSell \<and> a_limit_price x = None) xs \<and>
     total_sells = qty_where (\<lambda>x. a_side x = AuctionSell) xs)"

lemma at_limit_absent: "p \<notin> limits xs \<Longrightarrow> qty_where (at_limit sd p) xs = 0"
proof -
  assume "p \<notin> limits xs"
  then have "qty_where (at_limit sd p) xs = qty_where (\<lambda>_. False) xs"
    by (intro qty_where_cong) (auto simp: at_limit_def limits_def)
  then show ?thesis by (simp add: qty_where_def)
qed

lemma limits_snoc: "limits (xs @ [x]) = limits xs \<union> set_option (a_limit_price x)"
  by (auto simp: limits_def)

lemma collect_snoc:
  assumes "collected xs s"
  shows "collected (xs @ [x]) (collect_order s x)"
proof -
  obtain levels buys sells tot where s: "s = (levels, buys, sells, tot)" by (cases s)
  have bt: "bt_ok levels" and lv: "\<And>p. map_of levels p = (if p \<in> limits xs
      then Some (qty_where (at_limit AuctionBuy p) xs, qty_where (at_limit AuctionSell p) xs) else None)"
    using assms by (simp_all add: collected_def s)
  show ?thesis
  proof (cases "a_limit_price x")
    case None
    then have "\<not> at_limit sd p x" for sd p by (simp add: at_limit_def)
    with assms None show ?thesis
      by (cases "a_side x")
        (simp_all add: s collected_def collect_order_def qty_where_append qty_where_Cons limits_snoc Let_def)
  next
    case (Some l)
    have get: "(case map_of levels l of None \<Rightarrow> (0, 0) | Some l \<Rightarrow> l) =
        (qty_where (at_limit AuctionBuy l) xs, qty_where (at_limit AuctionSell l) xs)"
      by (simp add: lv at_limit_absent)
    have at: "at_limit sd p x \<longleftrightarrow> a_side x = sd \<and> l = p" for sd p by (simp add: at_limit_def Some)
    from assms Some show ?thesis
      by (cases "a_side x")
        (auto simp: s collected_def collect_order_def qty_where_append qty_where_Cons limits_snoc Let_def get at
           bt.ok_insert [OF bt] bt.get_insert [OF bt] lv at_limit_absent)
  qed
qed

lemma collected_all: "collected xs (foldl collect_order ([], 0, 0, 0) xs)"
proof (induction xs rule: rev_induct)
  case Nil
  show ?case by (simp add: collected_def limits_def bt.ok_empty)
next
  case (snoc x xs)
  then show ?case by (simp add: collect_snoc)
qed

section \<open>What the candidates are\<close>

lemma candidates_sorted:
  "bt_ok levels \<Longrightarrow> candidates buys sells levels = map (\<lambda>(p, _).
     (let d = buys - sum_list (map (\<lambda>(q, b, s). b) (filter (\<lambda>e. fst e < p) levels));
          o' = sells + sum_list (map (\<lambda>(q, b, s). s) (filter (\<lambda>e. fst e \<le> p) levels))
      in \<lparr>ar_price = p, ar_volume = min d o', ar_imbalance = int d - int o'\<rparr>)) levels"
proof (induction levels arbitrary: buys sells)
  case (Cons e levels)
  obtain p b s where e: "e = (p, b, s)" by (cases e)
  from Cons.prems have ok: "bt_ok levels" and gt: "\<And>f. f \<in> set levels \<Longrightarrow> p < fst f"
    by (auto simp: bt_ok_Cons e)
  have ge: "p \<le> q" if "(q, v) \<in> set levels" for q v using gt [OF that] by simp
  have none: "filter (\<lambda>f. fst f < p) levels = []" "filter (\<lambda>f. fst f \<le> p) levels = []"
    using gt by (fastforce simp: filter_empty_conv)+
  show ?case
    unfolding e candidates.simps Cons.IH [OF ok]
    using gt ge by (auto simp: none Let_def add.assoc intro!: map_cong)
qed simp

lemma qty_where_limits:
  assumes "finite L"
  shows "(\<Sum>q \<in> L. qty_where (at_limit sd q) xs) =
     qty_where (\<lambda>x. a_side x = sd \<and> (\<exists>q \<in> L. a_limit_price x = Some q)) xs"
proof (induction xs)
  case (Cons x xs)
  have "(\<Sum>q \<in> L. if at_limit sd q x then a_quantity x else 0) =
      (if a_side x = sd \<and> (\<exists>q \<in> L. a_limit_price x = Some q) then a_quantity x else 0)"
  proof (cases "a_limit_price x")
    case (Some l)
    then have "(if at_limit sd q x then a_quantity x else 0) = (if q = l then (if a_side x = sd then a_quantity x else 0) else 0)" for q
      by (auto simp: at_limit_def)
    with Some assms show ?thesis by (simp add: sum.delta)
  qed (simp add: at_limit_def)
  with Cons show ?case by (simp add: qty_where_Cons sum.distrib)
qed simp

lemma levels_sum:
  assumes bt: "bt_ok levels"
    and lv: "\<And>p. map_of levels p = (if p \<in> limits xs then Some (f p, g p) else None)"
  shows "sum_list (map (\<lambda>(q, b, s). b) (filter (\<lambda>e. P (fst e)) levels)) = (\<Sum>q \<in> {q \<in> limits xs. P q}. f q)"
    and "sum_list (map (\<lambda>(q, b, s). s) (filter (\<lambda>e. P (fst e)) levels)) = (\<Sum>q \<in> {q \<in> limits xs. P q}. g q)"
proof -
  let ?es = "filter (\<lambda>e. P (fst e)) levels"
  have dist: "distinct (map fst ?es)" using bt_ok_distinct [OF bt] by (rule distinct_map_filter)
  have mem: "e \<in> set levels \<longleftrightarrow> fst e \<in> limits xs \<and> snd e = (f (fst e), g (fst e))" for e
    using lv [of "fst e"] bt_get_set [OF bt, of "fst e" "snd e"] by (auto split: if_splits)
  have keys: "fst ` set ?es = {q \<in> limits xs. P q}"
  proof (intro equalityI subsetI)
    fix q assume "q \<in> {q \<in> limits xs. P q}"
    then have "(q, f q, g q) \<in> set ?es" by (simp add: mem)
    then show "q \<in> fst ` set ?es" by force
  qed (auto simp: mem)
  have val: "(\<lambda>(q, b, s). b) e = f (fst e)" "(\<lambda>(q, b, s). s) e = g (fst e)" if "e \<in> set ?es" for e
  proof -
    from that have "snd e = (f (fst e), g (fst e))" by (simp add: mem)
    then show "(\<lambda>(q, b, s). b) e = f (fst e)" "(\<lambda>(q, b, s). s) e = g (fst e)"
      by (simp_all add: case_prod_beta)
  qed
  have maps: "map (\<lambda>(q, b, s). b) ?es = map f (map fst ?es)" "map (\<lambda>(q, b, s). s) ?es = map g (map fst ?es)"
    unfolding map_map comp_def by (rule map_cong [OF refl val(1)], assumption) (rule map_cong [OF refl val(2)])
  show "sum_list (map (\<lambda>(q, b, s). b) ?es) = (\<Sum>q \<in> {q \<in> limits xs. P q}. f q)"
    "sum_list (map (\<lambda>(q, b, s). s) ?es) = (\<Sum>q \<in> {q \<in> limits xs. P q}. g q)"
    unfolding maps sum_list_distinct_conv_sum_set [OF dist] set_map keys by simp_all
qed

lemma candidates_collected:
  assumes "collected xs (levels, buys, sells, total_sells)"
  shows "candidates buys sells levels = map (cand xs) (map fst levels)"
proof -
  from assms have bt: "bt_ok levels"
    and lv: "\<And>p. map_of levels p = (if p \<in> limits xs
      then Some (qty_where (at_limit AuctionBuy p) xs, qty_where (at_limit AuctionSell p) xs) else None)"
    and b: "buys = qty_where (\<lambda>x. a_side x = AuctionBuy) xs"
    and s: "sells = qty_where (\<lambda>x. a_side x = AuctionSell \<and> a_limit_price x = None) xs"
    by (simp_all add: collected_def)
  note sums = levels_sum [OF bt lv]
  have dem: "buys - sum_list (map (\<lambda>(q, b, s). b) (filter (\<lambda>e. fst e < p) levels)) = demand_at xs p" for p
  proof -
    have "qty_where (\<lambda>x. a_side x = AuctionBuy) xs =
        qty_where (\<lambda>x. buys_at p x \<or> (a_side x = AuctionBuy \<and> (\<exists>q \<in> {q \<in> limits xs. q < p}. a_limit_price x = Some q))) xs"
      by (rule qty_where_cong) (auto simp: buys_at_def limits_def split: option.splits)
    also have "\<dots> = demand_at xs p +
        qty_where (\<lambda>x. a_side x = AuctionBuy \<and> (\<exists>q \<in> {q \<in> limits xs. q < p}. a_limit_price x = Some q)) xs"
      unfolding demand_at_def by (rule qty_where_disj) (auto simp: buys_at_def)
    finally show ?thesis by (simp add: sums(1) [of "\<lambda>q. q < p"] qty_where_limits b)
  qed
  have sup: "sells + sum_list (map (\<lambda>(q, b, s). s) (filter (\<lambda>e. fst e \<le> p) levels)) = supply_at xs p" for p
  proof -
    have "supply_at xs p =
        qty_where (\<lambda>x. (a_side x = AuctionSell \<and> a_limit_price x = None) \<or>
           (a_side x = AuctionSell \<and> (\<exists>q \<in> {q \<in> limits xs. q \<le> p}. a_limit_price x = Some q))) xs"
      unfolding supply_at_def by (rule qty_where_cong) (auto simp: sells_at_def limits_def split: option.splits)
    also have "\<dots> = sells +
        qty_where (\<lambda>x. a_side x = AuctionSell \<and> (\<exists>q \<in> {q \<in> limits xs. q \<le> p}. a_limit_price x = Some q)) xs"
      unfolding s by (rule qty_where_disj) auto
    finally show ?thesis by (simp add: sums(2) [of "\<lambda>q. q \<le> p"] qty_where_limits)
  qed
  show ?thesis
    unfolding candidates_sorted [OF bt] dem sup
    by (auto simp: cand_def volume_at_def imbalance_at_def Let_def)
qed

section \<open>The clearing price\<close>

lemma uncross_parts:
  obtains levels where
    "foldl collect_order ([], 0, 0, 0) xs =
       (levels, qty_where (\<lambda>x. a_side x = AuctionBuy) xs,
        qty_where (\<lambda>x. a_side x = AuctionSell \<and> a_limit_price x = None) xs,
        qty_where (\<lambda>x. a_side x = AuctionSell) xs)"
    and "levels = [] \<longleftrightarrow> limits xs = {}"
    and "candidates (qty_where (\<lambda>x. a_side x = AuctionBuy) xs)
           (qty_where (\<lambda>x. a_side x = AuctionSell \<and> a_limit_price x = None) xs) levels =
         map (cand xs) (sorted_list_of_set (limits xs))"
proof -
  obtain levels b s t where f: "foldl collect_order ([], 0, 0, 0) xs = (levels, b, s, t)"
    by (metis prod_cases4)
  with collected_all [of xs] have c: "collected xs (levels, b, s, t)" by simp
  then have bt: "bt_ok levels" and get: "\<And>p. map_of levels p \<noteq> None \<longleftrightarrow> p \<in> limits xs"
    by (simp_all add: collected_def)
  have keys: "set (map fst levels) = limits xs" using get by (auto simp: dom_map_of_conv_image_fst [symmetric])
  have "sorted (map fst levels)" "distinct (map fst levels)"
    using bt by (simp_all add: bt_ok_def strict_sorted_iff)
  with keys have ps: "map fst levels = sorted_list_of_set (limits xs)"
    by (metis sorted_list_of_set.idem_if_sorted_distinct)
  have "levels = [] \<longleftrightarrow> limits xs = {}" using keys by auto
  with that [of levels] f c candidates_collected [OF c] ps show thesis by (simp add: collected_def)
qed

definition nearer :: "int option \<Rightarrow> int \<Rightarrow> int \<Rightarrow> bool" where
  "nearer ref p q \<longleftrightarrow> (case ref of None \<Rightarrow> True | Some r \<Rightarrow> \<bar>p - r\<bar> \<le> \<bar>q - r\<bar>)"

text \<open>The prices that are left when volume, imbalance and the reference price do not decide.\<close>

definition tied :: "auction_order list \<Rightarrow> int option \<Rightarrow> int \<Rightarrow> int set" where
  "tied xs ref p = {q \<in> limits xs. volume_at xs q = volume_at xs p \<and> \<bar>imbalance_at xs q\<bar> = \<bar>imbalance_at xs p\<bar> \<and>
     nearer ref p q \<and> nearer ref q p}"

definition clears :: "auction_order list \<Rightarrow> int option \<Rightarrow> int \<Rightarrow> bool" where
  "clears xs ref p \<longleftrightarrow>
     p \<in> limits xs \<and> (\<forall>q \<in> limits xs. volume_at xs q \<le> volume_at xs p) \<and>
     (\<forall>q \<in> limits xs. volume_at xs q = volume_at xs p \<longrightarrow> \<bar>imbalance_at xs p\<bar> \<le> \<bar>imbalance_at xs q\<bar>) \<and>
     (\<forall>q \<in> limits xs. volume_at xs q = volume_at xs p \<and> \<bar>imbalance_at xs q\<bar> = \<bar>imbalance_at xs p\<bar> \<longrightarrow>
        nearer ref p q) \<and>
     (\<forall>q \<in> tied xs ref p. if \<forall>r \<in> tied xs ref p. 0 < imbalance_at xs r then q \<le> p else p \<le> q)"

lemma keep_best:
  fixes f :: "'a \<Rightarrow> 'b::linorder"
  assumes "ps \<noteq> []"
  shows "filter (\<lambda>p. f p = Min (f ` set ps)) ps \<noteq> []"
    and "set (filter (\<lambda>p. f p = Min (f ` set ps)) ps) = {p \<in> set ps. \<forall>q \<in> set ps. f p \<le> f q}"
    and "filter (\<lambda>p. f p = Max (f ` set ps)) ps \<noteq> []"
    and "set (filter (\<lambda>p. f p = Max (f ` set ps)) ps) = {p \<in> set ps. \<forall>q \<in> set ps. f q \<le> f p}"
proof -
  have "Min (f ` set ps) \<in> f ` set ps" "Max (f ` set ps) \<in> f ` set ps" using assms by (auto intro: Min_in Max_in)
  then show "filter (\<lambda>p. f p = Min (f ` set ps)) ps \<noteq> []" "filter (\<lambda>p. f p = Max (f ` set ps)) ps \<noteq> []"
    by (auto simp: filter_empty_conv)
  show "set (filter (\<lambda>p. f p = Min (f ` set ps)) ps) = {p \<in> set ps. \<forall>q \<in> set ps. f p \<le> f q}"
    "set (filter (\<lambda>p. f p = Max (f ` set ps)) ps) = {p \<in> set ps. \<forall>q \<in> set ps. f q \<le> f p}"
    using assms by (auto simp: eq_Min_iff eq_Max_iff)
qed

lemma sorted_ends:
  fixes ps :: "int list"
  shows "sorted ps \<Longrightarrow> q \<in> set ps \<Longrightarrow> hd ps \<le> q" and "sorted ps \<Longrightarrow> q \<in> set ps \<Longrightarrow> q \<le> last ps"
proof -
  show "sorted ps \<Longrightarrow> q \<in> set ps \<Longrightarrow> hd ps \<le> q" by (cases ps) auto
  show "sorted ps \<Longrightarrow> q \<in> set ps \<Longrightarrow> q \<le> last ps"
    by (induction ps) (auto intro: last_in_set)
qed

text \<open>The prices that survive the three filters of the code, in rising order.\<close>

definition best_by :: "(int \<Rightarrow> 'b::linorder) \<Rightarrow> int list \<Rightarrow> int list" where
  "best_by f ps = filter (\<lambda>p. f p = Min (f ` set ps)) ps"

definition fullest :: "auction_order list \<Rightarrow> int list" where
  "fullest xs = (let ps = sorted_list_of_set (limits xs)
     in filter (\<lambda>p. volume_at xs p = Max (volume_at xs ` set ps)) ps)"

definition survivors :: "auction_order list \<Rightarrow> int option \<Rightarrow> int list" where
  "survivors xs ref =
     (let ps = best_by (\<lambda>p. \<bar>imbalance_at xs p\<bar>) (fullest xs)
      in case ref of None \<Rightarrow> ps | Some r \<Rightarrow> best_by (\<lambda>p. \<bar>p - r\<bar>) ps)"

lemma best_by:
  assumes "ps \<noteq> []"
  shows "best_by f ps \<noteq> []" and "set (best_by f ps) = {p \<in> set ps. \<forall>q \<in> set ps. f p \<le> f q}"
    and "sorted ps \<Longrightarrow> sorted (best_by f ps)"
  using keep_best(1,2) [OF assms, of f] by (simp_all add: best_by_def sorted_wrt_filter)

lemma fullest:
  assumes "limits xs \<noteq> {}"
  shows "fullest xs \<noteq> []" and "set (fullest xs) = {p \<in> limits xs. \<forall>q \<in> limits xs. volume_at xs q \<le> volume_at xs p}"
    and "sorted (fullest xs)"
proof -
  have "sorted_list_of_set (limits xs) \<noteq> []" using assms by simp
  from keep_best(3,4) [OF this, of "volume_at xs"]
  show "fullest xs \<noteq> []" "set (fullest xs) = {p \<in> limits xs. \<forall>q \<in> limits xs. volume_at xs q \<le> volume_at xs p}"
    "sorted (fullest xs)"
    by (simp_all add: fullest_def Let_def sorted_wrt_filter)
qed

lemma survivors:
  assumes "limits xs \<noteq> {}"
  shows "survivors xs ref \<noteq> []" and "sorted (survivors xs ref)"
    and "set (survivors xs ref) = {p \<in> limits xs. (\<forall>q \<in> limits xs. volume_at xs q \<le> volume_at xs p) \<and>
      (\<forall>q \<in> limits xs. volume_at xs q = volume_at xs p \<longrightarrow> \<bar>imbalance_at xs p\<bar> \<le> \<bar>imbalance_at xs q\<bar>) \<and>
      (\<forall>q \<in> limits xs. volume_at xs q = volume_at xs p \<and> \<bar>imbalance_at xs q\<bar> = \<bar>imbalance_at xs p\<bar> \<longrightarrow>
         nearer ref p q)}"
proof -
  let ?imb = "\<lambda>p. \<bar>imbalance_at xs p\<bar>"
  note f = fullest [OF assms]
  note b = best_by [OF f(1), of ?imb]
  have s: "survivors xs ref \<noteq> []" "sorted (survivors xs ref)"
    "set (survivors xs ref) = {p \<in> set (best_by ?imb (fullest xs)). \<forall>q \<in> set (best_by ?imb (fullest xs)). nearer ref p q}"
    using b(1) b(3) [OF f(3)] best_by [OF b(1), of "\<lambda>p. \<bar>p - the ref\<bar>"]
    by (cases ref; simp add: survivors_def nearer_def)+
  show "survivors xs ref \<noteq> []" "sorted (survivors xs ref)" by (fact s)+
  have mem: "q \<in> set (best_by ?imb (fullest xs)) \<longleftrightarrow> q \<in> limits xs \<and> volume_at xs q = volume_at xs p \<and> ?imb q = ?imb p"
    if "p \<in> set (best_by ?imb (fullest xs))" for p q
  proof -
    from that have p: "p \<in> limits xs" "\<forall>q \<in> limits xs. volume_at xs q \<le> volume_at xs p"
      "\<forall>q \<in> set (fullest xs). ?imb p \<le> ?imb q"
      by (simp_all add: b(2) f(2))
    have "q \<in> set (fullest xs) \<longleftrightarrow> q \<in> limits xs \<and> volume_at xs q = volume_at xs p" for q
      using p(1,2) by (auto simp: f(2) intro: order_antisym)
    with p(3) that show ?thesis by (auto simp: b(2) intro: order_antisym)
  qed
  show "set (survivors xs ref) = {p \<in> limits xs. (\<forall>q \<in> limits xs. volume_at xs q \<le> volume_at xs p) \<and>
      (\<forall>q \<in> limits xs. volume_at xs q = volume_at xs p \<longrightarrow> ?imb p \<le> ?imb q) \<and>
      (\<forall>q \<in> limits xs. volume_at xs q = volume_at xs p \<and> ?imb q = ?imb p \<longrightarrow> nearer ref p q)}"
    (is "_ = ?R")
  proof (intro equalityI subsetI)
    fix p assume "p \<in> set (survivors xs ref)"
    with s(3) have p: "p \<in> set (best_by ?imb (fullest xs))" "\<forall>q \<in> set (best_by ?imb (fullest xs)). nearer ref p q" by simp_all
    from p(1) have l: "p \<in> limits xs" "\<forall>q \<in> limits xs. volume_at xs q \<le> volume_at xs p"
      "\<forall>q \<in> set (fullest xs). ?imb p \<le> ?imb q"
      by (simp_all add: b(2) f(2))
    have "?imb p \<le> ?imb q" if "q \<in> limits xs" "volume_at xs q = volume_at xs p" for q
      using that l by (simp add: f(2))
    moreover have "nearer ref p q" if "q \<in> limits xs" "volume_at xs q = volume_at xs p" "?imb q = ?imb p" for q
      using that p(2) mem [OF p(1), of q] by blast
    ultimately show "p \<in> ?R" using l by blast
  next
    fix p assume p: "p \<in> ?R"
    then have v: "volume_at xs q = volume_at xs p" if "q \<in> set (fullest xs)" for q
      using that by (auto simp: f(2) intro: order_antisym)
    from p have "p \<in> set (fullest xs)" by (simp add: f(2))
    moreover have "?imb p \<le> ?imb q" if "q \<in> set (fullest xs)" for q
      using that p v [OF that] by (simp add: f(2))
    ultimately have "p \<in> set (best_by ?imb (fullest xs))" by (simp add: b(2))
    with p mem [OF this] show "p \<in> set (survivors xs ref)" by (simp add: s(3))
  qed
qed

lemma uncross_survivors:
  assumes ne: "limits xs \<noteq> {}"
  shows "uncross xs ref =
    (if \<forall>p \<in> limits xs. volume_at xs p = 0
     then \<lparr>ar_price = 0, ar_volume = 0, ar_imbalance = int (qty_where (\<lambda>x. a_side x = AuctionBuy) xs) -
            int (qty_where (\<lambda>x. a_side x = AuctionSell) xs)\<rparr>
     else cand xs (if \<forall>p \<in> set (survivors xs ref). 0 < imbalance_at xs p then last (survivors xs ref)
                   else hd (survivors xs ref)))"
proof (rule uncross_parts [of xs])
  fix levels
  assume f: "foldl collect_order ([], 0, 0, 0) xs =
       (levels, qty_where (\<lambda>x. a_side x = AuctionBuy) xs,
        qty_where (\<lambda>x. a_side x = AuctionSell \<and> a_limit_price x = None) xs,
        qty_where (\<lambda>x. a_side x = AuctionSell) xs)"
    and lv: "levels = [] \<longleftrightarrow> limits xs = {}"
    and c: "candidates (qty_where (\<lambda>x. a_side x = AuctionBuy) xs)
           (qty_where (\<lambda>x. a_side x = AuctionSell \<and> a_limit_price x = None) xs) levels =
         map (cand xs) (sorted_list_of_set (limits xs))"
  let ?ps = "sorted_list_of_set (limits xs)" and ?V = "Max (volume_at xs ` limits xs)"
  let ?ps2 = "best_by (\<lambda>p. \<bar>imbalance_at xs p\<bar>) (fullest xs)"
  have sel: "ar_volume (cand xs q) = volume_at xs q" "ar_imbalance (cand xs q) = imbalance_at xs q"
      "ar_price (cand xs q) = q" for q
    by (simp_all add: cand_def)
  have mx: "Max (set (map ar_volume (map (cand xs) ?ps))) = ?V" by (simp add: sel image_image)
  have zero: "?V = 0 \<longleftrightarrow> (\<forall>p \<in> limits xs. volume_at xs p = 0)"
    using ne by (auto simp: Max_eq_iff)
  have e1: "filter (\<lambda>r. ar_volume r = ?V) (map (cand xs) ?ps) = map (cand xs) (fullest xs)"
    by (simp add: fullest_def filter_map comp_def sel Let_def)
  have e2: "filter (\<lambda>r. \<bar>ar_imbalance r\<bar> = Min (set (map (\<lambda>r. \<bar>ar_imbalance r\<bar>) (map (cand xs) (fullest xs)))))
      (map (cand xs) (fullest xs)) = map (cand xs) ?ps2"
    by (simp add: best_by_def filter_map comp_def sel image_image)
  have e3: "(case ref of None \<Rightarrow> map (cand xs) ?ps2
      | Some reference \<Rightarrow> filter (\<lambda>r. \<bar>ar_price r - reference\<bar> =
            Min (set (map (\<lambda>r. \<bar>ar_price r - reference\<bar>) (map (cand xs) ?ps2)))) (map (cand xs) ?ps2)) =
      map (cand xs) (survivors xs ref)"
    by (cases ref) (simp_all add: survivors_def best_by_def filter_map comp_def sel image_image)
  have "uncross xs ref =
      (if ?V = 0 then \<lparr>ar_price = 0, ar_volume = 0, ar_imbalance = int (qty_where (\<lambda>x. a_side x = AuctionBuy) xs) -
            int (qty_where (\<lambda>x. a_side x = AuctionSell) xs)\<rparr>
       else if list_all (\<lambda>r. ar_imbalance r > 0) (map (cand xs) (survivors xs ref))
         then last (map (cand xs) (survivors xs ref)) else hd (map (cand xs) (survivors xs ref)))"
    unfolding uncross_def f case_prod_conv Let_def c mx e1 e2 e3 using lv ne by simp
  then show ?thesis
    unfolding zero using survivors(1) [OF ne, of ref] by (simp add: list_all_iff sel hd_map last_map)
qed

lemma uncross_clears:
  assumes ne: "limits xs \<noteq> {}" and pos: "\<exists>p \<in> limits xs. 0 < volume_at xs p"
  shows "\<exists>p. uncross xs ref = cand xs p \<and> clears xs ref p"
proof -
  let ?S = "survivors xs ref"
  note s = survivors [OF ne, of ref]
  define p where "p = (if \<forall>p \<in> set ?S. 0 < imbalance_at xs p then last ?S else hd ?S)"
  have u: "uncross xs ref = cand xs p" using uncross_survivors [OF ne, of ref] pos by (auto simp: p_def)
  have pS: "p \<in> set ?S" using s(1) by (simp add: p_def)
  then have P: "p \<in> limits xs" "\<forall>q \<in> limits xs. volume_at xs q \<le> volume_at xs p"
    "\<forall>q \<in> limits xs. volume_at xs q = volume_at xs p \<longrightarrow> \<bar>imbalance_at xs p\<bar> \<le> \<bar>imbalance_at xs q\<bar>"
    "\<forall>q \<in> limits xs. volume_at xs q = volume_at xs p \<and> \<bar>imbalance_at xs q\<bar> = \<bar>imbalance_at xs p\<bar> \<longrightarrow> nearer ref p q"
    by (simp_all add: s(3))
  have near: "nearer ref p q \<Longrightarrow> nearer ref q p \<Longrightarrow> nearer ref p r \<Longrightarrow> nearer ref q r" for q r
    by (cases ref) (simp_all add: nearer_def)
  have "tied xs ref p \<subseteq> set ?S"
  proof
    fix q assume "q \<in> tied xs ref p"
    then have Q: "q \<in> limits xs" "volume_at xs q = volume_at xs p" "\<bar>imbalance_at xs q\<bar> = \<bar>imbalance_at xs p\<bar>"
      "nearer ref p q" "nearer ref q p"
      by (simp_all add: tied_def)
    have "\<forall>r \<in> limits xs. volume_at xs r = volume_at xs p \<and> \<bar>imbalance_at xs r\<bar> = \<bar>imbalance_at xs p\<bar> \<longrightarrow> nearer ref q r"
      using P(4) near [OF Q(4,5)] by blast
    with P(1-3) Q(1-3) show "q \<in> set ?S" by (simp add: s(3))
  qed
  moreover have "set ?S \<subseteq> tied xs ref p"
  proof
    fix q assume "q \<in> set ?S"
    then have Q: "q \<in> limits xs" "\<forall>r \<in> limits xs. volume_at xs r \<le> volume_at xs q"
      "\<forall>r \<in> limits xs. volume_at xs r = volume_at xs q \<longrightarrow> \<bar>imbalance_at xs q\<bar> \<le> \<bar>imbalance_at xs r\<bar>"
      "\<forall>r \<in> limits xs. volume_at xs r = volume_at xs q \<and> \<bar>imbalance_at xs r\<bar> = \<bar>imbalance_at xs q\<bar> \<longrightarrow> nearer ref q r"
      by (simp_all add: s(3))
    have v: "volume_at xs q = volume_at xs p" using P(1,2) Q(1,2) by (simp add: order_antisym)
    then have i: "\<bar>imbalance_at xs q\<bar> = \<bar>imbalance_at xs p\<bar>" using P(1,3) Q(1,3) by (simp add: order_antisym)
    show "q \<in> tied xs ref p" using P(1,4) Q(1,4) v i by (simp add: tied_def)
  qed
  ultimately have "tied xs ref p = set ?S" by blast
  moreover have "\<forall>q \<in> set ?S. if \<forall>r \<in> set ?S. 0 < imbalance_at xs r then q \<le> p else p \<le> q"
    using sorted_ends [OF s(2)] by (simp add: p_def)
  ultimately have "clears xs ref p" using P by (simp add: clears_def)
  with u show ?thesis by blast
qed

end
