(* ===== verification/Fxp_Session.thy ===== *)
theory Fxp_Session
  imports Fxp_Messages
begin

text \<open>
  Trading sessions (\<^verbatim>\<open>engine/session.rs\<close>): the daily schedule, the phase at an instant, the next
  boundary, the textual form of a schedule, and the instant at which a dated order expires.
\<close>

section \<open>Definitions\<close>

record utc_time_of_day =
  td_seconds :: nat

record session_schedule =
  sc_open_call :: "utc_time_of_day option"
  sc_open :: "utc_time_of_day option"
  sc_close_call :: "utc_time_of_day option"
  sc_close :: utc_time_of_day

datatype boundary = OpenCall | Open | CloseCall | Close

definition is_full :: "session_schedule \<Rightarrow> bool" where
  "is_full s \<longleftrightarrow> sc_open_call s \<noteq> None \<and> sc_open s \<noteq> None \<and> sc_close_call s \<noteq> None"

definition schedule_phase :: "session_schedule \<Rightarrow> int \<Rightarrow> trading_phase" where
  "schedule_phase s now =
     (case (sc_open_call s, sc_open s, sc_close_call s) of
        (Some open_call, Some open, Some close_call) \<Rightarrow>
          (let tod = nat (now mod 86400)
           in if tod \<ge> td_seconds open_call \<and> tod < td_seconds open then OpeningCall
              else if tod \<ge> td_seconds open \<and> tod < td_seconds close_call then Continuous
              else if tod \<ge> td_seconds close_call \<and> tod < td_seconds (sc_close s) then ClosingCall
              else Closed)
      | _ \<Rightarrow> Continuous)"

text \<open>\<^verbatim>\<open>min_by_key\<close> keeps the first of several minimal elements.\<close>

fun min_by_key :: "('a \<Rightarrow> 'b::linorder) \<Rightarrow> 'a list \<Rightarrow> 'a option" where
  "min_by_key f [] = None"
| "min_by_key f (x # xs) =
     (case min_by_key f xs of None \<Rightarrow> Some x | Some y \<Rightarrow> if f x \<le> f y then Some x else Some y)"

definition boundary_at :: "int \<Rightarrow> utc_time_of_day \<Rightarrow> int" where
  "boundary_at after tod =
     (let at = after div 86400 * 86400 + int (td_seconds tod)
      in if at \<le> after then at + 86400 else at)"

definition schedule_times :: "session_schedule \<Rightarrow> (utc_time_of_day option \<times> boundary) list" where
  "schedule_times s =
     [(sc_open_call s, OpenCall), (sc_open s, Open), (sc_close_call s, CloseCall), (Some (sc_close s), Close)]"

definition next_boundary :: "session_schedule \<Rightarrow> int \<Rightarrow> (int \<times> boundary) option" where
  "next_boundary s after =
     min_by_key fst
       (List.map_filter (\<lambda>(tod, kind). map_option (\<lambda>t. (boundary_at after t, kind)) tod) (schedule_times s))"

section \<open>Text\<close>

definition utc_time_from_str :: "string \<Rightarrow> string + utc_time_of_day" where
  "utc_time_from_str value =
     (let parts = str_split (CHR '':'') value
      in if \<not> (length parts = 2 \<or> length parts = 3) \<or>
            list_ex (\<lambda>p. length p \<noteq> 2 \<or> \<not> list_all is_digit p) parts
         then Inl ''expected UTC HH:MM[:SS]''
         else
           (let hour = digits_val (parts ! 0);
                minute = digits_val (parts ! 1);
                second = (if length parts = 3 then digits_val (parts ! 2) else 0)
            in if hour > 23 \<or> minute > 59 \<or> second > 59 then Inl ''UTC time of day is out of range''
               else Inr \<lparr>td_seconds = hour * 3600 + minute * 60 + second\<rparr>))"

type_synonym schedule_fields =
  "utc_time_of_day option \<times> utc_time_of_day option \<times> utc_time_of_day option \<times> utc_time_of_day option"

text \<open>
  One entry of the list. The fields are close, open call, open and close call, as the code
  declares them. \<^verbatim>\<open>{key:?}\<close> prints the key in quotes; its escapes are left out.
\<close>

definition schedule_entry :: "string \<Rightarrow> schedule_fields \<Rightarrow> string + schedule_fields" where
  "schedule_entry entry = (\<lambda>(close, open_call, open, close_call).
     (case split_once (CHR ''='') entry of
        None \<Rightarrow> Inl ''expected key=value''
      | Some (key, value) \<Rightarrow>
          (let field = (if key = ''close'' then Some close
                        else if key = ''open_call'' then Some open_call
                        else if key = ''open'' then Some open
                        else if key = ''close_call'' then Some close_call
                        else None)
           in case field of
                None \<Rightarrow> Inl (''unknown schedule key '' @ [CHR 0x22] @ key @ [CHR 0x22])
              | Some (Some _) \<Rightarrow> Inl (''duplicate '' @ key)
              | Some None \<Rightarrow>
                  (case utc_time_from_str value of
                     Inl e \<Rightarrow> Inl e
                   | Inr t \<Rightarrow>
                       Inr (if key = ''close'' then (Some t, open_call, open, close_call)
                            else if key = ''open_call'' then (close, Some t, open, close_call)
                            else if key = ''open'' then (close, open_call, Some t, close_call)
                            else (close, open_call, open, Some t))))))"

fun schedule_entries :: "string list \<Rightarrow> schedule_fields \<Rightarrow> string + schedule_fields" where
  "schedule_entries [] fs = Inr fs"
| "schedule_entries (entry # rest) fs =
     (case schedule_entry entry fs of
        Inl e \<Rightarrow> Inl e
      | Inr fs' \<Rightarrow> schedule_entries rest fs')"

definition schedule_from_str :: "string \<Rightarrow> string + session_schedule" where
  "schedule_from_str value =
     (case schedule_entries (str_split (CHR '','') value) (None, None, None, None) of
        Inl e \<Rightarrow> Inl e
      | Inr (close_opt, open_call, open, close_call) \<Rightarrow>
          (case close_opt of
             None \<Rightarrow> Inl ''close is required''
           | Some close \<Rightarrow>
               (if (case (open_call, open, close_call) of
                      (None, None, None) \<Rightarrow> True
                    | (Some a, Some b, Some c) \<Rightarrow>
                        td_seconds a < td_seconds b \<and> td_seconds b < td_seconds c \<and> td_seconds c < td_seconds close
                    | _ \<Rightarrow> False)
                then Inr \<lparr>sc_open_call = open_call, sc_open = open, sc_close_call = close_call, sc_close = close\<rparr>
                else Inl ''expected close alone or open_call < open < close_call < close'')))"

definition utc_time_to_string :: "utc_time_of_day \<Rightarrow> string" where
  "utc_time_to_string t =
     show_pad2 (td_seconds t div 3600) @ '':'' @ show_pad2 (td_seconds t div 60 mod 60) @ '':'' @
     show_pad2 (td_seconds t mod 60)"

definition schedule_to_string :: "session_schedule \<Rightarrow> string" where
  "schedule_to_string s =
     concat (map (\<lambda>(key, tod). case tod of None \<Rightarrow> [] | Some t \<Rightarrow> key @ ''='' @ utc_time_to_string t @ '','')
       [(''open_call'', sc_open_call s), (''open'', sc_open s), (''close_call'', sc_close_call s)]) @
     ''close='' @ utc_time_to_string (sc_close s)"

section \<open>Expiry dates\<close>

definition days_in_month :: "int \<Rightarrow> int \<Rightarrow> int option" where
  "days_in_month year month =
     (let leap = year mod 4 = 0 \<and> (year mod 100 \<noteq> 0 \<or> year mod 400 = 0)
      in if month = 2 then Some (if leap then 29 else 28)
         else if month \<in> {4, 6, 9, 11} then Some 30
         else if month \<in> {1, 3, 5, 7, 8, 10, 12} then Some 31
         else None)"

text \<open>Days from 1970-01-01 of a civil date, by eras of 400 years that begin in March.\<close>

definition days_from_civil :: "int \<Rightarrow> int \<Rightarrow> int \<Rightarrow> int" where
  "days_from_civil year month day =
     (let y = year - (if month \<le> 2 then 1 else 0);
          era = y div 400;
          yoe = y - era * 400;
          m = month + (if month > 2 then - 3 else 9);
          doy = (153 * m + 2) div 5 + day - 1;
          doe = yoe * 365 + yoe div 4 - yoe div 100 + doy
      in era * 146097 + doe - 719468)"

definition expiry_instant :: "string \<Rightarrow> string + int" where
  "expiry_instant date =
     (if length date \<noteq> 10 \<or> date ! 4 \<noteq> CHR ''-'' \<or> date ! 7 \<noteq> CHR ''-'' \<or>
         list_ex (\<lambda>i. i \<noteq> 4 \<and> i \<noteq> 7 \<and> \<not> is_digit (date ! i)) [0..<10]
      then Inl ''expire_date must be YYYY-MM-DD''
      else
        (let year = int (digits_val (take 4 date));
             month = int (digits_val (take 2 (drop 5 date)));
             day = int (digits_val (drop 8 date))
         in case days_in_month year month of
              None \<Rightarrow> Inl ''invalid expire_date month''
            | Some days \<Rightarrow>
                (if year = 0 \<or> day < 1 \<or> day > days then Inl ''invalid expire_date''
                 else Inr ((days_from_civil year month day + 1) * 86400))))"

end
