(* ===== verification/Fxp_Symbols.thy ===== *)
theory Fxp_Symbols
  imports Fxp_Text
begin

text \<open>
  Trading rules per symbol (\<^verbatim>\<open>symbol_config.rs\<close>): the checks on prices and quantities, the parser
  of the configuration file and its canonical form.
\<close>

section \<open>Definitions\<close>

record symbol_rules =
  y_price_scale :: nat
  y_tick_size :: int
  y_lot_size :: nat
  y_min_quantity :: nat
  y_max_quantity :: nat

definition symbol_rules_default :: symbol_rules where
  "symbol_rules_default =
     \<lparr>y_price_scale = 2, y_tick_size = 1, y_lot_size = 1, y_min_quantity = 1, y_max_quantity = 2147483647\<rparr>"

text \<open>\<^verbatim>\<open>%\<close> truncates; it is taken only of positive prices here.\<close>

definition validate_price :: "symbol_rules \<Rightarrow> int \<Rightarrow> string option" where
  "validate_price r price =
     (if y_tick_size r \<le> 0 \<or> price \<le> 0 \<or> price mod y_tick_size r \<noteq> 0
      then Some ''price must be positive and a multiple of symbol tick size'' else None)"

definition validate_quantity :: "symbol_rules \<Rightarrow> nat \<Rightarrow> string option" where
  "validate_quantity r quantity =
     (if y_lot_size r = 0 \<or> quantity < y_min_quantity r \<or> quantity > y_max_quantity r \<or>
         quantity mod y_lot_size r \<noteq> 0
      then Some ''quantity outside symbol lot/min/max rules'' else None)"

type_synonym symbol_config = "(string, symbol_rules) btreemap"

definition symbols :: "symbol_config \<Rightarrow> string list" where
  "symbols c = map fst c"

definition get_rules :: "symbol_config \<Rightarrow> string \<Rightarrow> symbol_rules" where
  "get_rules c symbol = (case map_of c symbol of None \<Rightarrow> symbol_rules_default | Some r \<Rightarrow> r)"

definition rules_line :: "string \<times> symbol_rules \<Rightarrow> string" where
  "rules_line = (\<lambda>(s, r).
     s @ '','' @ show_nat (y_price_scale r) @ '','' @ show_int (y_tick_size r) @ '','' @
     show_nat (y_lot_size r) @ '','' @ show_nat (y_min_quantity r) @ '','' @
     show_nat (y_max_quantity r) @ [newline])"

definition config_canonical :: "symbol_config \<Rightarrow> string" where
  "config_canonical c = concat (map rules_line c)"

definition is_alphanumeric :: "char \<Rightarrow> bool" where
  "is_alphanumeric c \<longleftrightarrow>
     is_digit c \<or> 65 \<le> (of_char c :: nat) \<and> (of_char c :: nat) \<le> 90 \<or>
     97 \<le> (of_char c :: nat) \<and> (of_char c :: nat) \<le> 122"

definition symbol_char :: "char \<Rightarrow> bool" where
  "symbol_char c \<longleftrightarrow> is_alphanumeric c \<or> c \<in> set ''._-/:''"

definition rules_ok :: "symbol_rules \<Rightarrow> bool" where
  "rules_ok r \<longleftrightarrow>
     \<not> (y_price_scale r > 8 \<or> y_tick_size r \<le> 0 \<or> y_lot_size r = 0 \<or> y_min_quantity r = 0 \<or>
        y_min_quantity r > y_max_quantity r \<or> y_max_quantity r > 2147483647 \<or>
        (y_min_quantity r + y_lot_size r - 1) div y_lot_size r * y_lot_size r > y_max_quantity r)"

definition config_line :: "string \<Rightarrow> (string \<times> symbol_rules) option" where
  "config_line line =
     (let cols = map str_trim (str_split (CHR '','') line)
      in if length cols \<noteq> 6 then None
         else
           (let symbol = cols ! 0
            in if symbol = [] \<or> \<not> list_all symbol_char symbol then None
               else if \<not> list_all (\<lambda>s. s \<noteq> [] \<and> list_all is_digit s) (tl cols) then None
               else do {
                 price_scale \<leftarrow> parse_unsigned 4294967296 (cols ! 1);
                 tick_size \<leftarrow> parse_unsigned 9223372036854775808 (cols ! 2);
                 lot_size \<leftarrow> parse_unsigned 4294967296 (cols ! 3);
                 min_quantity \<leftarrow> parse_unsigned 4294967296 (cols ! 4);
                 max_quantity \<leftarrow> parse_unsigned 4294967296 (cols ! 5);
                 let r = \<lparr>y_price_scale = price_scale, y_tick_size = int tick_size, y_lot_size = lot_size,
                          y_min_quantity = min_quantity, y_max_quantity = max_quantity\<rparr>;
                 if rules_ok r then Some (symbol, r) else None
               }))"

definition config_skip :: "string \<Rightarrow> bool" where
  "config_skip line \<longleftrightarrow>
     line = [] \<or> hd line = CHR ''#'' \<or>
     line = ''symbol,price_scale,tick_size,lot_size,min_quantity,max_quantity''"

fun config_lines :: "nat \<Rightarrow> string list \<Rightarrow> symbol_config \<Rightarrow> string + symbol_config" where
  "config_lines line_no [] c = Inr c"
| "config_lines line_no (text # rest) c =
     (let line = str_trim text
      in if config_skip line then config_lines (line_no + 1) rest c
         else
           (case config_line line of
              None \<Rightarrow> Inl (''invalid symbol configuration at line '' @ show_nat (line_no + 1))
            | Some (symbol, rules) \<Rightarrow>
                (if map_of c symbol \<noteq> None then Inl (''duplicate symbol at line '' @ show_nat (line_no + 1))
                 else config_lines (line_no + 1) rest (bt_insert symbol rules c))))"

definition config_parse :: "string \<Rightarrow> string + symbol_config" where
  "config_parse text = config_lines 0 (str_lines text) []"

end
