(* ===== verification/Fxp_Reports.thy ===== *)
theory Fxp_Reports
  imports Fxp_Stops Fxp_Auction Fxp_Session Fxp_Symbols
begin

text \<open>
  The state of the engine of one symbol and the reports it builds (\<^verbatim>\<open>engine.rs\<close>,
  \<^verbatim>\<open>engine/diagnostic.rs\<close>). The clock and the identifier source are the ones of the journal
  (\<^verbatim>\<open>event_log.rs\<close>): a recorded instant and a counter. Functions that the code calls with borrowed
  parts of the engine take the engine and the outputs so far.
\<close>

section \<open>State\<close>

record diagnostic =
  d_output_index :: nat
  d_kind :: string
  d_order_id :: string
  d_role :: string
  d_counterparty :: string
  d_quantity :: nat
  d_cause :: string

definition diagnostic_default :: diagnostic where
  "diagnostic_default =
     \<lparr>d_output_index = 0, d_kind = [], d_order_id = [], d_role = [], d_counterparty = [],
      d_quantity = 0, d_cause = []\<rparr>"

record 'r order_state =
  st_sender :: string
  st_time_in_force :: time_in_force
  st_expire_date :: string
  st_arrival :: nat
  st_side :: int
  st_order_qty :: nat
  st_display_quantity :: nat
  st_cum_qty :: nat
  st_notional :: int
  st_account :: string
  st_client_order_id :: string
  st_output_tx :: 'r

record 'r engine =
  en_symbol :: string
  en_diagnostics :: "diagnostic list option"
  en_book :: order_book
  en_stop_book :: stop_book
  en_last_trade_price :: "int option"
  en_trade_seq :: nat
  en_states :: "(string, 'r order_state) hashmap"
  en_clock :: time
  en_ids :: nat
  en_schedule :: "session_schedule option"
  en_call_until :: "time option"
  en_last_seen :: time
  en_next_arrival :: nat
  en_phase :: trading_phase
  en_call_markets :: "(string, order) hashmap"
  en_held_close :: "(string, order) hashmap"
  en_last_indicative :: "auction_result option"
  en_stp_default :: stp_mode
  en_symbol_rules :: symbol_rules
  en_status_history :: "(string, string \<times> report) hashmap"
  en_terminal_history :: "(string \<times> string) list"

definition engine_new :: "string \<Rightarrow> time \<Rightarrow> nat \<Rightarrow> session_schedule option \<Rightarrow> 'r engine" where
  "engine_new symbol clock ids schedule =
     \<lparr>en_symbol = symbol, en_diagnostics = None, en_book = book_new symbol broadcaster_new,
      en_stop_book = stop_book_default, en_last_trade_price = None, en_trade_seq = 0, en_states = [],
      en_clock = clock, en_ids = ids, en_schedule = schedule, en_call_until = None,
      en_last_seen = clock, en_next_arrival = 0,
      en_phase = (case schedule of None \<Rightarrow> Continuous | Some s \<Rightarrow> schedule_phase s (t_seconds clock)),
      en_call_markets = [], en_held_close = [], en_last_indicative = Some auction_result_default,
      en_stp_default = StpNone, en_symbol_rules = symbol_rules_default, en_status_history = [],
      en_terminal_history = []\<rparr>"

definition with_diagnostics :: "'r engine \<Rightarrow> 'r engine" where
  "with_diagnostics e = e\<lparr>en_diagnostics := Some [], en_book := (en_book e)\<lparr>b_refresh_log := Some []\<rparr>\<rparr>"

definition take_diagnostics :: "'r engine \<Rightarrow> 'r engine \<times> diagnostic list" where
  "take_diagnostics e =
     (case en_diagnostics e of
        None \<Rightarrow> (e, [])
      | Some log \<Rightarrow> (e\<lparr>en_diagnostics := Some []\<rparr>, log))"

definition with_stp_default :: "stp_mode \<Rightarrow> 'r engine \<Rightarrow> 'r engine" where
  "with_stp_default mode e = e\<lparr>en_stp_default := mode\<rparr>"

definition with_symbol_rules :: "symbol_rules \<Rightarrow> 'r engine \<Rightarrow> 'r engine" where
  "with_symbol_rules rules e = e\<lparr>en_symbol_rules := rules\<rparr>"

definition emit :: "diagnostic \<Rightarrow> 'r engine \<Rightarrow> 'r engine" where
  "emit event e =
     (case en_diagnostics e of
        None \<Rightarrow> e
      | Some log \<Rightarrow> e\<lparr>en_diagnostics := Some (log @ [event])\<rparr>)"

definition timestamp :: "time \<Rightarrow> time option" where
  "timestamp now = Some (Time (t_seconds now) (t_nanos now))"

section \<open>Reports\<close>

definition state_leaves :: "'r order_state \<Rightarrow> nat" where
  "state_leaves st = st_order_qty st - st_cum_qty st"

text \<open>\<^verbatim>\<open>/\<close> on signed integers truncates towards zero.\<close>

definition div_trunc :: "int \<Rightarrow> int \<Rightarrow> int" where
  "div_trunc a b = sgn a * sgn b * (\<bar>a\<bar> div \<bar>b\<bar>)"

definition state_avg_px :: "'r order_state \<Rightarrow> int" where
  "state_avg_px st =
     (if st_cum_qty st = 0 then 0 else as_i64 (div_trunc (st_notional st) (int (st_cum_qty st))))"

record report_event =
  ev_exec_type :: execution_type
  ev_status :: order_status
  ev_last_px :: int
  ev_last_qty :: nat
  ev_leaves :: nat
  ev_client_order_id :: "string option"
  ev_orig_order_id :: string
  ev_reject_reason :: string

definition report_event_new :: "execution_type \<Rightarrow> order_status \<Rightarrow> report_event" where
  "report_event_new exec_type status =
     \<lparr>ev_exec_type = exec_type, ev_status = status, ev_last_px = 0, ev_last_qty = 0, ev_leaves = 0,
      ev_client_order_id = None, ev_orig_order_id = [], ev_reject_reason = []\<rparr>"

definition next_id :: "nat \<Rightarrow> nat \<times> string" where
  "next_id ids = (ids + 1, ''X'' @ show_nat ids)"

definition build_report ::
  "nat \<Rightarrow> string \<Rightarrow> string \<Rightarrow> 'r order_state option \<Rightarrow> report_event \<Rightarrow> time option \<Rightarrow> nat \<times> report" where
  "build_report ids order_id symbol state ev ts =
     (let client_order_id =
            (case ev_client_order_id ev of
               Some c \<Rightarrow> c
             | None \<Rightarrow> (case state of None \<Rightarrow> [] | Some s \<Rightarrow> st_client_order_id s));
          (ids', execution_id) = next_id ids
      in (ids',
          \<lparr>rp_header = Some \<lparr>h_protocol_version = protocol_version, h_sequence_number = 0\<rparr>,
           rp_execution_id = execution_id, rp_order_id = order_id, rp_symbol = symbol,
           rp_execution_type = exec_i32 (ev_exec_type ev), rp_order_status = status_i32 (ev_status ev),
           rp_execution_price = ev_last_px ev, rp_executed_quantity = as_i32 (ev_last_qty ev),
           rp_timestamp = ts, rp_leaves_quantity = as_i32 (ev_leaves ev),
           rp_avg_px = (case state of None \<Rightarrow> 0 | Some s \<Rightarrow> state_avg_px s),
           rp_cum_quantity = (case state of None \<Rightarrow> 0 | Some s \<Rightarrow> as_i32 (st_cum_qty s)),
           rp_account = (case state of None \<Rightarrow> [] | Some s \<Rightarrow> st_account s),
           rp_client_order_id = client_order_id, rp_orig_order_id = ev_orig_order_id ev,
           rp_reject_reason = ev_reject_reason ev,
           rp_side = (case state of None \<Rightarrow> 0 | Some s \<Rightarrow> st_side s),
           rp_order_quantity = (case state of None \<Rightarrow> 0 | Some s \<Rightarrow> as_i32 (st_order_qty s)),
           rp_auction = False,
           rp_display_quantity = (case state of None \<Rightarrow> 0 | Some s \<Rightarrow> as_i32 (st_display_quantity s))\<rparr>))"

definition apply_fill ::
  "nat \<Rightarrow> (string, 'r order_state) hashmap \<Rightarrow> string \<Rightarrow> string \<Rightarrow> int \<Rightarrow> nat \<Rightarrow> time option \<Rightarrow>
   nat \<times> (string, 'r order_state) hashmap \<times> (report \<times> 'r) option" where
  "apply_fill ids states order_id symbol px qty ts =
     (case map_of states order_id of
        None \<Rightarrow> (ids, states, None)
      | Some st \<Rightarrow>
          (let st' = st\<lparr>st_cum_qty := add_u32 (st_cum_qty st) qty, st_notional := st_notional st + px * int qty\<rparr>;
               leaves = state_leaves st';
               status = (if leaves = 0 then OrderFilled else OrderPartiallyFilled);
               ev = (report_event_new ExecFilled status)\<lparr>ev_last_px := px, ev_last_qty := qty, ev_leaves := leaves\<rparr>;
               (ids', frame) = build_report ids order_id symbol (Some st') ev ts
           in (ids', if leaves = 0 then hm_remove order_id states else hm_insert order_id st' states,
               Some (frame, st_output_tx st'))))"

definition make_reject_report ::
  "nat \<Rightarrow> string \<Rightarrow> string \<Rightarrow> string \<Rightarrow> string \<Rightarrow> time option \<Rightarrow> nat \<times> report" where
  "make_reject_report ids order_id symbol request_id reason ts =
     build_report ids order_id symbol (None :: unit order_state option)
       ((report_event_new ExecRejected OrderRejected)
          \<lparr>ev_client_order_id := Some request_id, ev_orig_order_id := order_id, ev_reject_reason := reason\<rparr>) ts"

definition md_side :: "order_side \<Rightarrow> int" where
  "md_side sd = (case sd of Buy \<Rightarrow> 1 | Sell \<Rightarrow> 2)"

definition side_to_proto :: "order_side \<Rightarrow> int" where
  "side_to_proto sd = (case sd of Buy \<Rightarrow> 1 | Sell \<Rightarrow> 2)"

definition build_md_update :: "md_incremental \<Rightarrow> time option \<Rightarrow> fxp_md_update" where
  "build_md_update inc ts =
     \<lparr>fm_header = Some \<lparr>h_protocol_version = protocol_version, h_sequence_number = 1\<rparr>,
      fm_symbol = inc_symbol inc,
      fm_changes = map (\<lambda>c. \<lparr>fm_update_type =
                                (case u_update_type c of NewOrder \<Rightarrow> 0 | ModifyOrder \<Rightarrow> 1 | CancelOrder \<Rightarrow> 2),
                             fm_price = u_price c, fm_quantity = as_i32 (u_quantity c),
                             fm_side = md_side (u_side c)\<rparr>) (inc_changes inc),
      fm_timestamp = ts\<rparr>"

definition build_trade ::
  "string \<Rightarrow> nat \<Rightarrow> int \<Rightarrow> nat \<Rightarrow> int \<Rightarrow> bool \<Rightarrow> time option \<Rightarrow> trade_report" where
  "build_trade symbol seq px qty aggressor_side is_auction ts =
     \<lparr>tr_header = Some \<lparr>h_protocol_version = protocol_version, h_sequence_number = 0\<rparr>,
      tr_trade_id = symbol @ '':'' @ show_nat seq, tr_buy_order_id = [], tr_sell_order_id = [],
      tr_symbol = symbol, tr_trade_price = px, tr_trade_quantity = as_i32 qty, tr_timestamp = ts,
      tr_aggressor_side = aggressor_side, tr_seq = seq, tr_is_auction = is_auction\<rparr>"

definition snapshot :: "order_book \<Rightarrow> time \<Rightarrow> fxp_snapshot" where
  "snapshot b now =
     (let snap = get_market_snapshot b;
          level = (\<lambda>sd (price, size). \<lparr>fe_price = price, fe_size = as_i32 size, fe_side = md_side sd\<rparr>)
      in \<lparr>fs_header = Some \<lparr>h_protocol_version = protocol_version, h_sequence_number = 1\<rparr>,
          fs_symbol = snap_symbol snap,
          fs_bid_levels = map (level Buy) (rev (snap_bids snap)),
          fs_ask_levels = map (level Sell) (snap_asks snap),
          fs_bid_ask_spread = 0, fs_total_volume = 0, fs_timestamp = timestamp now\<rparr>)"

section \<open>Reporting an execution\<close>

text \<open>The engine and the outputs written so far.\<close>

type_synonym 'r run = "'r engine \<times> 'r engine_output list"

definition send_report ::
  "'r \<Rightarrow> string \<Rightarrow> 'r order_state option \<Rightarrow> report_event \<Rightarrow> time option \<Rightarrow> 'r run \<Rightarrow> 'r run" where
  "send_report tx order_id state ev ts = (\<lambda>(e, out).
     (let (ids, report) = build_report (en_ids e) order_id (en_symbol e) state ev ts
      in (e\<lparr>en_ids := ids\<rparr>, out @ [ExecutionReport tx report])))"

definition send_reject :: "'r \<Rightarrow> string \<Rightarrow> string \<Rightarrow> string \<Rightarrow> time option \<Rightarrow> 'r run \<Rightarrow> 'r run" where
  "send_reject tx order_id request_id reason ts = (\<lambda>(e, out).
     (let (ids, report) = make_reject_report (en_ids e) order_id (en_symbol e) request_id reason ts
      in (e\<lparr>en_ids := ids\<rparr>, out @ [ExecutionReport tx report])))"

definition send_md :: "md_incremental \<Rightarrow> time option \<Rightarrow> 'r run \<Rightarrow> 'r run" where
  "send_md inc ts = (\<lambda>(e, out). (e, out @ [MarketData (build_md_update inc ts)]))"

definition emit_here :: "diagnostic \<Rightarrow> 'r run \<Rightarrow> 'r run" where
  "emit_here event = (\<lambda>(e, out). (emit (event\<lparr>d_output_index := length out\<rparr>) e, out))"

definition report_stp :: "time option \<Rightarrow> stp_event \<Rightarrow> 'r run \<Rightarrow> 'r run" where
  "report_stp ts ev = (\<lambda>(e, out).
     (let reason = ''self-trade prevention ('' @ stp_mode_as_str (e_mode ev) @ '')''
      in case map_of (en_states e) (e_order_id ev) of
           None \<Rightarrow> (e, out)
         | Some st \<Rightarrow>
             (case e_action ev of
                Canceled \<Rightarrow>
                  send_report (st_output_tx st) (e_order_id ev) (Some st)
                    ((report_event_new ExecCanceled OrderCanceled)\<lparr>ev_reject_reason := reason\<rparr>) ts
                    (e\<lparr>en_states := hm_remove (e_order_id ev) (en_states e)\<rparr>, out)
              | Restated by \<Rightarrow>
                  (let st' = st\<lparr>st_order_qty := st_order_qty st - by\<rparr>;
                       status = (if st_cum_qty st' > 0 then OrderPartiallyFilled else OrderNew)
                   in send_report (st_output_tx st') (e_order_id ev) (Some st')
                        ((report_event_new ExecRestated status)
                           \<lparr>ev_leaves := state_leaves st', ev_reject_reason := reason\<rparr>) ts
                        (e\<lparr>en_states := hm_insert (e_order_id ev) st' (en_states e)\<rparr>, out)))))"

definition report_trigger :: "nat \<times> string \<times> string \<Rightarrow> 'r run \<Rightarrow> 'r run" where
  "report_trigger = (\<lambda>(_, oid, cause).
     emit_here (diagnostic_default\<lparr>d_kind := ''stop_trigger'', d_order_id := oid, d_cause := cause\<rparr>))"

definition report_stp_event :: "time option \<Rightarrow> stp_event \<Rightarrow> 'r run \<Rightarrow> 'r run" where
  "report_stp_event ts ev r =
     report_stp ts ev
       (emit_here (diagnostic_default\<lparr>d_kind := ''stp_context'', d_order_id := e_order_id ev,
                     d_counterparty := e_opposing_order ev\<rparr>) r)"

definition report_fill_side :: "time option \<Rightarrow> execution_report \<Rightarrow> string \<Rightarrow> 'r run \<Rightarrow> 'r run" where
  "report_fill_side ts f oid = (\<lambda>(e, out).
     (case apply_fill (en_ids e) (en_states e) oid (en_symbol e) (x_trade_price f) (x_trade_quantity f) ts of
        (ids, states, res) \<Rightarrow>
          (let e' = e\<lparr>en_ids := ids, en_states := states\<rparr>
           in case res of
                None \<Rightarrow> (e', out)
              | Some (frame, tx) \<Rightarrow>
                  (let r = emit_here (diagnostic_default\<lparr>d_kind := ''fill_context'', d_order_id := oid,
                             d_role := (if (oid = x_buy_order_id f) = (x_aggressor_side f = Buy)
                                        then ''aggressor'' else ''resting''),
                             d_counterparty := (if oid = x_buy_order_id f then x_sell_order_id f
                                                else x_buy_order_id f)\<rparr>) (e', out)
                   in (fst r, snd r @ [ExecutionReport tx frame])))))"

definition report_refresh :: "nat \<times> string \<times> nat \<Rightarrow> 'r run \<Rightarrow> 'r run" where
  "report_refresh = (\<lambda>(_, oid, quantity).
     emit_here (diagnostic_default\<lparr>d_kind := ''iceberg_refresh'', d_order_id := oid, d_quantity := quantity,
                  d_cause := ''displayed slice exhausted; reserve replenished at back of queue''\<rparr>))"

definition report_trade :: "time option \<Rightarrow> int \<Rightarrow> nat \<Rightarrow> int \<Rightarrow> bool \<Rightarrow> 'r run \<Rightarrow> 'r run" where
  "report_trade ts px qty aggressor is_auction = (\<lambda>(e, out).
     (let seq = en_trade_seq e + 1
      in (e\<lparr>en_trade_seq := seq\<rparr>,
          out @ [Trade (build_trade (en_symbol e) seq px qty aggressor is_auction ts)])))"

text \<open>
  The loop over the fills. \<^verbatim>\<open>next_if\<close> on a peekable iterator takes the longest prefix with the
  property.
\<close>

fun report_fills ::
  "time option \<Rightarrow> nat \<Rightarrow> execution_report list \<Rightarrow>
   (nat \<times> string \<times> string) list \<Rightarrow> stp_event list \<Rightarrow> (nat \<times> string \<times> nat) list \<Rightarrow> 'r run \<Rightarrow>
   (nat \<times> string \<times> string) list \<times> stp_event list \<times> 'r run" where
  "report_fills ts i [] triggers stp refreshes r = (triggers, stp, r)"
| "report_fills ts i (f # fs) triggers stp refreshes r =
     (let now_triggers = takeWhile (\<lambda>t. fst t \<le> i) triggers;
          now_stp = takeWhile (\<lambda>e. e_before_fill e \<le> i) stp;
          now_refreshes = takeWhile (\<lambda>t. fst t = i) refreshes;
          r1 = foldl (\<lambda>r t. report_trigger t r) r now_triggers;
          r2 = foldl (\<lambda>r e. report_stp_event ts e r) r1 now_stp;
          r3 = report_fill_side ts f (x_sell_order_id f) (report_fill_side ts f (x_buy_order_id f) r2);
          r4 = report_trade ts (x_trade_price f) (x_trade_quantity f) (md_side (x_aggressor_side f)) False r3;
          r5 = foldl (\<lambda>r t. report_refresh t r) r4 now_refreshes
      in report_fills ts (i + 1) fs (drop (length now_triggers) triggers) (drop (length now_stp) stp)
           (drop (length now_refreshes) refreshes) r5)"

text \<open>\<^verbatim>\<open>{:?}\<close> of a time in force prints the name of its constructor.\<close>

fun tif_debug :: "time_in_force \<Rightarrow> string" where
  "tif_debug Day = ''Day''"
| "tif_debug GTC = ''GTC''"
| "tif_debug IOC = ''IOC''"
| "tif_debug FOK = ''FOK''"
| "tif_debug AtOpen = ''AtOpen''"
| "tif_debug AtClose = ''AtClose''"
| "tif_debug Gtd = ''Gtd''"

definition report_cancel :: "time option \<Rightarrow> string \<Rightarrow> 'r run \<Rightarrow> 'r run" where
  "report_cancel ts oid = (\<lambda>(e, out).
     (case map_of (en_states e) oid of
        None \<Rightarrow> (e, out)
      | Some st \<Rightarrow>
          send_report (st_output_tx st) oid (Some st) (report_event_new ExecCanceled OrderCanceled) ts
            (emit_here (diagnostic_default\<lparr>d_kind := ''cancel_context'', d_order_id := oid,
                          d_cause := ''unfilled remainder ('' @ tif_debug (st_time_in_force st) @ '')''\<rparr>)
               (e\<lparr>en_states := hm_remove oid (en_states e)\<rparr>, out))))"

definition report_execution :: "execution \<Rightarrow> time option \<Rightarrow> 'r run \<Rightarrow> 'r run" where
  "report_execution exec ts r =
     (case report_fills ts 0 (ex_fills exec) (ex_trigger_points exec) (ex_stp exec) (ex_refreshes exec) r of
        (triggers, stp, r1) \<Rightarrow>
          (let r2 = foldl (\<lambda>r t. report_trigger t r) r1 triggers;
               r3 = foldl (\<lambda>r e. report_stp_event ts e r) r2 stp;
               r4 = foldl (\<lambda>r oid. report_cancel ts oid r) r3 (ex_cancels exec)
           in foldl (\<lambda>r inc. send_md inc ts r) r4 (ex_rested exec @ ex_stp_updates exec @ ex_fill_updates exec)))"

section \<open>Order status\<close>

definition bind_status_owner :: "string \<Rightarrow> string \<Rightarrow> 'r engine_output list \<Rightarrow> 'r engine \<Rightarrow> 'r engine" where
  "bind_status_owner oid sender outputs e =
     (let accepted =
            (case find (\<lambda>x. case x of ExecutionReport _ r \<Rightarrow> rp_order_id r = oid | _ \<Rightarrow> False) (rev outputs) of
               Some (ExecutionReport _ r) \<Rightarrow> rp_execution_type r \<noteq> exec_i32 ExecRejected
             | _ \<Rightarrow> False)
      in if accepted
         then e\<lparr>en_status_history :=
                  hm_insert oid
                    (sender, case map_of (en_status_history e) oid of None \<Rightarrow> report_default | Some (_, r) \<Rightarrow> r)
                    (en_status_history e)\<rparr>
         else e)"

definition order_status_query :: "'r engine \<Rightarrow> string \<Rightarrow> string \<Rightarrow> int \<Rightarrow> report list" where
  "order_status_query e sender oid side =
     (if sender = [] then []
      else
        sort_key rp_order_id
          (map (\<lambda>(_, _, r). r\<lparr>rp_execution_type := exec_i32 ExecOrderStatus, rp_execution_id := ''0'',
                                rp_executed_quantity := 0, rp_execution_price := 0\<rparr>)
            (filter (\<lambda>(key, owner, r). owner = sender \<and> (oid = [] \<or> key = oid) \<and>
                        rp_order_id r \<noteq> [] \<and> (side = 0 \<or> side = rp_side r))
              (en_status_history e))))"

definition remember_report :: "report \<Rightarrow> 'r engine \<Rightarrow> 'r engine" where
  "remember_report report e =
     (if rp_execution_type report = exec_i32 ExecRejected then e
      else
        (let remember_old = (\<lambda>e.
               if rp_orig_order_id report \<noteq> [] \<and> rp_execution_type report = exec_i32 ExecReplaced
               then (case map_of (en_status_history e) (rp_orig_order_id report) of
                       None \<Rightarrow> e
                     | Some (owner, old) \<Rightarrow>
                         e\<lparr>en_status_history :=
                             hm_insert (rp_orig_order_id report)
                               (owner, old\<lparr>rp_order_status := status_i32 OrderReplaced, rp_leaves_quantity := 0\<rparr>)
                               (en_status_history e),
                           en_terminal_history :=
                             en_terminal_history e @ [(rp_orig_order_id report, rp_execution_id old)]\<rparr>)
               else e)
         in case map_of (en_status_history e) (rp_order_id report) of
              None \<Rightarrow> remember_old e
            | Some (owner, current) \<Rightarrow>
                (if rp_execution_id current = rp_execution_id report then e
                 else
                   remember_old
                     (let e1 = e\<lparr>en_status_history :=
                                   hm_insert (rp_order_id report) (owner, report) (en_status_history e)\<rparr>
                      in if rp_leaves_quantity report = 0
                         then e1\<lparr>en_terminal_history :=
                                   en_terminal_history e1 @ [(rp_order_id report, rp_execution_id report)]\<rparr>
                         else e1))))"

definition forget_terminal :: "string \<times> string \<Rightarrow> 'r engine \<Rightarrow> 'r engine" where
  "forget_terminal = (\<lambda>(oid, exec) e.
     (case map_of (en_status_history e) oid of
        None \<Rightarrow> e
      | Some (_, r) \<Rightarrow>
          (if rp_execution_id r = exec \<and> rp_leaves_quantity r = 0
           then e\<lparr>en_status_history := hm_remove oid (en_status_history e)\<rparr> else e)))"

text \<open>\<^verbatim>\<open>pop_front\<close> while the history is longer than 100,000 entries.\<close>

definition trim_terminal :: "'r engine \<Rightarrow> 'r engine" where
  "trim_terminal e =
     (let n = length (en_terminal_history e) - 100000;
          e' = foldl (\<lambda>e entry. forget_terminal entry e) e (take n (en_terminal_history e))
      in e'\<lparr>en_terminal_history := drop n (en_terminal_history e)\<rparr>)"

definition remember_status :: "'r engine_output list \<Rightarrow> 'r engine \<Rightarrow> 'r engine" where
  "remember_status outputs e =
     trim_terminal
       (foldl (\<lambda>e x. case x of ExecutionReport _ report \<Rightarrow> remember_report report e | _ \<Rightarrow> e) e outputs)"

end
