(* ===== verification/Fxp_Phases.thy ===== *)
theory Fxp_Phases
  imports Fxp_Reports
begin

text \<open>
  Trading phases (\<^verbatim>\<open>engine/phases.rs\<close>): what happens when time passes, that is expiries, session
  boundaries, call auctions and the indicative price. \<^const>\<open>None\<close> stands for a panic.
\<close>

definition is_call :: "trading_phase \<Rightarrow> bool" where
  "is_call phase \<longleftrightarrow> phase = OpeningCall \<or> phase = ClosingCall"

definition entry_reason :: "trading_phase \<Rightarrow> bool \<Rightarrow> order_type \<Rightarrow> time_in_force \<Rightarrow> string option" where
  "entry_reason phase full ty tif =
     (if phase = Closed then Some ''market closed''
      else if tif \<in> {AtOpen, AtClose} \<and> \<not> full then Some ''no auction scheduled''
      else if tif \<in> {AtOpen, AtClose} \<and> ty \<in> {Stop, StopLimit}
        then Some ''auction time in force requires limit or market''
      else if tif = AtOpen \<and> phase \<noteq> OpeningCall then Some ''opening auction not in progress''
      else if is_call phase \<and> tif \<in> {IOC, FOK} then Some ''IOC/FOK not supported during auction call''
      else None)"

definition auctions_enabled :: "'r engine \<Rightarrow> bool" where
  "auctions_enabled e \<longleftrightarrow>
     en_call_until e \<noteq> None \<or> (case en_schedule e of None \<Rightarrow> False | Some s \<Rightarrow> is_full s)"

definition set_phase :: "trading_phase \<Rightarrow> time \<Rightarrow> 'r run \<Rightarrow> 'r run" where
  "set_phase phase at = (\<lambda>(e, out).
     (if en_phase e = phase then (e, out)
      else (e\<lparr>en_phase := phase, en_last_indicative := None\<rparr>,
            out @ [TradingSessionStatus \<lparr>ss_symbol = en_symbol e, ss_phase = phase_i32 phase,
                                         ss_timestamp = timestamp at\<rparr>])))"

section \<open>The auction\<close>

definition auction_order_of :: "'r engine \<Rightarrow> order \<Rightarrow> auction_order option" where
  "auction_order_of e ord =
     do {
       st \<leftarrow> map_of (en_states e) (o_order_id ord);
       Some \<lparr>a_id = o_order_id ord,
             a_side = (case o_side ord of Buy \<Rightarrow> AuctionBuy | Sell \<Rightarrow> AuctionSell),
             a_limit_price = (if o_order_type ord = Market then None else Some (o_price ord)),
             a_quantity = o_quantity ord,
             a_seq = (case map_of (b_arrival (en_book e)) (o_order_id ord) of
                        Some n \<Rightarrow> n | None \<Rightarrow> st_arrival st)\<rparr>
     }"

definition auction_orders :: "'r engine \<Rightarrow> auction_order list option" where
  "auction_orders e =
     those (map (auction_order_of e)
       (map snd (b_order_lookup (en_book e)) @ map snd (en_call_markets e)))"

definition publish_indicative :: "time \<Rightarrow> 'r run \<Rightarrow> 'r run option" where
  "publish_indicative at = (\<lambda>(e, out).
     (if \<not> is_call (en_phase e) then Some (e, out)
      else do {
        orders \<leftarrow> auction_orders e;
        let result = uncross orders (en_last_trade_price e);
        if en_last_indicative e = Some result then Some (e, out)
        else Some (e\<lparr>en_last_indicative := Some result\<rparr>,
                   out @ [AuctionInfo
                     \<lparr>ai_symbol = en_symbol e, ai_phase = phase_i32 (en_phase e),
                      ai_indicative_price = ar_price result, ai_indicative_volume = ar_volume result,
                      ai_imbalance_quantity = as_u64 \<bar>ar_imbalance result\<bar>,
                      ai_imbalance_side =
                        (if ar_imbalance result > 0 then 1 else if ar_imbalance result < 0 then 2 else 0),
                      ai_reference_price =
                        (case en_last_trade_price e of None \<Rightarrow> 0 | Some p \<Rightarrow> p),
                      ai_timestamp = timestamp at\<rparr>])
      }))"

text \<open>One side of one fill: the book or the market order of the call gives up the quantity.\<close>

definition auction_take :: "string \<Rightarrow> nat \<Rightarrow> 'r engine \<Rightarrow> ('r engine \<times> md_incremental list) option" where
  "auction_take oid quantity e =
     (if hm_contains (b_order_lookup (en_book e)) oid then
        do {
          (b, md) \<leftarrow> apply_auction_fill oid quantity (en_book e);
          Some (e\<lparr>en_book := b\<rparr>, [md])
        }
      else
        do {
          ord \<leftarrow> map_of (en_call_markets e) oid;
          let ord' = ord\<lparr>o_quantity := sub_u32 (o_quantity ord) quantity\<rparr>;
          Some (e\<lparr>en_call_markets :=
                    (if o_quantity ord' = 0 then hm_remove oid (en_call_markets e)
                     else hm_insert oid ord' (en_call_markets e))\<rparr>, [])
        })"

definition auction_fill_side ::
  "time \<Rightarrow> int \<Rightarrow> nat \<Rightarrow> string \<Rightarrow> string \<Rightarrow> 'r run \<times> md_incremental list \<Rightarrow> ('r run \<times> md_incremental list) option" where
  "auction_fill_side at price quantity oid other = (\<lambda>((e, out), md).
     do {
       (e1, mds) \<leftarrow> auction_take oid quantity e;
       Some (case apply_fill (en_ids e1) (en_states e1) oid (en_symbol e1) price quantity (timestamp at) of
               (ids, states, res) \<Rightarrow>
                 (let e2 = e1\<lparr>en_ids := ids, en_states := states\<rparr>
                  in case res of
                       None \<Rightarrow> ((e2, out), md @ mds)
                     | Some (report, owner) \<Rightarrow>
                         (case emit_here (diagnostic_default\<lparr>d_kind := ''fill_context'', d_order_id := oid,
                                            d_role := ''auction'', d_counterparty := other\<rparr>) (e2, out) of
                            (e3, out3) \<Rightarrow>
                              ((e3, out3 @ [ExecutionReport owner (report\<lparr>rp_auction := True\<rparr>)]), md @ mds))))
     })"

fun auction_fills ::
  "time \<Rightarrow> int \<Rightarrow> auction_fill list \<Rightarrow> 'r run \<times> md_incremental list \<Rightarrow> ('r run \<times> md_incremental list) option" where
  "auction_fills at price [] s = Some s"
| "auction_fills at price (f # fs) s =
     do {
       s1 \<leftarrow> auction_fill_side at price (af_quantity f) (af_buy_id f) (af_sell_id f) s;
       (r2, md) \<leftarrow> auction_fill_side at price (af_quantity f) (af_sell_id f) (af_buy_id f) s1;
       auction_fills at price fs (report_trade (timestamp at) price (af_quantity f) 0 True r2, md)
     }"

definition run_auction :: "time \<Rightarrow> 'r run \<Rightarrow> ('r run \<times> int option) option" where
  "run_auction at = (\<lambda>(e, out).
     do {
       orders \<leftarrow> auction_orders e;
       let result = uncross orders (en_last_trade_price e);
       fills \<leftarrow> allocate orders result;
       (r, md) \<leftarrow> auction_fills at (ar_price result) fills ((e, out), []);
       let (e1, out1) = foldl (\<lambda>r inc. send_md inc (timestamp at) r) r md;
       if ar_volume result = 0 then Some ((e1, out1), None)
       else Some ((e1\<lparr>en_last_trade_price := Some (ar_price result)\<rparr>, out1), Some (ar_price result))
     })"

section \<open>Removing live orders\<close>

definition remove_live :: "string \<Rightarrow> 'r engine \<Rightarrow> ('r engine \<times> md_incremental option) option" where
  "remove_live oid e =
     (case cancel_order oid (en_book e) of
        (b, Some md) \<Rightarrow> Some (e\<lparr>en_book := b\<rparr>, Some md)
      | (b, None) \<Rightarrow>
          (let e1 = e\<lparr>en_book := b\<rparr>
           in if hm_contains (en_call_markets e1) oid
              then Some (e1\<lparr>en_call_markets := hm_remove oid (en_call_markets e1)\<rparr>, None)
              else if hm_contains (en_held_close e1) oid
              then Some (e1\<lparr>en_held_close := hm_remove oid (en_held_close e1)\<rparr>, None)
              else
                do {
                  st \<leftarrow> map_of (en_states e1) oid;
                  (case stops_cancel_for oid (st_sender st) (en_stop_book e1) of
                     (sb, Inr _) \<Rightarrow> Some (e1\<lparr>en_stop_book := sb\<rparr>, None)
                   | (_, Inl _) \<Rightarrow> None)
                }))"

definition send_md_opt :: "md_incremental option \<Rightarrow> time option \<Rightarrow> 'r run \<Rightarrow> 'r run" where
  "send_md_opt md ts r = (case md of None \<Rightarrow> r | Some inc \<Rightarrow> send_md inc ts r)"

definition finish_order :: "bool \<Rightarrow> time \<Rightarrow> string \<Rightarrow> 'r run \<Rightarrow> 'r run option" where
  "finish_order expired at oid = (\<lambda>(e, out).
     do {
       (e1, md) \<leftarrow> remove_live oid e;
       st \<leftarrow> map_of (en_states e1) oid;
       let r1 = (e1\<lparr>en_states := hm_remove oid (en_states e1)\<rparr>, out);
       let r2 = (if expired then r1
                 else emit_here (diagnostic_default\<lparr>d_kind := ''cancel_context'', d_order_id := oid,
                                   d_cause := ''auction remainder''\<rparr>) r1);
       let ev = (if expired then report_event_new ExecExpired OrderExpired
                 else report_event_new ExecCanceled OrderCanceled);
       Some (send_md_opt md (timestamp at)
               (send_report (st_output_tx st) oid (Some st) (ev\<lparr>ev_orig_order_id := oid\<rparr>) (timestamp at) r2))
     })"

fun finish_orders :: "bool \<Rightarrow> time \<Rightarrow> (nat \<times> string) list \<Rightarrow> 'r run \<Rightarrow> 'r run option" where
  "finish_orders expired at [] r = Some r"
| "finish_orders expired at ((_, oid) # rest) r =
     do {
       r' \<leftarrow> finish_order expired at oid r;
       finish_orders expired at rest r'
     }"

text \<open>The orders with a property, by arrival and then by identifier.\<close>

definition due_orders :: "(string \<Rightarrow> 'r order_state \<Rightarrow> bool) \<Rightarrow> 'r engine \<Rightarrow> (nat \<times> string) list" where
  "due_orders P e =
     sort (map (\<lambda>(oid, s). (st_arrival s, oid)) (filter (\<lambda>(oid, s). P oid s) (en_states e)))"

definition is_due :: "time \<Rightarrow> bool \<Rightarrow> 'r order_state \<Rightarrow> bool" where
  "is_due at day s \<longleftrightarrow>
     day \<and> st_time_in_force s = Day \<or>
     st_time_in_force s = Gtd \<and>
       (case expiry_instant (st_expire_date s) of Inl _ \<Rightarrow> False | Inr t \<Rightarrow> Time t 0 \<le> at)"

definition expire :: "time \<Rightarrow> bool \<Rightarrow> 'r run \<Rightarrow> 'r run option" where
  "expire at day r = finish_orders True at (due_orders (\<lambda>_ s. is_due at day s) (fst r)) r"

definition cancel_remainders :: "time_in_force \<Rightarrow> time \<Rightarrow> 'r run \<Rightarrow> 'r run option" where
  "cancel_remainders tif at r =
     finish_orders False at
       (due_orders (\<lambda>oid s. st_time_in_force s = tif \<or> hm_contains (en_call_markets (fst r)) oid) (fst r)) r"

section \<open>Session boundaries\<close>

text \<open>The stops that the opening price triggers run before the cascade of their own prints.\<close>

fun fire_stops ::
  "bool \<Rightarrow> string \<Rightarrow> order list \<Rightarrow> order_book \<times> execution \<Rightarrow> (order_book \<times> execution) option" where
  "fire_stops diagnostics cause [] s = Some s"
| "fire_stops diagnostics cause (stop # rest) (b, exec) =
     do {
       let exec1 = (if diagnostics
                    then exec\<lparr>ex_trigger_points := ex_trigger_points exec @
                                [(length (ex_fills exec), o_order_id stop, cause)]\<rparr>
                    else exec);
       (b', exec2, _) \<leftarrow> execute_into stop (b, exec1\<lparr>ex_triggered := ex_triggered exec1 @ [o_order_id stop]\<rparr>);
       fire_stops diagnostics cause rest (b', exec2)
     }"

definition run_cascade :: "execution \<Rightarrow> 'r engine \<Rightarrow> ('r engine \<times> execution) option" where
  "run_cascade exec e =
     map_option (\<lambda>(b, stops, ltp, exec').
         (e\<lparr>en_book := b, en_stop_book := stops, en_last_trade_price := ltp\<rparr>, exec'))
       (run_stop_cascade (en_book e, en_stop_book e, en_last_trade_price e, exec))"

definition open_boundary :: "time \<Rightarrow> 'r run \<Rightarrow> 'r run option" where
  "open_boundary at r =
     do {
       (r1, price_opt) \<leftarrow> run_auction at r;
       r2 \<leftarrow> cancel_remainders AtOpen at r1;
       let (e, out) = set_phase Continuous at r2;
       (case price_opt of
          None \<Rightarrow> Some (e, out)
        | Some price \<Rightarrow>
            do {
              let (stops, triggered) = drain_triggered price (en_stop_book e);
              (b, exec) \<leftarrow> fire_stops (en_diagnostics e \<noteq> None) ''auction trade price satisfies stop'' triggered
                   (en_book e, execution_default);
              (e1, exec1) \<leftarrow> run_cascade exec (e\<lparr>en_book := b, en_stop_book := stops\<rparr>);
              Some (report_execution exec1 (timestamp at) (e1, out))
            })
     }"

fun enter_held :: "time \<Rightarrow> order list \<Rightarrow> 'r run \<Rightarrow> 'r run" where
  "enter_held at [] r = r"
| "enter_held at (ord # rest) (e, out) =
     enter_held at rest
       (if o_order_type ord = Market
        then (e\<lparr>en_call_markets := hm_insert (o_order_id ord) ord (en_call_markets e)\<rparr>, out)
        else
          (case add_order ord (en_book e) of
             (b, md) \<Rightarrow> send_md md (timestamp at) (e\<lparr>en_book := b\<rparr>, out)))"

text \<open>\<^verbatim>\<open>sort_by_key\<close> looks at the keys only when there is something to compare.\<close>

definition close_call_boundary :: "time \<Rightarrow> 'r run \<Rightarrow> 'r run option" where
  "close_call_boundary at r =
     (case set_phase ClosingCall at r of
        (e, out) \<Rightarrow>
          (let held = map snd (en_held_close e)
           in if length held < 2 \<or> list_all (\<lambda>x. map_of (en_states e) (o_order_id x) \<noteq> None) held
              then Some (enter_held at
                     (sort_key (\<lambda>x. st_arrival (the (map_of (en_states e) (o_order_id x)))) held)
                     (e\<lparr>en_held_close := []\<rparr>, out))
              else None))"

definition close_boundary :: "time \<Rightarrow> 'r run \<Rightarrow> 'r run option" where
  "close_boundary at r =
     do {
       (r1, _) \<leftarrow> run_auction at r;
       r2 \<leftarrow> cancel_remainders AtClose at r1;
       expire at True (set_phase Closed at r2)
     }"

definition session_boundary :: "boundary \<Rightarrow> time \<Rightarrow> 'r run \<Rightarrow> 'r run option" where
  "session_boundary bd at r =
     (case bd of
        OpenCall \<Rightarrow> Some (set_phase OpeningCall at r)
      | Open \<Rightarrow> open_boundary at r
      | CloseCall \<Rightarrow> close_call_boundary at r
      | Close \<Rightarrow> close_boundary at r)"

section \<open>The passing of time\<close>

definition next_scheduled :: "'r engine \<Rightarrow> time \<Rightarrow> (int \<times> boundary) option" where
  "next_scheduled e cursor =
     (case en_schedule e of None \<Rightarrow> None | Some s \<Rightarrow> next_boundary s (t_seconds cursor))"

definition expiries_after :: "'r engine \<Rightarrow> time \<Rightarrow> int list" where
  "expiries_after e cursor =
     filter (\<lambda>seconds. Time seconds 0 > cursor)
       (List.map_filter
          (\<lambda>(_, s). if st_time_in_force s = Gtd
                    then (case expiry_instant (st_expire_date s) of Inl _ \<Rightarrow> None | Inr t \<Rightarrow> Some t)
                    else None)
          (en_states e))"

definition next_event :: "'r engine \<Rightarrow> time \<Rightarrow> int option" where
  "next_event e cursor =
     (let times = (case next_scheduled e cursor of None \<Rightarrow> [] | Some (s, _) \<Rightarrow> [s]) @
                  (case expiries_after e cursor of [] \<Rightarrow> [] | xs \<Rightarrow> [Min (set xs)]) @
                  (case en_call_until e of None \<Rightarrow> [] | Some t \<Rightarrow> [t_seconds t])
      in if times = [] then None else Some (Min (set times)))"

definition advance_step :: "'r run \<times> time \<Rightarrow> ('r run \<times> time) option" where
  "advance_step = (\<lambda>((e, out), cursor).
     do {
       seconds \<leftarrow> next_event e cursor;
       let at = Time seconds 0;
       let boundary = (case next_scheduled e cursor of
                         None \<Rightarrow> None | Some (s, kind) \<Rightarrow> if s = seconds then Some kind else None);
       let full = (case en_schedule e of None \<Rightarrow> False | Some s \<Rightarrow> is_full s);
       let operator_open = map_option t_seconds (en_call_until e);
       (e1, out1) \<leftarrow> expire at (\<not> full \<and> boundary = Some Close) (e, out);
       r2 \<leftarrow> (if operator_open = Some seconds
              then session_boundary Open at (e1\<lparr>en_call_until := None\<rparr>, out1)
              else (case boundary of
                      None \<Rightarrow> Some (e1, out1)
                    | Some kind \<Rightarrow> if full then session_boundary kind at (e1, out1) else Some (e1, out1)));
       r3 \<leftarrow> publish_indicative at r2;
       Some (r3, at)
     })"

definition advance_guard :: "'r run \<times> time \<Rightarrow> bool" where
  "advance_guard = (\<lambda>((e, out), cursor).
     cursor < en_clock e \<and>
     (case next_event e cursor of None \<Rightarrow> False | Some seconds \<Rightarrow> \<not> Time seconds 0 > en_clock e))"

definition advance :: "'r engine \<Rightarrow> 'r run option" where
  "advance e =
     do {
       ((e', out), _) \<leftarrow> loop_while advance_guard advance_step ((e, []), en_last_seen e);
       Some (if en_clock e' > en_last_seen e' then e'\<lparr>en_last_seen := en_clock e'\<rparr> else e', out)
     }"

definition tick :: "'r engine \<Rightarrow> 'r run option" where
  "tick e = map_option (\<lambda>(e', out). (remember_status out e', out)) (advance e)"

end
