(* ===== verification/Fxp_Engine.thy ===== *)
theory Fxp_Engine
  imports Fxp_Phases
begin

text \<open>
  The requests of the engine (\<^verbatim>\<open>engine.rs\<close>, and \<^verbatim>\<open>preflight\<close> of \<^verbatim>\<open>engine/phases.rs\<close>): new order,
  cancel, cancel/replace, mass cancel, subscription and the operator's opening call. Every request
  first lets time pass.
\<close>

section \<open>Request parsing\<close>

record 'r cancel_msg =
  cm_order_id :: string
  cm_sender :: string
  cm_client_cancel_id :: string
  cm_output_tx :: 'r

record 'r cancel_replace_msg =
  cr_order_id :: string
  cr_sender :: string
  cr_new_order_id :: string
  cr_client_replace_id :: string
  cr_new_price :: int
  cr_new_quantity :: int
  cr_new_time_in_force :: int
  cr_new_stop_price :: int
  cr_new_display_quantity :: "int option"
  cr_output_tx :: 'r

record mass_cancel_msg =
  mc_sender :: string
  mc_side :: int
  mc_client_request_id :: string
  mc_reason :: int

datatype 'r symbol_msg =
  OrderMsg new_order_single 'r
| CancelMsg "'r cancel_msg"
| CancelReplaceMsg "'r cancel_replace_msg"

definition parse_tif :: "int \<Rightarrow> time_in_force option" where
  "parse_tif n =
     (if n = 1 then Some Day else if n = 2 then Some GTC else if n = 3 then Some IOC
      else if n = 4 then Some FOK else if n = 5 then Some AtOpen else if n = 6 then Some AtClose
      else if n = 7 then Some Gtd else None)"

definition parse_order_enums :: "new_order_single \<Rightarrow> string + (order_side \<times> order_type \<times> time_in_force)" where
  "parse_order_enums order =
     (if n_side order = 0 then Inl ''side is required''
      else if n_side order \<notin> {1, 2} then Inl (''unknown side '' @ show_int (n_side order))
      else if n_order_type order = 0 then Inl ''order_type is required''
      else if n_order_type order \<notin> {1, 2, 3, 4} then Inl (''unknown order_type '' @ show_int (n_order_type order))
      else if n_time_in_force order = 0 then Inl ''time_in_force is required''
      else
        (case parse_tif (n_time_in_force order) of
           None \<Rightarrow> Inl (''unknown time_in_force '' @ show_int (n_time_in_force order))
         | Some tif \<Rightarrow>
             Inr (if n_side order = 1 then Buy else Sell,
                  if n_order_type order = 1 then Market else if n_order_type order = 2 then Limit
                  else if n_order_type order = 3 then Stop else StopLimit,
                  tif)))"

definition parse_stp :: "int \<Rightarrow> stp_mode \<Rightarrow> string + (stp_mode \<times> bool)" where
  "parse_stp value dflt =
     (if value = 0 then Inr (dflt, False)
      else if value = 1 then Inr (StpNone, False)
      else if value = 2 then Inr (CancelNewest, True)
      else if value = 3 then Inr (CancelOldest, True)
      else if value = 4 then Inr (CancelBoth, True)
      else if value = 5 then Inr (DecrementAndCancel, True)
      else Inl (''unknown stp_mode '' @ show_int value))"

definition parse_replace_time_in_force :: "int \<Rightarrow> string + time_in_force option" where
  "parse_replace_time_in_force value =
     (if value = 0 then Inr None
      else
        (case parse_tif value of
           None \<Rightarrow> Inl (''unknown new_time_in_force '' @ show_int value)
         | Some tif \<Rightarrow> Inr (Some tif)))"

definition validate_expiry :: "string \<Rightarrow> time \<Rightarrow> string option" where
  "validate_expiry date now =
     (case expiry_instant date of
        Inl e \<Rightarrow> Some e
      | Inr seconds \<Rightarrow> if Time seconds 0 \<le> now then Some ''expire_date is in the past'' else None)"

definition iceberg_reason ::
  "int \<Rightarrow> nat \<Rightarrow> order_type \<Rightarrow> time_in_force \<Rightarrow> bool \<Rightarrow> nat \<Rightarrow> string option" where
  "iceberg_reason display tot ty tif full_schedule lot =
     (if display < 0 then Some ''display quantity must be nonnegative''
      else if display = 0 then None
      else if as_u32 display > tot \<or> as_u32 display mod lot \<noteq> 0
        then Some ''display quantity must not exceed total and must be a multiple of lot size''
      else if full_schedule \<or> ty \<noteq> Limit \<or> tif \<notin> {Day, GTC, Gtd}
        then Some ''icebergs require limit DAY/GTC/GTD without auction sessions''
      else None)"

definition order_state_new :: "new_order_single \<Rightarrow> nat \<Rightarrow> 'r \<Rightarrow> nat \<Rightarrow> 'r order_state" where
  "order_state_new order order_qty output_tx arrival =
     \<lparr>st_sender = n_sender order,
      st_time_in_force = (case parse_order_enums order of Inl _ \<Rightarrow> GTC | Inr (_, _, tif) \<Rightarrow> tif),
      st_expire_date = n_expire_date order, st_arrival = arrival, st_side = n_side order,
      st_order_qty = order_qty, st_display_quantity = as_u32 (max (n_display_quantity order) 0),
      st_cum_qty = 0, st_notional = 0, st_account = n_account order,
      st_client_order_id = n_client_order_id order, st_output_tx = output_tx\<rparr>"

text \<open>\<^verbatim>\<open>or_else\<close> on an option: the first reason wins.\<close>

fun or_else :: "'a option \<Rightarrow> 'a option \<Rightarrow> 'a option" where
  "or_else (Some x) _ = Some x"
| "or_else None y = y"

section \<open>Cancel\<close>

definition process_cancel :: "'r cancel_msg \<Rightarrow> 'r run \<Rightarrow> 'r run" where
  "process_cancel msg = (\<lambda>(e, out).
     (let ts = timestamp (en_clock e);
          (e1, cancelled) =
            (case cancel_order_for (cm_order_id msg) (cm_sender msg) (en_book e) of
               (b, Inr md) \<Rightarrow> (e\<lparr>en_book := b\<rparr>, Inr (Some md))
             | (b, Inl UnknownOrder) \<Rightarrow>
                 (case stops_cancel_for (cm_order_id msg) (cm_sender msg) (en_stop_book e) of
                    (sb, Inl reject) \<Rightarrow> (e\<lparr>en_book := b, en_stop_book := sb\<rparr>, Inl reject)
                  | (sb, Inr _) \<Rightarrow> (e\<lparr>en_book := b, en_stop_book := sb\<rparr>, Inr None))
             | (b, Inl reject) \<Rightarrow> (e\<lparr>en_book := b\<rparr>, Inl reject))
      in case cancelled of
           Inr md \<Rightarrow>
             send_md_opt md ts
               (send_report (cm_output_tx msg) (cm_order_id msg) (map_of (en_states e1) (cm_order_id msg))
                  ((report_event_new ExecCanceled OrderCanceled)
                     \<lparr>ev_client_order_id := Some (cm_client_cancel_id msg), ev_orig_order_id := cm_order_id msg\<rparr>) ts
                  (e1\<lparr>en_states := hm_remove (cm_order_id msg) (en_states e1)\<rparr>, out))
         | Inl reject \<Rightarrow>
             send_reject (cm_output_tx msg) (cm_order_id msg) (cm_client_cancel_id msg)
               (reject_reason reject) ts (e1, out)))"

section \<open>Cancel/replace\<close>

definition send_replace_reports ::
  "'r cancel_replace_msg \<Rightarrow> 'r order_state \<Rightarrow> time option \<Rightarrow> 'r run \<Rightarrow> 'r run" where
  "send_replace_reports msg new_state ts r =
     (let leaves = state_leaves new_state;
          send = (\<lambda>oid et os. send_report (cr_output_tx msg) oid (Some new_state)
                    ((report_event_new et os)\<lparr>ev_leaves := leaves, ev_orig_order_id := cr_order_id msg\<rparr>) ts)
      in send (cr_new_order_id msg) ExecNew OrderNew (send (cr_order_id msg) ExecReplaced OrderReplaced r))"

definition replace_reject :: "'r cancel_replace_msg \<Rightarrow> string \<Rightarrow> 'r run \<Rightarrow> 'r run" where
  "replace_reject msg reason = (\<lambda>(e, out).
     send_reject (cr_output_tx msg) (cr_order_id msg) (cr_client_replace_id msg) reason
       (timestamp (en_clock e)) (e, out))"

definition replace_state ::
  "'r cancel_replace_msg \<Rightarrow> nat \<Rightarrow> order \<Rightarrow> nat \<Rightarrow> int \<Rightarrow> nat \<Rightarrow> 'r order_state" where
  "replace_state msg arrival replacement cum_qty notional order_qty =
     \<lparr>st_sender = o_trader_id replacement, st_time_in_force = o_time_in_force replacement,
      st_expire_date = o_expire_date replacement, st_arrival = arrival,
      st_side = side_to_proto (o_side replacement), st_order_qty = order_qty,
      st_display_quantity = o_display_quantity replacement, st_cum_qty = cum_qty, st_notional = notional,
      st_account = o_account replacement, st_client_order_id = cr_client_replace_id msg,
      st_output_tx = cr_output_tx msg\<rparr>"

definition replace_parked ::
  "'r cancel_replace_msg \<Rightarrow> time_in_force option \<Rightarrow> nat \<Rightarrow> 'r run \<Rightarrow> 'r run option" where
  "replace_parked msg new_tif arrival = (\<lambda>(e, out).
     (let ts = timestamp (en_clock e);
          changes = \<lparr>sr_new_price = cr_new_price msg, sr_new_stop_price = cr_new_stop_price msg,
                     sr_new_quantity = as_u32 (max (cr_new_quantity msg) 0), sr_new_time_in_force = new_tif,
                     sr_client_order_id = cr_client_replace_id msg, sr_timestamp = as_millis (en_clock e)\<rparr>
      in case stops_replace_for (cr_order_id msg) (cr_new_order_id msg) changes (cr_sender msg)
                (hm_contains (b_order_lookup (en_book e)) (cr_new_order_id msg)) (en_stop_book e) of
           (sb, Inl reject) \<Rightarrow> Some (replace_reject msg (reject_reason reject) (e\<lparr>en_stop_book := sb\<rparr>, out))
         | (sb, Inr replacement) \<Rightarrow>
             (let new_state = replace_state msg arrival replacement 0 0 (o_quantity replacement);
                  (e1, out1) = send_replace_reports msg new_state ts
                     (e\<lparr>en_stop_book := sb, en_states := hm_remove (cr_order_id msg) (en_states e)\<rparr>, out);
                  e2 = e1\<lparr>en_states := hm_insert (cr_new_order_id msg) new_state (en_states e1)\<rparr>
              in if en_phase e = Continuous \<and>
                    (case en_last_trade_price e of None \<Rightarrow> False | Some p \<Rightarrow> stop_fires replacement p)
                 then
                   (case stops_cancel_for (o_order_id replacement) (o_trader_id replacement) (en_stop_book e2) of
                      (_, Inl _) \<Rightarrow> None
                    | (sb', Inr ord) \<Rightarrow>
                        do {
                          (b, exec) \<leftarrow> fire_stops (en_diagnostics e2 \<noteq> None)
                               ''existing last trade price satisfies stop'' [ord] (en_book e2, execution_default);
                          (e3, exec') \<leftarrow> run_cascade exec (e2\<lparr>en_book := b, en_stop_book := sb'\<rparr>);
                          Some (report_execution exec' ts (e3, out1))
                        })
                 else Some (e2, out1))))"

definition replace_resting ::
  "'r cancel_replace_msg \<Rightarrow> time_in_force option \<Rightarrow> nat \<Rightarrow> 'r run \<Rightarrow> 'r run option" where
  "replace_resting msg new_tif arrival = (\<lambda>(e, out).
     (let ts = timestamp (en_clock e);
          original = map_of (b_order_lookup (en_book e)) (cr_order_id msg);
          original_visible = (case original of None \<Rightarrow> 0 | Some x \<Rightarrow> visible (en_book e) x);
          changes = \<lparr>r_new_price = cr_new_price msg, r_new_total_qty = as_u32 (max (cr_new_quantity msg) 0),
                     r_new_display_quantity = map_option as_u32 (cr_new_display_quantity msg),
                     r_new_time_in_force = new_tif, r_client_order_id = cr_client_replace_id msg,
                     r_timestamp = as_millis (en_clock e)\<rparr>
      in case replace_order (cr_order_id msg) (cr_new_order_id msg) changes (cr_sender msg) (en_book e) of
           (b, Inl reject) \<Rightarrow> Some (replace_reject msg (reject_reason reject) (e\<lparr>en_book := b\<rparr>, out))
         | (b, Inr (replacement, inc)) \<Rightarrow>
             (let (cum_qty, notional) =
                    (case map_of (en_states e) (cr_order_id msg) of
                       None \<Rightarrow> (0, 0) | Some s \<Rightarrow> (st_cum_qty s, st_notional s));
                  new_state = replace_state msg arrival replacement cum_qty notional
                                (add_u32 cum_qty (o_quantity replacement));
                  (e1, out1) = send_replace_reports msg new_state ts
                     (e\<lparr>en_book := b, en_states := hm_remove (cr_order_id msg) (en_states e)\<rparr>, out);
                  e2 = e1\<lparr>en_states := hm_insert (cr_new_order_id msg) new_state (en_states e1)\<rparr>
              in if o_time_in_force replacement = AtClose \<and> en_phase e \<noteq> ClosingCall then
                   (case original of
                      None \<Rightarrow> None
                    | Some orig \<Rightarrow>
                        (let b' = fst (cancel_order (o_order_id replacement) (en_book e2));
                             e3 = e2\<lparr>en_book := b',
                                     en_held_close := hm_insert (o_order_id replacement) replacement (en_held_close e2)\<rparr>;
                             md = generate_incremental_update b' CancelOrder (o_price orig) original_visible (o_side orig)
                         in Some (send_md md ts (e3, out1))))
                 else if en_phase e \<noteq> Continuous then Some (send_md inc ts (e2, out1))
                 else
                   do {
                     (b', exec) \<leftarrow> match_into (en_book e2, execution_default);
                     (e3, exec') \<leftarrow> run_cascade exec (e2\<lparr>en_book := b'\<rparr>);
                     Some (report_execution exec' ts (send_md inc ts (e3, out1)))
                   })))"

definition process_replace :: "'r cancel_replace_msg \<Rightarrow> nat \<Rightarrow> 'r run \<Rightarrow> 'r run option" where
  "process_replace msg arrival = (\<lambda>(e, out).
     (case parse_replace_time_in_force (cr_new_time_in_force msg) of
        Inl reason \<Rightarrow> Some (replace_reject msg reason (e, out))
      | Inr new_tif \<Rightarrow>
          (let expiry = (if new_tif = Some Gtd then
                           (case map_of (en_states e) (cr_order_id msg) of
                              None \<Rightarrow> None
                            | Some st \<Rightarrow> if st_sender st = cr_sender msg
                                         then validate_expiry (st_expire_date st) (en_clock e) else None)
                         else None)
           in case expiry of
                Some reason \<Rightarrow> Some (replace_reject msg reason (e, out))
              | None \<Rightarrow>
                  (if stops_contains (en_stop_book e) (cr_order_id msg)
                   then replace_parked msg new_tif arrival (e, out)
                   else replace_resting msg new_tif arrival (e, out)))))"

section \<open>New orders\<close>

definition order_entry_reason ::
  "'r engine \<Rightarrow> new_order_single \<Rightarrow> order_type \<Rightarrow> time_in_force \<Rightarrow> bool \<Rightarrow> string option" where
  "order_entry_reason e order ty tif is_limit =
     (let stp = parse_stp (n_stp_mode order) (en_stp_default e)
      in if n_quantity order \<le> 0 then Some ''quantity must be positive''
         else if is_limit \<and> n_price order \<le> 0 then Some ''limit price must be positive''
         else if hm_contains (en_states e) (n_order_id order) then Some ''Duplicate order id''
         else
           (case stp of
              Inl reason \<Rightarrow> Some reason
            | Inr (mode, explicit) \<Rightarrow>
                if tif \<in> {AtOpen, AtClose} \<and> explicit \<and> mode \<noteq> StpNone
                then Some ''self-trade prevention is not supported for auction orders''
                else
                  (case entry_reason (en_phase e) (auctions_enabled e) ty tif of
                     Some reason \<Rightarrow> Some reason
                   | None \<Rightarrow> if tif = Gtd then validate_expiry (n_expire_date order) (en_clock e) else None)))"

definition order_invalid :: "'r engine \<Rightarrow> new_order_single \<Rightarrow> string option" where
  "order_invalid e order =
     (let parsed = parse_order_enums order;
          is_limit = (case parsed of Inl _ \<Rightarrow> False | Inr (_, ty, _) \<Rightarrow> ty \<in> {Limit, StopLimit});
          is_stop = (case parsed of Inl _ \<Rightarrow> False | Inr (_, ty, _) \<Rightarrow> ty \<in> {Stop, StopLimit});
          rules = en_symbol_rules e
      in or_else
           (or_else
              (case parsed of
                 Inl reason \<Rightarrow> Some reason
               | Inr (_, ty, tif) \<Rightarrow> order_entry_reason e order ty tif is_limit)
              (or_else (validate_quantity rules (as_u32 (n_quantity order)))
                 (or_else (if is_limit then validate_price rules (n_price order) else None)
                    (if n_stop_price order \<noteq> 0 \<and> is_stop then validate_price rules (n_stop_price order) else None))))
           (case parsed of
              Inl _ \<Rightarrow> None
            | Inr (_, ty, tif) \<Rightarrow>
                iceberg_reason (n_display_quantity order) (as_u32 (n_quantity order)) ty tif
                  (auctions_enabled e) (y_lot_size rules)))"

definition order_of_msg ::
  "'r engine \<Rightarrow> new_order_single \<Rightarrow> order_side \<Rightarrow> order_type \<Rightarrow> time_in_force \<Rightarrow> stp_mode \<Rightarrow> order" where
  "order_of_msg e order sd ty tif mode =
     \<lparr>o_order_id = n_order_id order, o_trader_id = n_sender order, o_symbol = en_symbol e,
      o_price = n_price order, o_quantity = as_u32 (n_quantity order),
      o_display_quantity = as_u32 (n_display_quantity order), o_side = sd, o_order_type = ty,
      o_time_in_force = tif, o_timestamp = as_millis (en_clock e), o_stop_price = n_stop_price order,
      o_expire_date = n_expire_date order, o_account = n_account order,
      o_client_order_id = n_client_order_id order,
      o_stp = \<lparr>stp_mode = mode, stp_group = n_stp_group order\<rparr>\<rparr>"

definition accept_event :: "order \<Rightarrow> diagnostic" where
  "accept_event ord =
     diagnostic_default\<lparr>d_kind := ''order_accepted'', d_order_id := o_order_id ord, d_quantity := o_quantity ord\<rparr>"

definition send_new :: "'r \<Rightarrow> order \<Rightarrow> 'r order_state \<Rightarrow> time option \<Rightarrow> 'r run \<Rightarrow> 'r run" where
  "send_new tx ord st ts =
     send_report tx (o_order_id ord) (Some st)
       ((report_event_new ExecNew OrderNew)\<lparr>ev_leaves := state_leaves st\<rparr>) ts"

definition insert_state :: "string \<Rightarrow> 'r order_state \<Rightarrow> 'r run \<Rightarrow> 'r run" where
  "insert_state oid st = (\<lambda>(e, out). (e\<lparr>en_states := hm_insert oid st (en_states e)\<rparr>, out))"

text \<open>An order that does not trade now: parked, held for the close, or entered into the call.\<close>

definition park_stop :: "'r \<Rightarrow> order \<Rightarrow> 'r order_state \<Rightarrow> 'r run \<Rightarrow> 'r run" where
  "park_stop tx ord st r =
     (case insert_state (o_order_id ord) st
             (send_new tx ord st (timestamp (en_clock (fst r))) (emit_here (accept_event ord) r)) of
        (e, out) \<Rightarrow> (e\<lparr>en_stop_book := park ord (en_stop_book e)\<rparr>, out))"

definition enter_call :: "'r \<Rightarrow> order \<Rightarrow> 'r order_state \<Rightarrow> 'r run \<Rightarrow> 'r run" where
  "enter_call tx ord st r =
     (let ts = timestamp (en_clock (fst r)) in
      case insert_state (o_order_id ord) st (send_new tx ord st ts (emit_here (accept_event ord) r)) of
        (e, out) \<Rightarrow>
          (if o_time_in_force ord = AtClose \<and> en_phase e \<noteq> ClosingCall
           then (e\<lparr>en_held_close := hm_insert (o_order_id ord) ord (en_held_close e)\<rparr>, out)
           else if o_order_type ord = Market
           then (e\<lparr>en_call_markets := hm_insert (o_order_id ord) ord (en_call_markets e)\<rparr>, out)
           else (case add_order ord (en_book e) of
                   (b, md) \<Rightarrow> send_md md ts (e\<lparr>en_book := b\<rparr>, out))))"

definition execute_order :: "'r \<Rightarrow> order \<Rightarrow> 'r order_state \<Rightarrow> 'r run \<Rightarrow> 'r run option" where
  "execute_order tx ord st r =
     (let ts = timestamp (en_clock (fst r));
          (e, out) = emit_here ((accept_event ord)\<lparr>d_cause := ''validated for matching''\<rparr>)
                       (insert_state (o_order_id ord) st r);
          exec = (if o_order_type ord \<in> {Stop, StopLimit} \<and> en_diagnostics e \<noteq> None
                  then execution_default\<lparr>ex_trigger_points :=
                         [(0, o_order_id ord, ''existing last trade price satisfies stop'')]\<rparr>
                  else execution_default)
      in do {
           (b, exec1, rested) \<leftarrow> execute_into ord (en_book e, exec);
           let e1 = e\<lparr>en_book := b\<rparr>;
           let (e2, out2) =
             (case (rested, map_of (en_states e1) (o_order_id ord)) of
                (True, Some st') \<Rightarrow> send_new tx ord st' ts (e1, out)
              | _ \<Rightarrow> (e1, out));
           (e3, exec2) \<leftarrow> run_cascade exec1 e2;
           Some (report_execution exec2 ts (e3, out2))
         })"

definition process_order :: "new_order_single \<Rightarrow> 'r \<Rightarrow> nat \<Rightarrow> 'r run \<Rightarrow> 'r run option" where
  "process_order order tx arrival = (\<lambda>(e, out).
     (let ts = timestamp (en_clock e);
          reject = (\<lambda>st reason. send_report tx (n_order_id order) (Some st)
                      ((report_event_new ExecRejected OrderRejected)\<lparr>ev_reject_reason := reason\<rparr>) ts (e, out))
      in case order_invalid e order of
           Some reason \<Rightarrow>
             Some (reject (order_state_new order (as_u32 (max (n_quantity order) 0)) tx arrival) reason)
         | None \<Rightarrow>
             (case (parse_order_enums order, parse_stp (n_stp_mode order) (en_stp_default e)) of
                (Inr (sd, ty, tif), Inr (mode, _)) \<Rightarrow>
                  (let ord = order_of_msg e order sd ty tif mode;
                       st = order_state_new order (o_quantity ord) tx arrival;
                       is_stop = ty \<in> {Stop, StopLimit};
                       fires_immediately =
                         (en_phase e = Continuous \<and>
                          (case en_last_trade_price e of None \<Rightarrow> False | Some p \<Rightarrow> stop_fires ord p))
                   in if is_stop \<and> o_stop_price ord = 0 then Some (reject st ''stop_price is required'')
                      else if is_stop \<and> \<not> fires_immediately then Some (park_stop tx ord st (e, out))
                      else if en_phase e \<noteq> Continuous \<or> tif = AtClose then Some (enter_call tx ord st (e, out))
                      else execute_order tx ord st (e, out))
              | _ \<Rightarrow> None)))"

section \<open>Preflight\<close>

text \<open>Checks of requests that need the phase, and requests on orders that wait for an auction.\<close>

definition preflight_cancel :: "'r cancel_msg \<Rightarrow> 'r run \<Rightarrow> 'r run option" where
  "preflight_cancel msg = (\<lambda>(e, out).
     do {
       state \<leftarrow> map_of (en_states e) (cm_order_id msg);
       if st_sender state \<noteq> cm_sender msg
       then Some (send_reject (cm_output_tx msg) (cm_order_id msg) (cm_client_cancel_id msg)
                    (reject_reason NotOwner) (timestamp (en_clock e)) (e, out))
       else
         do {
           (e1, _) \<leftarrow> remove_live (cm_order_id msg) e;
           st \<leftarrow> map_of (en_states e1) (cm_order_id msg);
           Some (send_report (cm_output_tx msg) (cm_order_id msg) (Some st)
                   ((report_event_new ExecCanceled OrderCanceled)
                      \<lparr>ev_client_order_id := Some (cm_client_cancel_id msg), ev_orig_order_id := cm_order_id msg\<rparr>)
                   (timestamp (en_clock e))
                   (e1\<lparr>en_states := hm_remove (cm_order_id msg) (en_states e1)\<rparr>, out))
         }
     })"

definition replace_type :: "'r engine \<Rightarrow> string \<Rightarrow> order_type" where
  "replace_type e oid =
     (if hm_contains (en_call_markets e) oid then Market
      else if stops_contains (en_stop_book e) oid then Stop else Limit)"

definition replace_entry_reason :: "'r engine \<Rightarrow> 'r cancel_replace_msg \<Rightarrow> string option" where
  "replace_entry_reason e msg =
     (if en_phase e = Closed then Some ''market closed''
      else
        (case map_of (en_states e) (cr_order_id msg) of
           None \<Rightarrow> Some (reject_reason UnknownOrder)
         | Some state \<Rightarrow>
             (if st_sender state \<noteq> cr_sender msg then Some (reject_reason UnknownOrder)
              else if hm_contains (en_held_close e) (cr_order_id msg)
                then Some ''replace of held AT_CLOSE order is not supported''
              else if cr_new_order_id msg \<noteq> cr_order_id msg \<and> hm_contains (en_states e) (cr_new_order_id msg)
                then Some (reject_reason DuplicateOrderId)
              else
                (case parse_replace_time_in_force (cr_new_time_in_force msg) of
                   Inl reason \<Rightarrow> Some reason
                 | Inr tif_opt \<Rightarrow>
                     (let tif = (case tif_opt of None \<Rightarrow> st_time_in_force state | Some t \<Rightarrow> t)
                      in or_else
                           (entry_reason (en_phase e) (auctions_enabled e) (replace_type e (cr_order_id msg)) tif)
                           (if tif = Gtd then validate_expiry (st_expire_date state) (en_clock e) else None))))))"

definition replace_rules_reason :: "'r engine \<Rightarrow> 'r cancel_replace_msg \<Rightarrow> string option" where
  "replace_rules_reason e msg =
     (let rules = en_symbol_rules e
      in if cr_new_quantity msg < 0 \<or> cr_new_price msg < 0 \<or> cr_new_stop_price msg < 0
         then Some ''negative replace fields are invalid''
         else
           or_else (if cr_new_quantity msg > 0 then validate_quantity rules (as_u32 (cr_new_quantity msg)) else None)
             (or_else (if cr_new_price msg > 0 then validate_price rules (cr_new_price msg) else None)
                (if cr_new_stop_price msg > 0 then validate_price rules (cr_new_stop_price msg) else None)))"

text \<open>Evaluated only when the entry reason found the order's state and a valid time in force.\<close>

definition replace_display_reason :: "'r engine \<Rightarrow> 'r cancel_replace_msg \<Rightarrow> 'r order_state \<Rightarrow> string option" where
  "replace_display_reason e msg state =
     (let display = (case cr_new_display_quantity msg of
                       None \<Rightarrow> as_i32 (st_display_quantity state) | Some d \<Rightarrow> d);
          tif_opt = (if cr_new_time_in_force msg = 0 then Some (st_time_in_force state)
                     else (case parse_replace_time_in_force (cr_new_time_in_force msg) of
                             Inl _ \<Rightarrow> None | Inr t \<Rightarrow> t))
      in case tif_opt of
           None \<Rightarrow> None
         | Some tif \<Rightarrow>
             (if st_display_quantity state > 0 \<and> tif \<notin> {Day, GTC, Gtd}
              then Some ''iceberg replacements require DAY/GTC/GTD; cancel and enter a new order to change to IOC/FOK/auction''
              else
                iceberg_reason display
                  (if cr_new_quantity msg = 0 \<and> cr_new_display_quantity msg = None
                   then max (st_order_qty state) (st_display_quantity state)
                   else if cr_new_quantity msg = 0 then st_order_qty state
                   else as_u32 (cr_new_quantity msg))
                  (replace_type e (cr_order_id msg)) tif (auctions_enabled e) (y_lot_size (en_symbol_rules e))))"

definition replace_call_market :: "'r cancel_replace_msg \<Rightarrow> 'r order_state \<Rightarrow> order \<Rightarrow> 'r run \<Rightarrow> 'r run option" where
  "replace_call_market msg state old = (\<lambda>(e, out).
     (if cr_new_quantity msg > 0 \<and> as_u32 (cr_new_quantity msg) \<le> st_cum_qty state
      then Some (replace_reject msg (reject_reason QuantityNotAboveFilled) (e, out))
      else
        (case parse_replace_time_in_force (cr_new_time_in_force msg) of
           Inl _ \<Rightarrow> None
         | Inr tif_opt \<Rightarrow>
             (let quantity = (if cr_new_quantity msg > 0
                              then sub_u32 (as_u32 (cr_new_quantity msg)) (st_cum_qty state) else o_quantity old);
                  replacement = old\<lparr>o_order_id := cr_new_order_id msg, o_quantity := quantity,
                    o_time_in_force := (case tif_opt of None \<Rightarrow> o_time_in_force old | Some t \<Rightarrow> t),
                    o_timestamp := as_millis (en_clock e), o_client_order_id := cr_client_replace_id msg\<rparr>;
                  state' = state\<lparr>st_order_qty := add_u32 (st_cum_qty state) quantity,
                    st_time_in_force := o_time_in_force replacement,
                    st_client_order_id := cr_client_replace_id msg, st_output_tx := cr_output_tx msg,
                    st_arrival := en_next_arrival e\<rparr>;
                  (e1, out1) = send_replace_reports msg state' (timestamp (en_clock e))
                     (e\<lparr>en_call_markets := hm_remove (cr_order_id msg) (en_call_markets e),
                        en_states := hm_remove (cr_order_id msg) (en_states e)\<rparr>, out);
                  e2 = e1\<lparr>en_states := hm_insert (cr_new_order_id msg) state' (en_states e1)\<rparr>
              in Some (if o_time_in_force replacement = AtClose \<and> en_phase e2 \<noteq> ClosingCall
                       then (e2\<lparr>en_held_close := hm_insert (cr_new_order_id msg) replacement (en_held_close e2)\<rparr>, out1)
                       else (e2\<lparr>en_call_markets := hm_insert (cr_new_order_id msg) replacement (en_call_markets e2)\<rparr>,
                             out1))))))"

text \<open>The first component tells whether the request is done.\<close>

definition preflight :: "'r symbol_msg \<Rightarrow> 'r run \<Rightarrow> (bool \<times> 'r run) option" where
  "preflight msg = (\<lambda>(e, out).
     (case msg of
        CancelMsg c \<Rightarrow>
          (if hm_contains (en_call_markets e) (cm_order_id c) \<or> hm_contains (en_held_close e) (cm_order_id c)
           then map_option (\<lambda>r. (True, r)) (preflight_cancel c (e, out))
           else Some (False, (e, out)))
      | CancelReplaceMsg c \<Rightarrow>
          (let state = map_of (en_states e) (cr_order_id c);
               reason = or_else (or_else (replace_entry_reason e c) (replace_rules_reason e c))
                          (case state of None \<Rightarrow> None | Some st \<Rightarrow> replace_display_reason e c st)
           in case reason of
                Some text \<Rightarrow> Some (True, replace_reject c text (e, out))
              | None \<Rightarrow>
                  (case map_of (en_call_markets e) (cr_order_id c) of
                     None \<Rightarrow> Some (False, (e, out))
                   | Some old \<Rightarrow>
                       do {
                         st \<leftarrow> state;
                         r \<leftarrow> replace_call_market c st old (e, out);
                         Some (True, r)
                       }))
      | OrderMsg _ _ \<Rightarrow> Some (False, (e, out))))"

section \<open>Requests\<close>

definition process :: "'r symbol_msg \<Rightarrow> 'r engine \<Rightarrow> 'r run option" where
  "process msg e =
     do {
       (e1, out1) \<leftarrow> tick e;
       let arrival = en_next_arrival e1 + 1;
       (done, r) \<leftarrow> preflight msg (e1\<lparr>en_next_arrival := arrival\<rparr>, out1);
       r' \<leftarrow> (if done then Some r
              else (case msg of
                      CancelMsg c \<Rightarrow> Some (process_cancel c r)
                    | CancelReplaceMsg c \<Rightarrow> process_replace c arrival r
                    | OrderMsg order tx \<Rightarrow> process_order order tx arrival r));
       publish_indicative (en_clock (fst r')) r'
     }"

definition new_order :: "new_order_single \<Rightarrow> 'r \<Rightarrow> 'r engine \<Rightarrow> 'r run option" where
  "new_order order owner e =
     map_option (\<lambda>(e', out).
         (remember_status out (bind_status_owner (n_order_id order) (n_sender order) out e'), out))
       (process (OrderMsg order owner) e)"

definition cancel :: "'r cancel_msg \<Rightarrow> 'r engine \<Rightarrow> 'r run option" where
  "cancel request e = map_option (\<lambda>(e', out). (remember_status out e', out)) (process (CancelMsg request) e)"

definition cancel_replace :: "'r cancel_replace_msg \<Rightarrow> 'r engine \<Rightarrow> 'r run option" where
  "cancel_replace request e =
     map_option (\<lambda>(e', out).
         (remember_status out (bind_status_owner (cr_new_order_id request) (cr_sender request) out e'), out))
       (process (CancelReplaceMsg request) e)"

fun mass_cancel_orders :: "string \<Rightarrow> time option \<Rightarrow> (nat \<times> string) list \<Rightarrow> 'r run \<Rightarrow> 'r run option" where
  "mass_cancel_orders reason ts [] r = Some r"
| "mass_cancel_orders reason ts ((_, oid) # rest) (e, out) =
     do {
       (e1, md) \<leftarrow> remove_live oid e;
       st \<leftarrow> map_of (en_states e1) oid;
       mass_cancel_orders reason ts rest
         (send_md_opt md ts
            (send_report (st_output_tx st) oid (Some st)
               ((report_event_new ExecCanceled OrderCanceled)\<lparr>ev_reject_reason := reason\<rparr>) ts
               (e1\<lparr>en_states := hm_remove oid (en_states e1)\<rparr>, out)))
     }"

definition mass_cancel :: "mass_cancel_msg \<Rightarrow> 'r engine \<Rightarrow> 'r run option" where
  "mass_cancel request e =
     do {
       (e1, out1) \<leftarrow> tick e;
       let targets = due_orders (\<lambda>_ s. st_sender s = mc_sender request \<and>
                                       (mc_side request = 0 \<or> st_side s = mc_side request)) e1;
       let reason = (if mc_reason request = 2 then ''cancel on disconnect'' else ''mass cancel'');
       (e2, out2) \<leftarrow> mass_cancel_orders reason (timestamp (en_clock e1)) targets (e1, out1);
       (e3, out3) \<leftarrow> publish_indicative (en_clock e2) (e2, out2 @ [MassCancelCount (length targets)]);
       Some (remember_status out3 e3, out3)
     }"

definition subscribe_engine :: "'r \<Rightarrow> 'r engine \<Rightarrow> 'r run option" where
  "subscribe_engine owner e =
     do {
       (e1, out1) \<leftarrow> tick e;
       let now = en_clock e1;
       publish_indicative now
         (e1\<lparr>en_last_indicative := None\<rparr>,
          out1 @ [Snapshot owner (snapshot (en_book e1) now),
                  TradingSessionStatus \<lparr>ss_symbol = en_symbol e1, ss_phase = phase_i32 (en_phase e1),
                                        ss_timestamp = timestamp now\<rparr>])
     }"

definition begin_opening_call :: "nat \<Rightarrow> 'r engine \<Rightarrow> 'r run option" where
  "begin_opening_call seconds e =
     do {
       (e1, out1) \<leftarrow> tick e;
       if seconds = 0 \<or> is_call (en_phase e1) then Some (e1, out1)
       else
         do {
           let now = en_clock e1;
           (e2, out2) \<leftarrow> publish_indicative now
                (set_phase OpeningCall now
                   (e1\<lparr>en_call_until := Some (Time (t_seconds now + int seconds) 0)\<rparr>, out1));
           Some (remember_status out2 e2, out2)
         }
     }"

end
