(* ===== verification/Fxp_Clearing.thy ===== *)
theory Fxp_Clearing
  imports Fxp_Auction
begin

text \<open>
  What the call auction guarantees: \<^const>\<open>uncross\<close> finds the price with the greatest volume among
  all prices, \<^const>\<open>allocate\<close> hands out exactly that volume in priority order on both sides, and
  neither depends on the order in which the orders are listed (the engine lists them from a hash map).
\<close>

section \<open>The clearing volume is the greatest there is\<close>

lemma demand_antimono: "p \<le> q \<Longrightarrow> demand_at xs q \<le> demand_at xs p"
  unfolding demand_at_def by (rule qty_where_mono) (auto simp: buys_at_def split: option.splits)

lemma supply_mono: "p \<le> q \<Longrightarrow> supply_at xs p \<le> supply_at xs q"
  unfolding supply_at_def by (rule qty_where_mono) (auto simp: sells_at_def split: option.splits)

text \<open>Between two limits nothing changes, so a limit price is at least as good as any price.\<close>

lemma volume_limit:
  assumes ne: "limits xs \<noteq> {}"
  shows "\<exists>u \<in> limits xs. volume_at xs p \<le> volume_at xs u"
proof (cases "{q \<in> limits xs. p \<le> q} = {}")
  case True
  let ?u = "Max (limits xs)"
  have u: "?u \<in> limits xs" "\<And>q. q \<in> limits xs \<Longrightarrow> q \<le> ?u" "?u < p"
    using ne True Max_in [OF finite_limits ne] by auto
  have "supply_at xs p = supply_at xs ?u"
    unfolding supply_at_def using u
    by (intro qty_where_cong) (force simp: sells_at_def limits_def split: option.splits)
  moreover have "demand_at xs p \<le> demand_at xs ?u" using u(3) by (simp add: demand_antimono)
  ultimately show ?thesis using u(1) by (auto simp: volume_at_def intro!: bexI [of _ ?u])
next
  case False
  let ?L = "{q \<in> limits xs. p \<le> q}" and ?u = "Min {q \<in> limits xs. p \<le> q}"
  have fin: "finite ?L" by simp
  have u: "?u \<in> limits xs" "p \<le> ?u" "\<And>q. q \<in> limits xs \<Longrightarrow> p \<le> q \<Longrightarrow> ?u \<le> q"
    using Min_in [OF fin False] by auto
  have "demand_at xs p = demand_at xs ?u"
    unfolding demand_at_def
  proof (rule qty_where_cong)
    fix x assume "x \<in> set xs"
    then have "l \<in> limits xs" if "a_limit_price x = Some l" for l using that by (auto simp: limits_def)
    with u show "buys_at p x = buys_at ?u x"
      by (auto simp: buys_at_def split: option.splits)
  qed
  moreover have "supply_at xs p \<le> supply_at xs ?u" using u(2) by (rule supply_mono)
  ultimately show ?thesis using u(1) by (auto simp: volume_at_def intro!: bexI [of _ ?u])
qed

lemma no_limits:
  assumes "limits xs = {}"
  shows "demand_at xs p = qty_where (\<lambda>x. a_side x = AuctionBuy) xs"
    and "supply_at xs p = qty_where (\<lambda>x. a_side x = AuctionSell) xs"
    and "qty_where (\<lambda>x. a_side x = AuctionSell \<and> a_limit_price x = None) xs = qty_where (\<lambda>x. a_side x = AuctionSell) xs"
proof -
  have none: "a_limit_price x = None" if "x \<in> set xs" for x
    using assms that by (cases "a_limit_price x") (auto simp: limits_def)
  show "demand_at xs p = qty_where (\<lambda>x. a_side x = AuctionBuy) xs"
    "supply_at xs p = qty_where (\<lambda>x. a_side x = AuctionSell) xs"
    "qty_where (\<lambda>x. a_side x = AuctionSell \<and> a_limit_price x = None) xs = qty_where (\<lambda>x. a_side x = AuctionSell) xs"
    unfolding demand_at_def supply_at_def
    by (rule qty_where_cong; simp add: none buys_at_def sells_at_def)+
qed

lemma uncross_market_only:
  assumes "limits xs = {}"
  shows "uncross xs ref = (case ref of
      Some p \<Rightarrow> if 0 < volume_at xs p then cand xs p else \<lparr>ar_price = 0, ar_volume = 0, ar_imbalance = imbalance_at xs 0\<rparr>
    | None \<Rightarrow> \<lparr>ar_price = 0, ar_volume = 0, ar_imbalance = imbalance_at xs 0\<rparr>)"
proof (rule uncross_parts [of xs])
  fix levels
  assume f: "foldl collect_order ([], 0, 0, 0) xs =
       (levels, qty_where (\<lambda>x. a_side x = AuctionBuy) xs,
        qty_where (\<lambda>x. a_side x = AuctionSell \<and> a_limit_price x = None) xs,
        qty_where (\<lambda>x. a_side x = AuctionSell) xs)"
    and lv: "levels = [] \<longleftrightarrow> limits xs = {}"
  from lv assms have "levels = []" by simp
  then show ?thesis
    unfolding uncross_def f
    by (cases ref) (simp_all add: Let_def no_limits [OF assms] cand_def volume_at_def imbalance_at_def)
qed

text \<open>When nothing crosses anywhere the result is zero with the net imbalance of all orders.\<close>

definition net_total :: "auction_order list \<Rightarrow> int" where
  "net_total xs = int (qty_where (\<lambda>x. a_side x = AuctionBuy) xs) - int (qty_where (\<lambda>x. a_side x = AuctionSell) xs)"

lemma uncross_cases:
  assumes "limits xs \<noteq> {} \<or> ref \<noteq> None"
  obtains (none) "\<And>p. volume_at xs p = 0"
      "uncross xs ref = \<lparr>ar_price = 0, ar_volume = 0, ar_imbalance = net_total xs\<rparr>"
    | (market) p where "limits xs = {}" "ref = Some p" "0 < volume_at xs p" "uncross xs ref = cand xs p"
        "\<And>q. volume_at xs q = volume_at xs p"
    | (limit) p where "limits xs \<noteq> {}" "0 < volume_at xs p" "uncross xs ref = cand xs p" "clears xs ref p"
        "\<And>q. volume_at xs q \<le> volume_at xs p"
proof (cases "limits xs = {}")
  case True
  with assms obtain p where r: "ref = Some p" by blast
  have same: "volume_at xs q = volume_at xs p" for q by (simp add: volume_at_def no_limits [OF True])
  have net: "imbalance_at xs 0 = net_total xs" by (simp add: imbalance_at_def net_total_def no_limits [OF True])
  show thesis
  proof (cases "0 < volume_at xs p")
    case pos: True
    then have "uncross xs ref = cand xs p" by (simp add: uncross_market_only [OF True] r)
    from market [OF True r pos this same] show thesis .
  next
    case False
    with same have "volume_at xs q = 0" for q by simp
    moreover have "uncross xs ref = \<lparr>ar_price = 0, ar_volume = 0, ar_imbalance = net_total xs\<rparr>"
      using False by (simp add: uncross_market_only [OF True] r net)
    ultimately show thesis by (rule none)
  qed
next
  case ne: False
  show thesis
  proof (cases "\<forall>p \<in> limits xs. volume_at xs p = 0")
    case True
    have "volume_at xs p = 0" for p using volume_limit [OF ne, of p] True by auto
    moreover have "uncross xs ref = \<lparr>ar_price = 0, ar_volume = 0, ar_imbalance = net_total xs\<rparr>"
      using True by (simp add: uncross_survivors [OF ne] net_total_def)
    ultimately show thesis by (rule none)
  next
    case False
    then obtain q where q: "q \<in> limits xs" "0 < volume_at xs q" by blast
    then obtain p where p: "uncross xs ref = cand xs p" "clears xs ref p" using uncross_clears [OF ne] by blast
    then have top: "\<forall>q \<in> limits xs. volume_at xs q \<le> volume_at xs p" by (simp add: clears_def)
    have "volume_at xs r \<le> volume_at xs p" for r using volume_limit [OF ne, of r] top by force
    with ne p q top show thesis by (intro limit [of p]) (auto intro: less_le_trans)
  qed
qed

text \<open>
  C16. The clearing result of a call auction. Provided some order has a limit or there is a
  reference price, \<^const>\<open>uncross\<close> returns the greatest volume that can trade at any price at all.
  When that is positive, the result carries the volume and imbalance of its price (\<^const>\<open>cand\<close>),
  and with limit orders this price has the least imbalance among the limits of greatest volume, then the least
  distance to the reference, then it is the highest price under buying pressure and the lowest
  otherwise. When nothing can trade, the price is zero and the imbalance is that of all orders.
\<close>

theorem uncross_optimal:
  assumes "limits xs \<noteq> {} \<or> ref \<noteq> None"
  shows "(\<forall>p. volume_at xs p \<le> ar_volume (uncross xs ref)) \<and>
    (if 0 < ar_volume (uncross xs ref) then
       uncross xs ref = cand xs (ar_price (uncross xs ref)) \<and>
       (if limits xs = {} then ref = Some (ar_price (uncross xs ref)) else clears xs ref (ar_price (uncross xs ref)))
     else uncross xs ref = \<lparr>ar_price = 0, ar_volume = 0, ar_imbalance = net_total xs\<rparr>)"
  using assms
proof (cases rule: uncross_cases)
  case none
  then show ?thesis by simp
next
  case (market p)
  have "volume_at xs q \<le> volume_at xs p" for q using market(5) [of q] by simp
  with market(1-4) show ?thesis by (simp add: cand_def)
next
  case (limit p)
  then show ?thesis by (simp add: cand_def)
qed

definition sample_auction :: "auction_order list" where
  "sample_auction =
     [\<lparr>a_id = ''B1'', a_side = AuctionBuy, a_limit_price = Some 110, a_quantity = 10, a_seq = 1\<rparr>,
      \<lparr>a_id = ''B2'', a_side = AuctionBuy, a_limit_price = Some 100, a_quantity = 10, a_seq = 2\<rparr>,
      \<lparr>a_id = ''S'', a_side = AuctionSell, a_limit_price = Some 90, a_quantity = 5, a_seq = 3\<rparr>]"

theorem uncross_optimal_witness:
  "limits sample_auction \<noteq> {} \<and> uncross sample_auction (Some 90) = \<lparr>ar_price = 110, ar_volume = 5, ar_imbalance = 5\<rparr> \<and>
   clears sample_auction (Some 90) 110 \<and> (\<forall>p. volume_at sample_auction p \<le> 5)"
proof -
  have l: "limits sample_auction \<noteq> {}" by (auto simp: limits_def sample_auction_def)
  have u: "uncross sample_auction (Some 90) = \<lparr>ar_price = 110, ar_volume = 5, ar_imbalance = 5\<rparr>" by code_simp
  show ?thesis using uncross_optimal [of sample_auction "Some 90"] l u by simp
qed

lemma uncross_volume: "ar_volume (uncross xs ref) \<le> volume_at xs (ar_price (uncross xs ref))"
proof (cases "limits xs \<noteq> {} \<or> ref \<noteq> None")
  case True
  then show ?thesis by (cases rule: uncross_cases) (simp_all add: cand_def)
next
  case False
  then show ?thesis by (simp add: uncross_market_only)
qed

section \<open>Handing out the volume\<close>

text \<open>
  A queue gives \<^term>\<open>c\<close> units away from the front: an order gets what is left after the orders ahead
  of it, up to its quantity. The allocation loop keeps a cursor into each queue.
\<close>

definition ahead_qty :: "auction_order list \<Rightarrow> nat \<Rightarrow> nat" where
  "ahead_qty qs i = sum_list (map a_quantity (take i qs))"

definition share :: "auction_order list \<Rightarrow> nat \<Rightarrow> nat \<Rightarrow> nat" where
  "share qs c i = min (a_quantity (qs ! i)) (c - ahead_qty qs i)"

definition at_cursor :: "auction_order list \<Rightarrow> nat \<Rightarrow> nat \<Rightarrow> nat \<Rightarrow> bool" where
  "at_cursor qs i used c \<longleftrightarrow>
     i \<le> length qs \<and> ahead_qty qs i + used = c \<and> (if i < length qs then used < a_quantity (qs ! i) else used = 0)"

definition fill_id :: "auction_side \<Rightarrow> auction_fill \<Rightarrow> string" where
  "fill_id sd f = (case sd of AuctionBuy \<Rightarrow> af_buy_id f | AuctionSell \<Rightarrow> af_sell_id f)"

definition filled :: "auction_side \<Rightarrow> auction_fill list \<Rightarrow> string \<Rightarrow> nat" where
  "filled sd fs oid = sum_list (map af_quantity (filter (\<lambda>f. fill_id sd f = oid) fs))"

definition good_queue :: "auction_order list \<Rightarrow> bool" where
  "good_queue qs \<longleftrightarrow> distinct (map a_id qs) \<and> (\<forall>x \<in> set qs. 0 < a_quantity x \<and> a_quantity x < 4294967296)"

definition side_ok :: "auction_side \<Rightarrow> auction_order list \<Rightarrow> auction_fill list \<Rightarrow> nat \<Rightarrow> nat \<Rightarrow> nat \<Rightarrow> bool" where
  "side_ok sd qs fs i used c \<longleftrightarrow>
     at_cursor qs i used c \<and> (\<forall>j < length qs. filled sd fs (a_id (qs ! j)) = share qs c j) \<and>
     (\<forall>f \<in> set fs. fill_id sd f \<in> a_id ` set qs)"

lemma ahead_qty_Suc: "i < length qs \<Longrightarrow> ahead_qty qs (Suc i) = ahead_qty qs i + a_quantity (qs ! i)"
  by (simp add: ahead_qty_def take_Suc_conv_app_nth)

lemma ahead_qty_mono: "i \<le> j \<Longrightarrow> ahead_qty qs i \<le> ahead_qty qs j"
proof -
  assume "i \<le> j"
  then have "take j qs = take i qs @ take (j - i) (drop i qs)" by (metis le_add_diff_inverse take_add)
  then show ?thesis by (simp add: ahead_qty_def)
qed

lemma ahead_qty_all: "ahead_qty qs (length qs) = sum_list (map a_quantity qs)"
  by (simp add: ahead_qty_def)

lemma cursor_step:
  assumes "at_cursor qs i used c" and "i < length qs" and "q \<le> a_quantity (qs ! i) - used" and "good_queue qs"
  shows "at_cursor qs (if used + q = a_quantity (qs ! i) then i + 1 else i)
    (if used + q = a_quantity (qs ! i) then 0 else used + q) (c + q)"
  using assms by (auto simp: at_cursor_def ahead_qty_Suc good_queue_def)

lemma share_step:
  assumes cur: "at_cursor qs i used c" and i: "i < length qs" and q: "q \<le> a_quantity (qs ! i) - used"
    and j: "j < length qs"
  shows "share qs (c + q) j = share qs c j + (if j = i then q else 0)"
proof -
  have c: "c = ahead_qty qs i + used" "used < a_quantity (qs ! i)" using cur i by (simp_all add: at_cursor_def)
  consider "j < i" | "j = i" | "i < j" by linarith
  then show ?thesis
  proof cases
    case 1
    then have "ahead_qty qs j + a_quantity (qs ! j) \<le> ahead_qty qs i"
      using ahead_qty_mono [of "Suc j" i qs] j by (simp add: ahead_qty_Suc)
    with 1 c show ?thesis by (simp add: share_def)
  next
    case 2
    with c q show ?thesis by (simp add: share_def)
  next
    case 3
    then have "ahead_qty qs i + a_quantity (qs ! i) \<le> ahead_qty qs j"
      using ahead_qty_mono [of "Suc i" j qs] i by (simp add: ahead_qty_Suc)
    with 3 c q show ?thesis by (simp add: share_def)
  qed
qed

lemma side_ok_start: "good_queue qs \<Longrightarrow> side_ok sd qs [] 0 0 0"
  by (cases qs) (auto simp: side_ok_def at_cursor_def ahead_qty_def filled_def share_def good_queue_def)

lemma side_ok_step:
  assumes ok: "side_ok sd qs fs i used c" and i: "i < length qs" and q: "q \<le> a_quantity (qs ! i) - used"
    and good: "good_queue qs" and f: "fill_id sd f = a_id (qs ! i)" "af_quantity f = q"
  shows "side_ok sd qs (fs @ [f]) (if used + q = a_quantity (qs ! i) then i + 1 else i)
    (if used + q = a_quantity (qs ! i) then 0 else used + q) (c + q)"
proof -
  have cur: "at_cursor qs i used c" using ok by (simp add: side_ok_def)
  have same: "a_id (qs ! i) = a_id (qs ! j) \<longleftrightarrow> j = i" if "j < length qs" for j
    using good that i by (auto simp: good_queue_def distinct_conv_nth)
  have "filled sd (fs @ [f]) (a_id (qs ! j)) = share qs (c + q) j" if j: "j < length qs" for j
  proof -
    have "filled sd (fs @ [f]) (a_id (qs ! j)) = filled sd fs (a_id (qs ! j)) + (if j = i then q else 0)"
      using same [OF j] f by (simp add: filled_def)
    with ok j share_step [OF cur i q j] show ?thesis by (simp add: side_ok_def)
  qed
  moreover have "fill_id sd g \<in> a_id ` set qs" if "g \<in> set (fs @ [f])" for g
    using that ok f(1) i by (auto simp: side_ok_def)
  ultimately show ?thesis using cursor_step [OF cur i q good] by (simp add: side_ok_def)
qed

section \<open>The allocation loop\<close>

definition alloc_inv ::
  "int \<Rightarrow> auction_order list \<Rightarrow> auction_order list \<Rightarrow> nat \<Rightarrow> allocation \<Rightarrow> bool" where
  "alloc_inv price buys sells vol st \<longleftrightarrow>
     al_remaining st \<le> vol \<and>
     side_ok AuctionBuy buys (al_fills st) (al_b st) (al_buy_used st) (vol - al_remaining st) \<and>
     side_ok AuctionSell sells (al_fills st) (al_s st) (al_sell_used st) (vol - al_remaining st) \<and>
     sum_list (map af_quantity (al_fills st)) = vol - al_remaining st \<and>
     (\<forall>f \<in> set (al_fills st). 0 < af_quantity f \<and> af_price f = price)"

lemma allocate_step_ok:
  assumes good: "good_queue buys" "good_queue sells"
    and inv: "alloc_inv price buys sells vol st"
    and guard: "al_remaining st > 0 \<and> al_b st < length buys \<and> al_s st < length sells"
  shows "\<exists>t. allocate_step price buys sells st = Some t \<and> alloc_inv price buys sells vol t \<and>
    al_remaining t < al_remaining st"
proof -
  let ?bq = "a_quantity (buys ! al_b st)" and ?sq = "a_quantity (sells ! al_s st)"
  define q where "q = min (min (?bq - al_buy_used st) (?sq - al_sell_used st)) (al_remaining st)"
  define f where "f = \<lparr>af_buy_id = a_id (buys ! al_b st), af_sell_id = a_id (sells ! al_s st),
      af_quantity = q, af_price = price\<rparr>"
  have b: "side_ok AuctionBuy buys (al_fills st) (al_b st) (al_buy_used st) (vol - al_remaining st)"
    and s: "side_ok AuctionSell sells (al_fills st) (al_s st) (al_sell_used st) (vol - al_remaining st)"
    and le: "al_remaining st \<le> vol"
    using inv by (simp_all add: alloc_inv_def)
  have used: "al_buy_used st < ?bq" "al_sell_used st < ?sq"
    using b s guard by (simp_all add: side_ok_def at_cursor_def)
  have small: "?bq < 4294967296" "?sq < 4294967296" using good guard by (simp_all add: good_queue_def)
  have q: "0 < q" "q \<le> ?bq - al_buy_used st" "q \<le> ?sq - al_sell_used st" "q \<le> al_remaining st"
    using used guard by (simp_all add: q_def)
  have arith: "sub_u32 ?bq (al_buy_used st) = ?bq - al_buy_used st" "sub_u32 ?sq (al_sell_used st) = ?sq - al_sell_used st"
    "add_u32 (al_buy_used st) q = al_buy_used st + q" "add_u32 (al_sell_used st) q = al_sell_used st + q"
    using used small q by simp_all
  define t where "t = \<lparr>al_b = if al_buy_used st + q = ?bq then al_b st + 1 else al_b st,
      al_s = if al_sell_used st + q = ?sq then al_s st + 1 else al_s st,
      al_buy_used = if al_buy_used st + q = ?bq then 0 else al_buy_used st + q,
      al_sell_used = if al_sell_used st + q = ?sq then 0 else al_sell_used st + q,
      al_remaining = al_remaining st - q, al_fills = al_fills st @ [f]\<rparr>"
  have step: "allocate_step price buys sells st = Some t"
    unfolding allocate_step_def arith Let_def q_def [symmetric]
    by (simp add: arith t_def f_def)
  have c: "vol - (al_remaining st - q) = vol - al_remaining st + q" using le q(4) by simp
  have "side_ok AuctionBuy buys (al_fills t) (al_b t) (al_buy_used t) (vol - al_remaining t)"
    using side_ok_step [OF b _ q(2) good(1), of f] guard by (simp add: t_def c f_def fill_id_def)
  moreover have "side_ok AuctionSell sells (al_fills t) (al_s t) (al_sell_used t) (vol - al_remaining t)"
    using side_ok_step [OF s _ q(3) good(2), of f] guard by (simp add: t_def c f_def fill_id_def)
  moreover have "sum_list (map af_quantity (al_fills t)) = vol - al_remaining t"
    using inv by (simp add: alloc_inv_def t_def f_def c)
  moreover have "\<forall>f \<in> set (al_fills t). 0 < af_quantity f \<and> af_price f = price"
    using inv q(1) by (auto simp: alloc_inv_def t_def f_def)
  moreover have "al_remaining t < al_remaining st" "al_remaining t \<le> vol" using q guard le by (simp_all add: t_def)
  ultimately show ?thesis using step unfolding alloc_inv_def by blast
qed

interpretation alloc_loop: total_loop
  "\<lambda>st. al_remaining st > 0 \<and> al_b st < length buys \<and> al_s st < length sells" "allocate_step price buys sells"
  "\<lambda>st. good_queue buys \<and> good_queue sells \<and> alloc_inv price buys sells vol st" al_remaining for price buys sells vol
  using allocate_step_ok by unfold_locales blast

lemma auction_queue_good:
  assumes "distinct (map a_id xs)" and "\<forall>x \<in> set xs. a_quantity x < 4294967296"
  shows "good_queue (auction_queue xs p sd)"
proof -
  have "mset (map a_id (auction_queue xs p sd)) = mset (map a_id (filter (eligible sd p) xs))"
    by (simp add: auction_queue_def)
  then have "distinct (map a_id (auction_queue xs p sd))"
    using distinct_map_filter [OF assms(1), of "eligible sd p"] by (metis mset_eq_imp_distinct_iff)
  with assms(2) show ?thesis by (auto simp: good_queue_def auction_queue_def eligible_def)
qed

lemma auction_queue_qty:
  "sum_list (map a_quantity (auction_queue xs p AuctionBuy)) = demand_at xs p"
  "sum_list (map a_quantity (auction_queue xs p AuctionSell)) = supply_at xs p"
proof -
  have q: "sum_list (map a_quantity (auction_queue xs p sd)) = qty_where (eligible sd p) xs" for sd
  proof -
    have "sum_mset (mset (map a_quantity (auction_queue xs p sd))) =
        sum_mset (mset (map a_quantity (filter (eligible sd p) xs)))"
      by (simp add: auction_queue_def)
    then show ?thesis by (simp only: sum_mset_sum_list qty_where_def)
  qed
  have "qty_where (eligible AuctionBuy p) xs = demand_at xs p"
    unfolding demand_at_def by (induction xs) (auto simp: qty_where_Cons eligible_def buys_at_def split: option.splits)
  then show "sum_list (map a_quantity (auction_queue xs p AuctionBuy)) = demand_at xs p" by (simp add: q)
  have "qty_where (eligible AuctionSell p) xs = supply_at xs p"
    unfolding supply_at_def by (induction xs) (auto simp: qty_where_Cons eligible_def sells_at_def split: option.splits)
  then show "sum_list (map a_quantity (auction_queue xs p AuctionSell)) = supply_at xs p" by (simp add: q)
qed

lemma allocate_ok:
  assumes ids: "distinct (map a_id xs)" and small: "\<forall>x \<in> set xs. a_quantity x < 4294967296"
    and vol: "ar_volume r \<le> volume_at xs (ar_price r)"
  shows "\<exists>fs. allocate xs r = Some fs \<and> sum_list (map af_quantity fs) = ar_volume r \<and>
    (\<forall>f \<in> set fs. 0 < af_quantity f \<and> af_price f = ar_price r) \<and>
    (\<forall>sd. (\<forall>f \<in> set fs. fill_id sd f \<in> a_id ` set (auction_queue xs (ar_price r) sd)) \<and>
       (\<forall>i < length (auction_queue xs (ar_price r) sd).
          filled sd fs (a_id (auction_queue xs (ar_price r) sd ! i)) =
          share (auction_queue xs (ar_price r) sd) (ar_volume r) i))"
proof -
  let ?p = "ar_price r" and ?v = "ar_volume r"
  let ?B = "auction_queue xs ?p AuctionBuy" and ?S = "auction_queue xs ?p AuctionSell"
  define s0 where "s0 = \<lparr>al_b = 0, al_s = 0, al_buy_used = 0, al_sell_used = 0, al_remaining = ?v, al_fills = []\<rparr>"
  note good = auction_queue_good [OF ids small, of ?p]
  have "alloc_inv ?p ?B ?S ?v s0" by (simp add: alloc_inv_def s0_def side_ok_start good)
  with good alloc_loop.returns [of ?B ?S ?p ?v s0] obtain t where
    t: "loop_while (\<lambda>st. al_remaining st > 0 \<and> al_b st < length ?B \<and> al_s st < length ?S)
        (allocate_step ?p ?B ?S) s0 = Some t"
    and inv: "alloc_inv ?p ?B ?S ?v t"
    and fin: "\<not> (al_remaining t > 0 \<and> al_b t < length ?B \<and> al_s t < length ?S)"
    by blast
  from inv have b: "side_ok AuctionBuy ?B (al_fills t) (al_b t) (al_buy_used t) (?v - al_remaining t)"
    and s: "side_ok AuctionSell ?S (al_fills t) (al_s t) (al_sell_used t) (?v - al_remaining t)"
    by (simp_all add: alloc_inv_def)
  have "al_remaining t = 0"
  proof (rule ccontr)
    assume pos: "al_remaining t \<noteq> 0"
    with fin consider "length ?B \<le> al_b t" | "length ?S \<le> al_s t" by linarith
    then have "volume_at xs ?p \<le> ?v - al_remaining t"
    proof cases
      case 1
      with b have "al_b t = length ?B" "ahead_qty ?B (al_b t) \<le> ?v - al_remaining t" by (auto simp: side_ok_def at_cursor_def)
      then show ?thesis by (simp add: ahead_qty_all auction_queue_qty volume_at_def)
    next
      case 2
      with s have "al_s t = length ?S" "ahead_qty ?S (al_s t) \<le> ?v - al_remaining t" by (auto simp: side_ok_def at_cursor_def)
      then show ?thesis by (simp add: ahead_qty_all auction_queue_qty volume_at_def)
    qed
    moreover have "al_remaining t \<le> ?v" using inv by (simp add: alloc_inv_def)
    ultimately show False using vol pos by linarith
  qed
  note out = this
  have "\<forall>sd. (\<forall>f \<in> set (al_fills t). fill_id sd f \<in> a_id ` set (auction_queue xs ?p sd)) \<and>
      (\<forall>i < length (auction_queue xs ?p sd).
         filled sd (al_fills t) (a_id (auction_queue xs ?p sd ! i)) = share (auction_queue xs ?p sd) ?v i)"
  proof
    fix sd
    show "(\<forall>f \<in> set (al_fills t). fill_id sd f \<in> a_id ` set (auction_queue xs ?p sd)) \<and>
      (\<forall>i < length (auction_queue xs ?p sd).
         filled sd (al_fills t) (a_id (auction_queue xs ?p sd ! i)) = share (auction_queue xs ?p sd) ?v i)"
      using b s out by (cases sd) (simp_all add: side_ok_def)
  qed
  moreover have "allocate xs r = Some (al_fills t)" using t by (simp add: allocate_def Let_def s0_def)
  ultimately show ?thesis using inv out by (simp add: alloc_inv_def)
qed

section \<open>The order of the orders does not matter\<close>

lemma qty_where_perm: "mset xs = mset ys \<Longrightarrow> qty_where P xs = qty_where P ys"
  unfolding qty_where_def by (metis mset_filter mset_map sum_mset_sum_list)

lemma limits_perm: "mset xs = mset ys \<Longrightarrow> limits xs = limits ys"
  unfolding limits_def by (metis mset_eq_setD)

lemma auction_perm:
  assumes "mset xs = mset ys"
  shows "demand_at xs = demand_at ys" and "supply_at xs = supply_at ys" and "volume_at xs = volume_at ys"
    and "imbalance_at xs = imbalance_at ys" and "cand xs = cand ys" and "net_total xs = net_total ys"
    and "survivors xs ref = survivors ys ref"
  using qty_where_perm [OF assms] limits_perm [OF assms]
  by (auto simp: fun_eq_iff demand_at_def supply_at_def volume_at_def imbalance_at_def cand_def net_total_def
      survivors_def fullest_def)

lemma uncross_perm:
  assumes "mset xs = mset ys"
  shows "uncross xs ref = uncross ys ref"
proof (cases "limits xs = {}")
  case True
  with limits_perm [OF assms] have "limits ys = {}" by simp
  with True show ?thesis by (cases ref) (simp_all add: uncross_market_only auction_perm [OF assms])
next
  case False
  with limits_perm [OF assms] have "limits ys \<noteq> {}" by simp
  with False show ?thesis
    by (simp add: uncross_survivors auction_perm [OF assms] qty_where_perm [OF assms] limits_perm [OF assms])
qed

lemma sort_key_perm:
  assumes "mset xs = mset ys" and "inj_on f (set xs)"
  shows "sort_key f xs = sort_key f ys"
proof (rule properties_for_sort_key)
  show "mset (sort_key f ys) = mset xs" using assms(1) by simp
  show "sorted (map f (sort_key f ys))" by simp
  fix k assume "k \<in> set (sort_key f ys)"
  then have k: "k \<in> set xs" using mset_eq_setD [OF assms(1)] by simp
  have only: "filter (\<lambda>x. f k = f x) zs = replicate (count (mset zs) k) k" if "set zs \<subseteq> set xs" for zs
    using that
  proof (induction zs)
    case (Cons z zs)
    then have "f k = f z \<longleftrightarrow> k = z" using k assms(2) by (auto simp: inj_on_def)
    with Cons show ?case by (cases "k = z") simp_all
  qed simp
  have "filter (\<lambda>x. f k = f x) (sort_key f ys) = filter (\<lambda>x. f k = f x) ys"
    using sort_key_stable [of f "f k" ys] by (simp add: eq_commute)
  then show "filter (\<lambda>x. f k = f x) (sort_key f ys) = filter (\<lambda>x. f k = f x) xs"
    using only [of xs] only [of ys] assms(1) mset_eq_setD [OF assms(1)] by simp
qed

lemma auction_queue_perm:
  assumes perm: "mset xs = mset ys" and ids: "distinct (map a_id xs)"
  shows "auction_queue xs p sd = auction_queue ys p sd"
  unfolding auction_queue_def
proof (rule sort_key_perm)
  show "mset (filter (eligible sd p) xs) = mset (filter (eligible sd p) ys)" using perm by simp
  show "inj_on (auction_key sd) (set (filter (eligible sd p) xs))"
    using ids by (auto simp: inj_on_def auction_key_def distinct_map)
qed

section \<open>Properties\<close>



text \<open>
  C18. The engine lists the orders of an auction from hash maps, whose order is arbitrary. The
  result does not depend on it: for orders with distinct identifiers, any two listings of the
  same orders clear at the same result and are allocated by the same fills.
\<close>

theorem auction_order_independent:
  assumes "mset xs = mset ys" and "distinct (map a_id xs)"
  shows "uncross xs ref = uncross ys ref \<and> allocate xs r = allocate ys r"
  using uncross_perm [OF assms(1)] auction_queue_perm [OF assms] by (simp add: allocate_def)

theorem auction_order_independent_witness:
  "rev sample_auction \<noteq> sample_auction \<and>
   uncross (rev sample_auction) (Some 90) = \<lparr>ar_price = 110, ar_volume = 5, ar_imbalance = 5\<rparr> \<and>
   allocate (rev sample_auction) (uncross sample_auction (Some 90)) =
     allocate sample_auction (uncross sample_auction (Some 90))"
proof -
  have m: "mset sample_auction = mset (rev sample_auction)" by simp
  have d: "distinct (map a_id sample_auction)" by (simp add: sample_auction_def)
  have "rev sample_auction \<noteq> sample_auction" by (simp add: sample_auction_def)
  moreover have "uncross sample_auction (Some 90) = \<lparr>ar_price = 110, ar_volume = 5, ar_imbalance = 5\<rparr>" by code_simp
  ultimately show ?thesis using auction_order_independent [OF m d, of "Some 90"] by simp
qed

section \<open>What the auction leaves behind\<close>

lemma qty_where_less:
  assumes "\<And>x. P x \<Longrightarrow> R x" and "y \<in> set xs" and "R y" and "\<not> P y"
  shows "qty_where P xs + a_quantity y \<le> qty_where R xs"
  using assms(2)
proof (induction xs)
  case (Cons z zs)
  show ?case
  proof (cases "z = y")
    case True
    then show ?thesis using qty_where_mono [of zs P R] assms by (simp add: qty_where_def)
  next
    case False
    then have "qty_where P zs + a_quantity y \<le> qty_where R zs" using Cons by simp
    then show ?thesis using assms(1) [of z] by (auto simp: qty_where_def)
  qed
qed simp

lemma eligible_worth:
  "demand_at xs p = qty_where (eligible AuctionBuy p) xs" "supply_at xs p = qty_where (eligible AuctionSell p) xs"
proof -
  have z: "qty_where P xs = qty_where (\<lambda>x. P x \<and> 0 < a_quantity x) xs" for P
    by (induction xs) (auto simp: qty_where_def)
  have "eligible AuctionBuy p = (\<lambda>x. buys_at p x \<and> 0 < a_quantity x)" "eligible AuctionSell p = (\<lambda>x. sells_at p x \<and> 0 < a_quantity x)"
    by (auto simp: fun_eq_iff eligible_def buys_at_def sells_at_def split: option.splits)
  with z [of "buys_at p"] z [of "sells_at p"]
  show "demand_at xs p = qty_where (eligible AuctionBuy p) xs" "supply_at xs p = qty_where (eligible AuctionSell p) xs"
    by (simp_all add: demand_at_def supply_at_def)
qed

text \<open>An order with an unfilled rest wants more at its own limit than the auction trades.\<close>

lemma unfilled_worth:
  assumes ids: "distinct (map a_id xs)" and small: "\<forall>x \<in> set xs. a_quantity x < 4294967296" and r: "r = uncross xs ref"
    and fs: "allocate xs r = Some fs" and x: "x \<in> set xs" "a_side x = sd" "a_limit_price x = Some l"
    and left: "filled sd fs (a_id x) < a_quantity x"
  shows "ar_volume r < qty_where (eligible sd l) xs"
proof -
  let ?p = "ar_price r" and ?v = "ar_volume r"
  have vol: "?v \<le> volume_at xs ?p" unfolding r by (rule uncross_volume)
  have vp: "?v \<le> qty_where (eligible sd ?p) xs"
    using vol by (cases sd) (simp_all add: volume_at_def flip: eligible_worth)
  have el: "eligible sd l x" using x left by (cases sd) (simp_all add: eligible_def)
  show ?thesis
  proof (cases "eligible sd ?p x")
    case False
    have "eligible sd l z" if "eligible sd ?p z" for z
      using that False x left by (cases sd) (auto simp: eligible_def split: option.splits)
    from qty_where_less [of "eligible sd ?p" "eligible sd l", OF this x(1) el False] vp left show ?thesis by simp
  next
    case True
    let ?q = "auction_queue xs ?p sd"
    have "x \<in> set ?q" using True x(1) by (simp add: auction_queue_def)
    then obtain i where i: "i < length ?q" "?q ! i = x" by (auto simp: in_set_conv_nth)
    have "filled sd fs (a_id x) = share ?q ?v i"
      using allocate_ok [OF ids small vol] fs i by auto
    with left i have "?v < ahead_qty ?q (Suc i)" by (simp add: share_def ahead_qty_Suc)
    moreover have "eligible sd l z" if "z \<in> set (take (Suc i) ?q)" for z
    proof -
      have "sorted (map (auction_key sd) ?q)" by (simp add: auction_queue_def)
      moreover from that obtain j where j: "j \<le> i" "z = ?q ! j" using i(1) by (auto simp: in_set_conv_nth less_Suc_eq_le)
      ultimately have "auction_key sd z \<le> auction_key sd x"
        using i sorted_nth_mono [of "map (auction_key sd) ?q" j i] by simp
      moreover have "eligible sd ?p z"
        using that by (auto simp: auction_queue_def dest!: in_set_takeD)
      ultimately show ?thesis
        using x by (cases sd) (auto simp: auction_key_def eligible_def less_eq_prod_def split: option.splits)
    qed
    then have "filter (eligible sd l) (take (Suc i) ?q) = take (Suc i) ?q" by (simp add: filter_id_conv)
    then have "ahead_qty ?q (Suc i) \<le> sum_list (map a_quantity (filter (eligible sd l) (take (Suc i) ?q @ drop (Suc i) ?q)))"
      unfolding filter_append by (simp add: ahead_qty_def)
    moreover have "sum_list (map a_quantity (filter (eligible sd l) ?q)) = qty_where (\<lambda>z. eligible sd ?p z \<and> eligible sd l z) xs"
    proof -
      have "mset (map a_quantity (filter (eligible sd l) ?q)) = mset (map a_quantity (filter (\<lambda>z. eligible sd ?p z \<and> eligible sd l z) xs))"
        by (simp add: auction_queue_def filter_filter_mset conj_commute)
      then show ?thesis unfolding qty_where_def by (metis sum_mset_sum_list)
    qed
    moreover have "qty_where (\<lambda>z. eligible sd ?p z \<and> eligible sd l z) xs \<le> qty_where (eligible sd l) xs"
      by (rule qty_where_mono) simp
    ultimately show ?thesis by simp
  qed
qed

lemma remainders_apart:
  assumes "distinct (map a_id xs)" and "\<forall>x \<in> set xs. a_quantity x < 4294967296"
    and "allocate xs (uncross xs ref) = Some fs" and "x \<in> set xs" and "y \<in> set xs"
    and "a_side x = AuctionBuy" and "a_side y = AuctionSell" and "a_limit_price x = Some lx" and "a_limit_price y = Some ly"
    and "filled AuctionBuy fs (a_id x) < a_quantity x" and "filled AuctionSell fs (a_id y) < a_quantity y"
  shows "lx < ly"
proof (rule ccontr)
  let ?r = "uncross xs ref"
  assume "\<not> lx < ly"
  then have "demand_at xs lx \<le> demand_at xs ly" by (intro demand_antimono) simp
  moreover have "ar_volume ?r < demand_at xs lx" "ar_volume ?r < supply_at xs ly"
    unfolding eligible_worth
    by (rule unfilled_worth [OF assms(1,2) refl assms(3,4,6,8,10)], rule unfilled_worth [OF assms(1,2) refl assms(3,5,7,9,11)])
  ultimately have more: "ar_volume ?r < volume_at xs ly" by (simp add: volume_at_def)
  have lim: "limits xs \<noteq> {}" using assms(4,8) by (auto simp: limits_def)
  then have ne: "limits xs \<noteq> {} \<or> ref \<noteq> None" ..
  from ne have "volume_at xs ly \<le> ar_volume ?r"
  proof (cases rule: uncross_cases)
    case (market p)
    with lim show ?thesis by simp
  next
    case (limit p)
    then show ?thesis by (simp add: cand_def)
  qed simp
  with more show False by simp
qed

text \<open>
  C27. A call auction uncrosses: after the allocation at the clearing price, every buy order with an unfilled rest has a limit below
  the limit of every sell order with an unfilled rest.
\<close>

theorem auction_uncrosses:
  assumes "distinct (map a_id xs)" and "\<forall>x \<in> set xs. a_quantity x < 4294967296"
  shows "\<exists>fs. allocate xs (uncross xs ref) = Some fs \<and>
    (\<forall>x \<in> set xs. \<forall>y \<in> set xs. \<forall>lx ly. a_side x = AuctionBuy \<and> a_side y = AuctionSell \<and>
       a_limit_price x = Some lx \<and> a_limit_price y = Some ly \<and>
       filled AuctionBuy fs (a_id x) < a_quantity x \<and> filled AuctionSell fs (a_id y) < a_quantity y \<longrightarrow> lx < ly)"
proof -
  obtain fs where fs: "allocate xs (uncross xs ref) = Some fs"
    using allocate_ok [OF assms uncross_volume, of ref] by blast
  show ?thesis
    using fs remainders_apart [OF assms fs] by (intro exI [of _ fs]) blast
qed

definition sample_apart :: "auction_order list" where
  "sample_apart =
     [\<lparr>a_id = ''B'', a_side = AuctionBuy, a_limit_price = Some 100, a_quantity = 10, a_seq = 1\<rparr>,
      \<lparr>a_id = ''S'', a_side = AuctionSell, a_limit_price = Some 120, a_quantity = 5, a_seq = 2\<rparr>]"

theorem auction_uncrosses_witness:
  "\<exists>fs. allocate sample_apart (uncross sample_apart None) = Some fs \<and> filled AuctionBuy fs ''B'' < 10 \<and>
     filled AuctionSell fs ''S'' < 5 \<and> (100::int) < 120"
proof -
  have ids: "distinct (map a_id sample_apart)" "\<forall>x \<in> set sample_apart. a_quantity x < 4294967296"
    by (simp_all add: sample_apart_def)
  have "uncross sample_apart None = \<lparr>ar_price = 0, ar_volume = 0, ar_imbalance = 5\<rparr>" by code_simp
  then obtain fs where fs: "allocate sample_apart (uncross sample_apart None) = Some fs" "sum_list (map af_quantity fs) = 0"
    "\<forall>f \<in> set fs. 0 < af_quantity f"
    using allocate_ok [OF ids uncross_volume, of None] by auto
  then have "fs = []" by (cases fs) auto
  with fs(1) auction_uncrosses [OF ids, of None] show ?thesis by (auto simp: filled_def sample_apart_def)
qed

end
