(* ===== verification/Fxp_Schedule.thy ===== *)
theory Fxp_Schedule
  imports Fxp_Session
begin

text \<open>
  Correctness of the session schedule and of expiry dates: the text form of a schedule round
  trips, the next boundary agrees with the phases of the day, and the expiry instant of a date is
  computed by the Gregorian calendar.
\<close>

section \<open>Schedules that a parser can return\<close>

definition td_ok :: "utc_time_of_day \<Rightarrow> bool" where
  "td_ok t \<longleftrightarrow> td_seconds t < 86400"

definition schedule_ok :: "session_schedule \<Rightarrow> bool" where
  "schedule_ok s \<longleftrightarrow> td_ok (sc_close s) \<and>
     (case (sc_open_call s, sc_open s, sc_close_call s) of
        (None, None, None) \<Rightarrow> True
      | (Some a, Some b, Some c) \<Rightarrow>
          td_seconds a < td_seconds b \<and> td_seconds b < td_seconds c \<and> td_seconds c < td_seconds (sc_close s)
      | _ \<Rightarrow> False)"

lemma utc_time_from_str_ok: "utc_time_from_str v = Inr t \<Longrightarrow> td_ok t"
  by (auto simp: utc_time_from_str_def td_ok_def Let_def split: if_splits)

lemma colon_split:
  assumes "list_all is_digit a" "list_all is_digit b" "list_all is_digit c"
  shows "str_split (CHR '':'') (a @ '':'' @ b @ '':'' @ c) = [a, b, c]"
proof -
  have "\<not> is_digit (CHR '':'')" by (simp add: is_digit_def)
  then have "CHR '':'' \<notin> set a" "CHR '':'' \<notin> set b" "CHR '':'' \<notin> set c"
    using assms digits_no_char by blast+
  then show ?thesis by (simp add: str_split_append str_split_plain)
qed

lemma utc_time_round_trip: "td_ok t \<Longrightarrow> utc_time_from_str (utc_time_to_string t) = Inr t"
proof -
  assume "td_ok t"
  then have "td_seconds t div 3600 < 24" by (simp add: td_ok_def div_less_iff_less_mult)
  then have lt: "td_seconds t div 3600 < 24" "td_seconds t div 60 mod 60 < 60" "td_seconds t mod 60 < 60" by simp_all
  have le: "td_seconds t div 3600 \<le> 23" "td_seconds t div 60 mod 60 \<le> 59" "td_seconds t mod 60 \<le> 59"
    using lt by linarith+
  have sum: "td_seconds t div 3600 * 3600 + td_seconds t div 60 mod 60 * 60 + td_seconds t mod 60 = td_seconds t"
  proof -
    have "td_seconds t div 3600 = td_seconds t div 60 div 60" by (simp add: div_mult2_eq [symmetric])
    then have "td_seconds t div 3600 * 60 + td_seconds t div 60 mod 60 = td_seconds t div 60" by simp
    then have "(td_seconds t div 3600 * 60 + td_seconds t div 60 mod 60) * 60 + td_seconds t mod 60 = td_seconds t" by simp
    then show ?thesis by (simp only: add_mult_distrib mult.assoc)
  qed
  have parts: "str_split (CHR '':'') (utc_time_to_string t) =
      [show_pad2 (td_seconds t div 3600), show_pad2 (td_seconds t div 60 mod 60), show_pad2 (td_seconds t mod 60)]"
    unfolding utc_time_to_string_def by (rule colon_split) (rule show_pad2_digits)+
  show ?thesis
    unfolding utc_time_from_str_def parts Let_def
    using lt le sum by (simp add: not_less show_pad2_digits show_pad2_length show_pad2_val)
qed

lemma utc_time_chars: "c \<in> set (utc_time_to_string t) \<Longrightarrow> is_digit c \<or> c = CHR '':''"
  using show_pad2_digits by (auto simp: utc_time_to_string_def list_all_iff)

lemma utc_time_no_comma: "CHR '','' \<notin> set (utc_time_to_string t)"
  using utc_time_chars [of "CHR '',''" t] by (auto simp: is_digit_def)

lemma entry_close: "schedule_entry (''close='' @ utc_time_to_string t) (None, a, b, c) = Inr (Some t, a, b, c)"
  and entry_open_call: "schedule_entry (''open_call='' @ utc_time_to_string t) (e, None, b, c) = Inr (e, Some t, b, c)"
  and entry_open: "schedule_entry (''open='' @ utc_time_to_string t) (e, a, None, c) = Inr (e, a, Some t, c)"
  and entry_close_call: "schedule_entry (''close_call='' @ utc_time_to_string t) (e, a, b, None) = Inr (e, a, b, Some t)"
  if "td_ok t"
  using utc_time_round_trip [OF that] by (simp_all add: schedule_entry_def)

lemma schedule_split:
  "str_split (CHR '','') (k1 @ utc_time_to_string a @ '','' @ k2 @ utc_time_to_string b @ '','' @
     k3 @ utc_time_to_string c @ '','' @ k4 @ utc_time_to_string d) =
   [k1 @ utc_time_to_string a, k2 @ utc_time_to_string b, k3 @ utc_time_to_string c, k4 @ utc_time_to_string d]"
  if "CHR '','' \<notin> set (k1 @ k2 @ k3 @ k4)"
proof -
  have n: "CHR '','' \<notin> set (k1 @ utc_time_to_string a)" "CHR '','' \<notin> set (k2 @ utc_time_to_string b)"
    "CHR '','' \<notin> set (k3 @ utc_time_to_string c)" "CHR '','' \<notin> set (k4 @ utc_time_to_string d)"
    using that by (simp_all add: utc_time_no_comma)
  show ?thesis
    using str_split_append [OF n(1)] str_split_append [OF n(2)] str_split_append [OF n(3)] str_split_plain [OF n(4)]
    by simp
qed

section \<open>The next boundary\<close>

lemma boundary_at_cases:
  assumes "td_ok x"
  shows "boundary_at t x =
    t - t mod 86400 + int (td_seconds x) + (if int (td_seconds x) \<le> t mod 86400 then 86400 else 0)"
proof -
  have "t div 86400 * 86400 = t - t mod 86400" by (simp add: minus_mod_eq_div_mult)
  then show ?thesis by (simp add: boundary_at_def Let_def)
qed

text \<open>The seconds of the day of an instant close to another one.\<close>

lemma mod_day:
  fixes t u :: int
  assumes "t - t mod 86400 + 86400 * k \<le> u" and "u < t - t mod 86400 + 86400 * k + 86400"
  shows "u mod 86400 = u - (t - t mod 86400) - 86400 * k"
proof -
  define w where "w = u - (t - t mod 86400) - 86400 * k"
  have "u = w + 86400 * (t div 86400 + k)"
    using minus_mod_eq_mult_div [of t 86400] by (simp add: w_def algebra_simps)
  then have "u mod 86400 = w mod 86400" by (metis mod_mult_self2)
  also have "\<dots> = w" using assms by (simp add: w_def)
  finally show ?thesis by (simp add: w_def)
qed

lemma boundary_at_spec:
  assumes "td_ok x"
  shows "t < boundary_at t x" and "boundary_at t x \<le> t + 86400" and "boundary_at t x mod 86400 = int (td_seconds x)"
proof -
  define r day where "r = t mod 86400" and "day = t - r"
  have r: "0 \<le> r" "r < 86400" "t = day + r" by (simp_all add: r_def day_def)
  have x: "int (td_seconds x) < 86400" using assms by (simp add: td_ok_def)
  have at: "boundary_at t x = day + int (td_seconds x) + (if int (td_seconds x) \<le> r then 86400 else 0)"
    using boundary_at_cases [OF assms, of t] by (simp add: day_def r_def)
  then show "t < boundary_at t x" "boundary_at t x \<le> t + 86400" using r x by auto
  have m: "u mod 86400 = u - day - 86400 * k" if "day + 86400 * k \<le> u" "u < day + 86400 * k + 86400" for u k
    using mod_day [of t k u] that by (simp add: day_def r_def)
  show "boundary_at t x mod 86400 = int (td_seconds x)"
    using m [of 0 "boundary_at t x"] m [of 1 "boundary_at t x"] at x by (cases "int (td_seconds x) \<le> r") simp_all
qed

text \<open>The seconds of the day, as the schedule compares them.\<close>

definition phase_at :: "nat \<Rightarrow> nat \<Rightarrow> nat \<Rightarrow> nat \<Rightarrow> int \<Rightarrow> trading_phase" where
  "phase_at a b c e r =
     (if int a \<le> r \<and> r < int b then OpeningCall else if int b \<le> r \<and> r < int c then Continuous
      else if int c \<le> r \<and> r < int e then ClosingCall else Closed)"

lemma schedule_phase_full:
  assumes "sc_open_call s = Some a" "sc_open s = Some b" "sc_close_call s = Some c"
  shows "schedule_phase s t = phase_at (td_seconds a) (td_seconds b) (td_seconds c) (td_seconds (sc_close s)) (t mod 86400)"
proof -
  have "0 \<le> t mod 86400" by simp
  then have "n \<le> nat (t mod 86400) \<longleftrightarrow> int n \<le> t mod 86400" "nat (t mod 86400) < n \<longleftrightarrow> t mod 86400 < int n" for n
    by linarith+
  with assms show ?thesis by (simp add: schedule_phase_def phase_at_def Let_def)
qed

definition boundary_phase :: "boundary \<Rightarrow> trading_phase" where
  "boundary_phase k = (case k of OpenCall \<Rightarrow> OpeningCall | Open \<Rightarrow> Continuous | CloseCall \<Rightarrow> ClosingCall | Close \<Rightarrow> Closed)"

lemma next_boundary_full:
  assumes s: "sc_open_call s = Some a" "sc_open s = Some b" "sc_close_call s = Some c"
    and lt: "td_seconds a < td_seconds b" "td_seconds b < td_seconds c" "td_seconds c < td_seconds (sc_close s)"
      "td_seconds (sc_close s) < 86400"
  shows "next_boundary s t =
    (let r = t mod 86400; day = t - r
     in if r < int (td_seconds a) then Some (day + int (td_seconds a), OpenCall)
        else if r < int (td_seconds b) then Some (day + int (td_seconds b), Open)
        else if r < int (td_seconds c) then Some (day + int (td_seconds c), CloseCall)
        else if r < int (td_seconds (sc_close s)) then Some (day + int (td_seconds (sc_close s)), Close)
        else Some (day + 86400 + int (td_seconds a), OpenCall))"
proof -
  have ok: "td_ok a" "td_ok b" "td_ok c" "td_ok (sc_close s)" using lt by (simp_all add: td_ok_def)
  show ?thesis
    using lt by (simp add: next_boundary_def schedule_times_def s List.map_filter_def Let_def boundary_at_cases ok)
qed


lemma schedule_cases:
  assumes "schedule_ok s"
  obtains (close) "sc_open_call s = None" "sc_open s = None" "sc_close_call s = None" "td_seconds (sc_close s) < 86400"
    | (full) a b c where "sc_open_call s = Some a" "sc_open s = Some b" "sc_close_call s = Some c"
      "td_seconds a < td_seconds b" "td_seconds b < td_seconds c" "td_seconds c < td_seconds (sc_close s)"
      "td_seconds (sc_close s) < 86400"
  using assms unfolding schedule_ok_def td_ok_def by (auto split: option.splits)

lemma next_boundary_phase:
  assumes s: "sc_open_call s = Some a" "sc_open s = Some b" "sc_close_call s = Some c"
    and lt: "td_seconds a < td_seconds b" "td_seconds b < td_seconds c" "td_seconds c < td_seconds (sc_close s)"
      "td_seconds (sc_close s) < 86400"
    and nb: "next_boundary s t = Some (at, k)"
  shows "t < at \<and> at \<le> t + 86400 \<and> (\<forall>u. t \<le> u \<and> u < at \<longrightarrow> schedule_phase s u = schedule_phase s t) \<and>
    schedule_phase s at = boundary_phase k"
proof -
  define r day where "r = t mod 86400" and "day = t - r"
  have r: "0 \<le> r" "r < 86400" "t = day + r" by (simp_all add: r_def day_def)
  have m0: "u mod 86400 = u - day" if "day \<le> u" "u < day + 86400" for u
    using mod_day [of t 0 u] that by (simp add: day_def r_def)
  have m1: "u mod 86400 = u - day - 86400" if "day + 86400 \<le> u" "u < day + 86400 + 86400" for u
    using mod_day [of t 1 u] that by (simp add: day_def r_def)
  note ph = schedule_phase_full [OF s]
  let ?a = "int (td_seconds a)" and ?b = "int (td_seconds b)" and ?c = "int (td_seconds c)" and ?e = "int (td_seconds (sc_close s))"
  have nb': "(if r < ?a then (day + ?a, OpenCall) else if r < ?b then (day + ?b, Open)
      else if r < ?c then (day + ?c, CloseCall) else if r < ?e then (day + ?e, Close)
      else (day + 86400 + ?a, OpenCall)) = (at, k)"
    using nb unfolding next_boundary_full [OF s lt] Let_def r_def [symmetric] day_def by (simp split: if_splits)
  have ord: "0 \<le> ?a" "?a < ?b" "?b < ?c" "?c < ?e" "?e < 86400" using lt by simp_all
  have at: "t < at" "at \<le> t + 86400" "at mod 86400 = (case k of OpenCall \<Rightarrow> ?a | Open \<Rightarrow> ?b | CloseCall \<Rightarrow> ?c | Close \<Rightarrow> ?e)"
    using nb' r ord m0 [of at] m1 [of at] by (auto split: if_splits)
  then have "schedule_phase s at = boundary_phase k"
    using ord by (cases k) (simp_all add: ph phase_at_def boundary_phase_def)
  moreover have "schedule_phase s u = schedule_phase s t" if u: "t \<le> u" "u < at" for u
  proof -
    have pt: "schedule_phase s t = phase_at (td_seconds a) (td_seconds b) (td_seconds c) (td_seconds (sc_close s)) r"
      by (simp add: ph r_def)
    have le: "day + r \<le> u" using u r(3) by simp
    show ?thesis
    proof (cases "u < day + 86400")
      case True
      then have "u mod 86400 = u - day" using m0 [of u] le r(1) by simp
      then show ?thesis using le u(2) nb' r(1,2) ord unfolding pt ph [of u] phase_at_def by (auto split: if_splits)
    next
      case False
      then have "u mod 86400 = u - day - 86400" using m1 [of u] u(2) at(2) r by simp
      then show ?thesis using False le u(2) nb' r(1,2) ord unfolding pt ph [of u] phase_at_def by (auto split: if_splits)
    qed
  qed
  ultimately show ?thesis using at by blast
qed

lemma schedule_entry_times:
  assumes "schedule_entry entry fs = Inr fs'" and "pred_prod (pred_option td_ok) (pred_prod (pred_option td_ok)
      (pred_prod (pred_option td_ok) (pred_option td_ok))) fs"
  shows "pred_prod (pred_option td_ok) (pred_prod (pred_option td_ok)
      (pred_prod (pred_option td_ok) (pred_option td_ok))) fs'"
  using assms utc_time_from_str_ok
  by (auto simp: schedule_entry_def Let_def split: prod.splits option.splits sum.splits if_splits)

lemma schedule_entries_times:
  "schedule_entries es fs = Inr fs' \<Longrightarrow> pred_prod (pred_option td_ok) (pred_prod (pred_option td_ok)
      (pred_prod (pred_option td_ok) (pred_option td_ok))) fs \<Longrightarrow> pred_prod (pred_option td_ok) (pred_prod (pred_option td_ok)
      (pred_prod (pred_option td_ok) (pred_option td_ok))) fs'"
proof (induction es arbitrary: fs)
  case (Cons e es)
  then obtain fs1 where 1: "schedule_entry e fs = Inr fs1" "schedule_entries es fs1 = Inr fs'"
    by (auto split: sum.splits)
  show ?case using Cons.IH [OF 1(2) schedule_entry_times [OF 1(1) Cons.prems(2)]] .
qed simp

lemma schedule_from_str_ok:
  assumes "schedule_from_str v = Inr s"
  shows "schedule_ok s"
proof -
  obtain e a b c where es: "schedule_entries (str_split (CHR '','') v) (None, None, None, None) = Inr (Some e, a, b, c)"
    using assms by (auto simp: schedule_from_str_def split: sum.splits option.splits)
  have "td_ok e" using schedule_entries_times [OF es] by simp
  with assms es show ?thesis
    by (auto simp: schedule_from_str_def schedule_ok_def split: if_splits option.splits)
qed

text \<open>
  C19. Text form of a schedule. Printing a valid schedule (the close alone, or the four times in
  order, all within a day) and parsing the text gives the schedule back, and whatever text the
  parser accepts yields a valid schedule.
\<close>

theorem schedule_round_trip:
  "(schedule_ok s \<longrightarrow> schedule_from_str (schedule_to_string s) = Inr s) \<and>
   (schedule_from_str v = Inr s \<longrightarrow> schedule_ok s)"
proof (intro conjI impI)
  assume "schedule_ok s"
  then show "schedule_from_str (schedule_to_string s) = Inr s"
  proof (cases rule: schedule_cases)
    case close
    have "CHR '','' \<notin> set (''close='' @ utc_time_to_string (sc_close s))" by (simp add: utc_time_no_comma)
    from str_split_plain [OF this] have parts: "str_split (CHR '','') (schedule_to_string s) = [''close='' @ utc_time_to_string (sc_close s)]"
      by (simp add: schedule_to_string_def close)
    show ?thesis
      unfolding schedule_from_str_def parts schedule_entries.simps entry_close [unfolded td_ok_def, OF close(4)]
      using close by simp
  next
    case (full a b c)
    then have ok: "td_ok a" "td_ok b" "td_ok c" "td_ok (sc_close s)" by (simp_all add: td_ok_def)
    have parts: "str_split (CHR '','') (schedule_to_string s) =
        [''open_call='' @ utc_time_to_string a, ''open='' @ utc_time_to_string b,
         ''close_call='' @ utc_time_to_string c, ''close='' @ utc_time_to_string (sc_close s)]"
      using schedule_split [of "''open_call=''" "''open=''" "''close_call=''" "''close=''" a b c "sc_close s"]
      by (simp add: schedule_to_string_def full)
    show ?thesis
      unfolding schedule_from_str_def parts schedule_entries.simps
        entry_open_call [OF ok(1)] entry_open [OF ok(2)] entry_close_call [OF ok(3)] entry_close [OF ok(4)] sum.case
      using full by simp
  qed
next
  assume "schedule_from_str v = Inr s"
  then show "schedule_ok s" by (rule schedule_from_str_ok)
qed

text \<open>
  C20. Boundaries and phases agree. For a valid schedule and any instant the next boundary exists,
  lies within the next day, the trading phase does not change before it, and at it the phase of
  the boundary begins; a schedule with a close only always has the close as its next boundary.
\<close>

theorem next_boundary_sound:
  assumes "schedule_ok s"
  shows "\<exists>at k. next_boundary s t = Some (at, k) \<and> t < at \<and> at \<le> t + 86400 \<and>
    (\<forall>u. t \<le> u \<and> u < at \<longrightarrow> schedule_phase s u = schedule_phase s t) \<and>
    (if is_full s then schedule_phase s at = boundary_phase k
     else k = Close \<and> at mod 86400 = int (td_seconds (sc_close s)))"
  using assms
proof (cases rule: schedule_cases)
  case close
  let ?at = "boundary_at t (sc_close s)"
  have ok: "td_ok (sc_close s)" using close by (simp add: td_ok_def)
  have at: "t < ?at" "?at \<le> t + 86400" "?at mod 86400 = int (td_seconds (sc_close s))"
    by (rule boundary_at_spec [OF ok])+
  have "next_boundary s t = Some (?at, Close)"
    using close by (simp add: next_boundary_def schedule_times_def List.map_filter_def)
  moreover have "schedule_phase s u = Continuous" for u using close by (simp add: schedule_phase_def)
  moreover have nf: "\<not> is_full s" using close by (simp add: is_full_def)
  ultimately show ?thesis unfolding if_not_P [OF nf] using at by metis
next
  case (full a b c)
  have "next_boundary s t \<noteq> None" unfolding next_boundary_full [OF full] Let_def by simp
  then obtain at k where nb: "next_boundary s t = Some (at, k)" by auto
  have f: "is_full s" using full(1-3) by (simp add: is_full_def)
  show ?thesis unfolding if_P [OF f] using nb next_boundary_phase [OF full nb] by blast
qed

definition sample_schedule :: session_schedule where
  "sample_schedule = \<lparr>sc_open_call = Some \<lparr>td_seconds = 28800\<rparr>, sc_open = Some \<lparr>td_seconds = 32400\<rparr>,
     sc_close_call = Some \<lparr>td_seconds = 61200\<rparr>, sc_close = \<lparr>td_seconds = 63000\<rparr>\<rparr>"

theorem schedule_round_trip_witness:
  "schedule_ok sample_schedule \<and> schedule_from_str (schedule_to_string sample_schedule) = Inr sample_schedule"
proof -
  have "schedule_ok sample_schedule" by (simp add: schedule_ok_def sample_schedule_def td_ok_def)
  with schedule_round_trip [of sample_schedule] show ?thesis by blast
qed

theorem next_boundary_sound_witness:
  "schedule_ok sample_schedule \<and> next_boundary sample_schedule 61199 = Some (61200, CloseCall) \<and>
   schedule_phase sample_schedule 61200 = ClosingCall"
proof -
  have ok: "schedule_ok sample_schedule" by (simp add: schedule_ok_def sample_schedule_def td_ok_def)
  have nb: "next_boundary sample_schedule 61199 = Some (61200, CloseCall)"
    by (simp add: next_boundary_def schedule_times_def List.map_filter_def boundary_at_def sample_schedule_def Let_def)
  have f: "is_full sample_schedule" by (simp add: is_full_def sample_schedule_def)
  obtain at k where "next_boundary sample_schedule 61199 = Some (at, k)" "schedule_phase sample_schedule at = boundary_phase k"
    using next_boundary_sound [OF ok, of 61199] unfolding if_P [OF f] by blast
  with nb ok show ?thesis by (simp add: boundary_phase_def)
qed

section \<open>The civil calendar\<close>

definition leap_year :: "int \<Rightarrow> bool" where
  "leap_year y \<longleftrightarrow> y mod 4 = 0 \<and> (y mod 100 \<noteq> 0 \<or> y mod 400 = 0)"

definition valid_date :: "int \<Rightarrow> int \<Rightarrow> int \<Rightarrow> bool" where
  "valid_date y m d \<longleftrightarrow> (\<exists>n. days_in_month y m = Some n \<and> 1 \<le> d \<and> d \<le> n)"

text \<open>The day after a valid date.\<close>

definition next_day :: "int \<times> int \<times> int \<Rightarrow> int \<times> int \<times> int" where
  "next_day = (\<lambda>(y, m, d).
     if days_in_month y m = Some d then (if m = 12 then (y + 1, 1, 1) else (y, m + 1, 1)) else (y, m, d + 1))"

definition day_number :: "int \<times> int \<times> int \<Rightarrow> int" where
  "day_number = (\<lambda>(y, m, d). days_from_civil y m d)"

text \<open>Days before the first of March of a year that begins in March.\<close>

definition march_year :: "int \<Rightarrow> int" where
  "march_year y = 365 * y + y div 4 - y div 100 + y div 400"

lemma march_year_era:
  "y div 400 * 146097 + ((y - y div 400 * 400) * 365 + (y - y div 400 * 400) div 4 - (y - y div 400 * 400) div 100) =
   march_year y"
proof -
  define e r where "e = y div 400" and "r = y - e * 400"
  have y: "y = e * 400 + r" by (simp add: r_def)
  have r: "r = y mod 400" by (simp add: r_def e_def minus_div_mult_eq_mod)
  then have "r div 400 = 0" by (simp add: div_pos_pos_trivial)
  have "y div 4 = e * 100 + r div 4" "y div 100 = e * 4 + r div 100" "y div 400 = e"
    unfolding y by (simp_all add: \<open>r div 400 = 0\<close>)
  then show ?thesis unfolding march_year_def e_def [symmetric] r_def [symmetric] by (simp add: y algebra_simps)
qed

lemma days_from_civil_march:
  "days_from_civil y m d =
     march_year (if m \<le> 2 then y - 1 else y) + (153 * (m + (if m > 2 then - 3 else 9)) + 2) div 5 + d - 719469"
  using march_year_era [of "y - (if m \<le> 2 then 1 else 0)"]
  by (simp add: days_from_civil_def Let_def split: if_splits)

lemma march_year_step: "march_year y = march_year (y - 1) + (if leap_year y then 366 else 365)"
proof -
  have step: "y div k = (y - 1) div k + (if y mod k = 0 then 1 else 0)" if "0 < k" for k :: int
  proof -
    have y: "k * (y div k) + y mod k = y" "0 \<le> y mod k" "y mod k < k" using that by simp_all
    show ?thesis
    proof (cases "y mod k = 0")
      case True
      with y(1) have "k * (y div k - 1) + (k - 1) = y - 1" by (simp add: right_diff_distrib)
      then have "y - 1 = k * (y div k - 1) + (k - 1)" by (rule sym)
      then have "(y - 1) div k = y div k - 1" by (rule int_div_pos_eq) (use that in simp_all)
      with True show ?thesis by simp
    next
      case False
      have "y - 1 = k * (y div k) + (y mod k - 1)" using y(1) by linarith
      then have "(y - 1) div k = y div k" by (rule int_div_pos_eq) (use False y(2,3) in linarith)+
      with False show ?thesis by simp
    qed
  qed
  have "4 dvd (100 :: int)" "100 dvd (400 :: int)" by simp_all
  then have m: "y mod 100 = 0 \<Longrightarrow> y mod 4 = 0" "y mod 400 = 0 \<Longrightarrow> y mod 100 = 0"
    unfolding mod_eq_0_iff_dvd using dvd_trans by blast+
  have s: "y div 4 = (y - 1) div 4 + (if y mod 4 = 0 then 1 else 0)"
    "y div 100 = (y - 1) div 100 + (if y mod 100 = 0 then 1 else 0)"
    "y div 400 = (y - 1) div 400 + (if y mod 400 = 0 then 1 else 0)"
    by (rule step, simp)+
  have diff: "(365 * y + (a + i) - (b + j) + (c + k)) - (365 * (y - 1) + a - b + c) = 365 + i - j + k" for a b c i j k :: int
    by simp
  have "march_year y - march_year (y - 1) = 365 + (if y mod 4 = 0 then 1 else 0) - (if y mod 100 = 0 then 1 else 0) +
      (if y mod 400 = 0 then 1 else 0)"
    unfolding march_year_def s by (rule diff)
  also have "\<dots> = (if leap_year y then 366 else 365)"
    unfolding leap_year_def using m by (cases "y mod 4 = 0"; cases "y mod 100 = 0"; cases "y mod 400 = 0") simp_all
  finally show ?thesis by simp
qed

lemma days_in_month_leap:
  "days_in_month y m =
     (if m = 2 then Some (if leap_year y then 29 else 28) else if m \<in> {4, 6, 9, 11} then Some 30
      else if m \<in> {1, 3, 5, 7, 8, 10, 12} then Some 31 else None)"
  by (simp only: days_in_month_def leap_year_def Let_def)

lemma days_in_month_cases:
  assumes "days_in_month y m = Some n"
  obtains "m \<in> {1, 3, 5, 7, 8, 10, 12}" "n = 31" | "m \<in> {4, 6, 9, 11}" "n = 30"
    | "m = 2" "n = (if leap_year y then 29 else 28)"
  using assms unfolding days_in_month_leap by (auto split: if_splits)

lemma days_in_month_range: "days_in_month y m = Some n \<Longrightarrow> 1 \<le> m \<and> m \<le> 12 \<and> 28 \<le> n \<and> n \<le> 31"
  by (erule days_in_month_cases) auto

lemma days_in_month_some: "1 \<le> m \<Longrightarrow> m \<le> 12 \<Longrightarrow> \<exists>n. days_in_month y m = Some n"
proof -
  assume "1 \<le> m" "m \<le> 12"
  then have "m \<in> {1, 2, 3, 4, 5, 6, 7, 8, 9, 10, 11, 12}" by simp presburger
  then show ?thesis unfolding days_in_month_leap by auto
qed

lemma first_valid: "1 \<le> m \<Longrightarrow> m \<le> 12 \<Longrightarrow> valid_date y m 1"
  using days_in_month_some [of m y] days_in_month_range [of y m] by (auto simp: valid_date_def)

lemma next_day_valid:
  assumes v: "valid_date y m d" and nd: "next_day (y, m, d) = (y', m', d')"
  shows "valid_date y' m' d'"
proof -
  from v obtain n where n: "days_in_month y m = Some n" "1 \<le> d" "d \<le> n" by (auto simp: valid_date_def)
  have m: "1 \<le> m" "m \<le> 12" using days_in_month_range [OF n(1)] by simp_all
  show ?thesis
  proof (cases "d = n")
    case True
    with nd n m show ?thesis by (auto simp: next_day_def split: if_splits intro: first_valid)
  next
    case False
    with nd n have "y' = y" "m' = m" "d' = d + 1" by (simp_all add: next_day_def)
    with n False show ?thesis by (simp add: valid_date_def)
  qed
qed

lemma next_day_number:
  assumes "valid_date y m d"
  shows "day_number (next_day (y, m, d)) = day_number (y, m, d) + 1"
proof (cases "days_in_month y m = Some d")
  case False
  then show ?thesis by (simp add: next_day_def day_number_def days_from_civil_march)
next
  case True
  then show ?thesis
  proof (cases rule: days_in_month_cases)
    case 3
    then show ?thesis
      using True march_year_step [of y] by (simp add: next_day_def day_number_def days_from_civil_march)
  qed (use True in \<open>auto simp: next_day_def day_number_def days_from_civil_march\<close>)
qed

section \<open>Dates as text\<close>

definition show_pad4 :: "nat \<Rightarrow> string" where
  "show_pad4 n = replicate (4 - length (show_nat n)) (CHR ''0'') @ show_nat n"

definition date_string :: "nat \<Rightarrow> nat \<Rightarrow> nat \<Rightarrow> string" where
  "date_string y m d = show_pad4 y @ ''-'' @ show_pad2 m @ ''-'' @ show_pad2 d"

lemma digit_val_less: "is_digit c \<Longrightarrow> digit_val c < 10"
  unfolding is_digit_def digit_val_def by linarith

lemma digits_val_bound: "list_all is_digit s \<Longrightarrow> digits_val s < 10 ^ length s"
proof (induction s rule: rev_induct)
  case (snoc c s)
  then have "digit_val c < 10" "digits_val s < 10 ^ length s" by (simp_all add: digit_val_less)
  then show ?case by (simp add: digits_val_snoc)
qed (simp add: digits_val_def)

lemma digit_val_inj: "is_digit c \<Longrightarrow> is_digit d \<Longrightarrow> digit_val c = digit_val d \<Longrightarrow> c = d"
proof -
  assume "is_digit c" "is_digit d" "digit_val c = digit_val d"
  then have "(of_char c :: nat) = of_char d" unfolding is_digit_def digit_val_def by linarith
  then show "c = d" by simp
qed

lemma digits_val_inj:
  "length s = length t \<Longrightarrow> list_all is_digit s \<Longrightarrow> list_all is_digit t \<Longrightarrow> digits_val s = digits_val t \<Longrightarrow> s = t"
proof (induction s arbitrary: t rule: rev_induct)
  case (snoc c s)
  then obtain d u where t: "t = u @ [d]" by (cases t rule: rev_cases) auto
  have c: "digit_val c < 10" "digit_val d < 10" using snoc.prems by (simp_all add: t digit_val_less)
  have eq: "digits_val s * 10 + digit_val c = digits_val u * 10 + digit_val d"
    using snoc.prems by (simp add: t digits_val_snoc)
  then have "digits_val s = digits_val u" using c by linarith
  moreover from this eq have "digit_val c = digit_val d" by simp
  ultimately have "digits_val s = digits_val u" "digit_val c = digit_val d" by simp_all
  with snoc show ?case by (auto simp: t intro: digit_val_inj)
qed simp

lemma digits_val_zeros: "digits_val (replicate n (CHR ''0'') @ s) = digits_val s"
  by (induction n) (simp_all add: digits_val_def digit_val_def)

lemma show_nat_length: "n < 10 ^ k \<Longrightarrow> 0 < k \<Longrightarrow> length (show_nat n) \<le> k"
proof (induction k arbitrary: n)
  case (Suc k)
  show ?case
  proof (cases "n < 10")
    case False
    then have "0 < k" using Suc.prems by (cases k) auto
    moreover have "n div 10 < 10 ^ k" using Suc.prems by (simp add: div_less_iff_less_mult)
    ultimately show ?thesis using Suc.IH False by (subst show_nat.simps) simp
  qed (subst show_nat.simps, simp)
qed simp

lemma show_pad4:
  "list_all is_digit (show_pad4 n)" "digits_val (show_pad4 n) = n" "n < 10000 \<Longrightarrow> length (show_pad4 n) = 4"
  using show_nat_length [of n 4]
  by (auto simp: show_pad4_def show_nat_digits(1) digits_val_zeros digits_val_show is_digit_def list_all_iff [of _ "replicate _ _"])


lemma date_parts:
  assumes "length s = 10" "s ! 4 = CHR ''-''" "s ! 7 = CHR ''-''"
  shows "s = take 4 s @ ''-'' @ take 2 (drop 5 s) @ ''-'' @ drop 8 s"
proof -
  have "drop 4 s = s ! 4 # drop 5 s" using assms(1) by (simp add: Cons_nth_drop_Suc [symmetric])
  moreover have "drop 7 s = s ! 7 # drop 8 s" using assms(1) by (simp add: Cons_nth_drop_Suc [symmetric])
  moreover have "drop 5 s = take 2 (drop 5 s) @ drop 7 s" using append_take_drop_id [of 2 "drop 5 s"] by simp
  ultimately show ?thesis using assms(2,3) by (metis append_Cons append_Nil append_take_drop_id)
qed

lemma date_digits:
  assumes "length s = 10" "\<forall>i < 10. i \<noteq> 4 \<and> i \<noteq> 7 \<longrightarrow> is_digit (s ! i)"
  shows "list_all is_digit (take 4 s)" "list_all is_digit (take 2 (drop 5 s))" "list_all is_digit (drop 8 s)"
  using assms by (auto simp: list_all_length)


lemma date_shape:
  assumes "list_all is_digit ys" "length ys = 4" "list_all is_digit ms" "length ms = 2" "list_all is_digit ds" "length ds = 2"
  shows "expiry_instant (ys @ ''-'' @ ms @ ''-'' @ ds) =
    (case days_in_month (int (digits_val ys)) (int (digits_val ms)) of
       None \<Rightarrow> Inl ''invalid expire_date month''
     | Some days \<Rightarrow>
         (if digits_val ys = 0 \<or> int (digits_val ds) < 1 \<or> int (digits_val ds) > days then Inl ''invalid expire_date''
          else Inr ((days_from_civil (int (digits_val ys)) (int (digits_val ms)) (int (digits_val ds)) + 1) * 86400)))"
proof -
  obtain a b c d where y: "ys = [a, b, c, d]" using assms(2) by (auto simp: length_Suc_conv eval_nat_numeral)
  obtain e f where m: "ms = [e, f]" using assms(4) by (auto simp: length_Suc_conv eval_nat_numeral)
  obtain g h where dd: "ds = [g, h]" using assms(6) by (auto simp: length_Suc_conv eval_nat_numeral)
  have ten: "[0..<10] = [0, 1, 2, 3, 4, 5, 6, 7, 8, 9 :: nat]" by (simp add: upt_rec)
  show ?thesis using assms(1,3,5) unfolding y m dd
    by (simp add: expiry_instant_def ten Let_def split: option.split)
qed

lemma date_string_parts:
  assumes "y < 10000" "m < 100" "d < 100"
  shows "list_all is_digit (show_pad4 y)" "length (show_pad4 y) = 4" "list_all is_digit (show_pad2 m)" "length (show_pad2 m) = 2"
    "list_all is_digit (show_pad2 d)" "length (show_pad2 d) = 2"
  using assms by (simp_all add: show_pad4 show_pad2_digits show_pad2_length)

lemma expiry_instant_date:
  assumes "1 \<le> y" "y < 10000" "valid_date (int y) (int m) (int d)"
  shows "expiry_instant (date_string y m d) = Inr (86400 * day_number (next_day (int y, int m, int d)))"
proof -
  from assms(3) obtain n where n: "days_in_month (int y) (int m) = Some n" "1 \<le> int d" "int d \<le> n" by (auto simp: valid_date_def)
  then have lt: "m < 100" "d < 100" using days_in_month_range [OF n(1)] by simp_all
  show ?thesis
    unfolding date_string_def date_shape [OF date_string_parts [OF assms(2) lt]] next_day_number [OF assms(3)]
    using n assms(1) by (simp add: show_pad4 show_pad2_val day_number_def)
qed

lemma expiry_instant_shape:
  assumes "expiry_instant s = Inr t"
  obtains ys ms ds where "s = ys @ ''-'' @ ms @ ''-'' @ ds" "list_all is_digit ys" "length ys = 4"
    "list_all is_digit ms" "length ms = 2" "list_all is_digit ds" "length ds = 2"
proof -
  have s: "length s = 10" "s ! 4 = CHR ''-''" "s ! 7 = CHR ''-''" "\<not> list_ex (\<lambda>i. i \<noteq> 4 \<and> i \<noteq> 7 \<and> \<not> is_digit (s ! i)) [0..<10]"
    using assms by (auto simp: expiry_instant_def split: if_splits)
  then have dig: "\<forall>i < 10. i \<noteq> 4 \<and> i \<noteq> 7 \<longrightarrow> is_digit (s ! i)" by (auto simp: list_ex_iff)
  show thesis
    using that [OF date_parts [OF s(1-3)] date_digits(1) [OF s(1) dig] _ date_digits(2) [OF s(1) dig] _ date_digits(3) [OF s(1) dig]] s(1)
    by simp
qed

text \<open>
  C21. Expiry dates. The text of an expiry date is accepted exactly when it is a date of the
  Gregorian calendar in the years 1 to 9999 written as year, month and day with leading zeros,
  and the instant is then the midnight (UTC) that begins the following day.
\<close>

theorem expiry_instant_iff:
  "expiry_instant s = Inr t \<longleftrightarrow>
    (\<exists>y m d. 1 \<le> y \<and> y < 10000 \<and> valid_date (int y) (int m) (int d) \<and> s = date_string y m d \<and>
       t = 86400 * day_number (next_day (int y, int m, int d)))"
proof
  assume r: "expiry_instant s = Inr t"
  then obtain ys ms ds where s: "s = ys @ ''-'' @ ms @ ''-'' @ ds"
    and ds: "list_all is_digit ys" "length ys = 4" "list_all is_digit ms" "length ms = 2" "list_all is_digit ds" "length ds = 2"
    by (rule expiry_instant_shape)
  define y m d where "y = digits_val ys" and "m = digits_val ms" and "d = digits_val ds"
  have b: "y < 10000" "m < 100" "d < 100"
    using digits_val_bound [OF ds(1)] digits_val_bound [OF ds(3)] digits_val_bound [OF ds(5)] ds by (simp_all add: y_def m_def d_def)
  note p = date_string_parts [OF b]
  have "ys = show_pad4 y" "ms = show_pad2 m" "ds = show_pad2 d"
    by (rule digits_val_inj [OF _ ds(1) p(1)] digits_val_inj [OF _ ds(3) p(3)] digits_val_inj [OF _ ds(5) p(5)];
        simp only: ds p show_pad4(2) show_pad2_val y_def [symmetric] m_def [symmetric] d_def [symmetric])+
  then have str: "s = date_string y m d" by (simp add: s date_string_def)
  have "1 \<le> y \<and> valid_date (int y) (int m) (int d)"
    using r unfolding s date_shape [OF ds] by (auto simp: valid_date_def y_def m_def d_def split: option.splits if_splits)
  with str b(1) r expiry_instant_date [of y m d] show "\<exists>y m d. 1 \<le> y \<and> y < 10000 \<and> valid_date (int y) (int m) (int d) \<and> s = date_string y m d \<and>
       t = 86400 * day_number (next_day (int y, int m, int d))" by auto
qed (use expiry_instant_date in auto)

text \<open>
  C22. Day numbers. The closed formula that the core uses counts days: 1970-01-01 is day 0, and the
  day after a valid date (by the lengths of the months and the leap year rule) is a valid date
  with the next number.
\<close>

theorem days_from_civil_counts:
  "day_number (1970, 1, 1) = 0 \<and>
   (valid_date y m d \<longrightarrow> day_number (next_day (y, m, d)) = day_number (y, m, d) + 1 \<and>
      (\<forall>y' m' d'. next_day (y, m, d) = (y', m', d') \<longrightarrow> valid_date y' m' d'))"
proof -
  have "day_number (1970, 1, 1) = 0" by (simp add: day_number_def days_from_civil_def)
  then show ?thesis using next_day_number next_day_valid by blast
qed

theorem days_from_civil_counts_witness:
  "valid_date 2024 2 29 \<and> next_day (2024, 2, 29) = (2024, 3, 1) \<and>
   day_number (2024, 3, 1) = day_number (2024, 2, 29) + 1 \<and> valid_date 2024 3 1"
proof -
  have v: "valid_date 2024 2 29" by (simp add: valid_date_def days_in_month_def)
  have n: "next_day (2024, 2, 29) = (2024, 3, 1)" by (simp add: next_day_def days_in_month_def)
  from days_from_civil_counts [of 2024 2 29] v n show ?thesis by simp
qed

end
