(* ===== verification/Fxp_Config.thy ===== *)
theory Fxp_Config
  imports Fxp_Symbols
begin

text \<open>
  Correctness of the symbol configuration: the canonical text round trips, the parser returns only
  configurations whose rules pass every check, and such rules admit tradable quantities that fit
  the 32-bit fields of the protocol.
\<close>

section \<open>Configurations the parser can return\<close>

definition entry_ok :: "string \<times> symbol_rules \<Rightarrow> bool" where
  "entry_ok = (\<lambda>(s, r). s \<noteq> [] \<and> list_all symbol_char s \<and> rules_ok r \<and> y_tick_size r < 9223372036854775808)"

definition config_ok :: "symbol_config \<Rightarrow> bool" where
  "config_ok c \<longleftrightarrow> bt_ok c \<and> list_all entry_ok c"

lemma rules_ok_range:
  assumes "rules_ok r"
  shows "y_price_scale r \<le> 8" "0 < y_tick_size r" "0 < y_lot_size r" "0 < y_min_quantity r"
    "y_min_quantity r \<le> y_max_quantity r" "y_max_quantity r \<le> 2147483647" "y_lot_size r \<le> y_max_quantity r"
proof -
  let ?n = "(y_min_quantity r + y_lot_size r - 1) div y_lot_size r"
  show r: "y_price_scale r \<le> 8" "0 < y_tick_size r" "0 < y_lot_size r" "0 < y_min_quantity r"
    "y_min_quantity r \<le> y_max_quantity r" "y_max_quantity r \<le> 2147483647"
    using assms by (auto simp: rules_ok_def)
  have "0 < ?n" using r by (simp add: div_greater_zero_iff)
  then have "y_lot_size r \<le> ?n * y_lot_size r" by simp
  also have "\<dots> \<le> y_max_quantity r" using assms by (simp add: rules_ok_def)
  finally show "y_lot_size r \<le> y_max_quantity r" .
qed

section \<open>Printing and parsing a line\<close>

definition plain :: "char \<Rightarrow> bool" where
  "plain c \<longleftrightarrow> \<not> is_space c \<and> c \<noteq> CHR '','' \<and> c \<noteq> CHR ''#''"

lemma plain_digit: "is_digit c \<Longrightarrow> plain c"
  by (auto simp: plain_def is_digit_def is_space_def)

lemma plain_symbol: "symbol_char c \<Longrightarrow> plain c"
  by (auto simp: plain_def symbol_char_def is_alphanumeric_def is_digit_def is_space_def)

lemma space_newline: "is_space newline" "is_space (char_of (13 :: nat))"
  by (simp_all add: is_space_def newline_def)

lemma str_trim_plain: "list_all (\<lambda>c. \<not> is_space c) s \<Longrightarrow> str_trim s = s"
proof -
  assume s: "list_all (\<lambda>c. \<not> is_space c) s"
  have "dropWhile is_space t = t" if "list_all (\<lambda>c. \<not> is_space c) t" for t using that by (cases t) simp_all
  with s show ?thesis by (simp add: str_trim_def)
qed

lemma show_nat_plain: "list_all plain (show_nat n)"
  using show_nat_digits(1) [of n] plain_digit by (auto simp: list_all_iff)

lemma plain_cols:
  assumes "list_all (list_all plain) cols"
  shows "map str_trim cols = cols" and "\<forall>s \<in> set cols. CHR '','' \<notin> set s"
proof -
  have "str_trim s = s" if "s \<in> set cols" for s
    using assms that by (intro str_trim_plain) (auto simp: list_all_iff plain_def)
  then show "map str_trim cols = cols" by (simp add: map_idI)
  show "\<forall>s \<in> set cols. CHR '','' \<notin> set s" using assms by (auto simp: list_all_iff plain_def)
qed

definition columns :: "string \<times> symbol_rules \<Rightarrow> string list" where
  "columns = (\<lambda>(s, r). [s, show_nat (y_price_scale r), show_nat (nat (y_tick_size r)), show_nat (y_lot_size r),
     show_nat (y_min_quantity r), show_nat (y_max_quantity r)])"

definition line_text :: "string \<times> symbol_rules \<Rightarrow> string" where
  "line_text e = butlast (rules_line e)"

lemma line_text:
  assumes "entry_ok (s, r)"
  shows "line_text (s, r) = s @ '','' @ show_nat (y_price_scale r) @ '','' @ show_nat (nat (y_tick_size r)) @ '','' @
     show_nat (y_lot_size r) @ '','' @ show_nat (y_min_quantity r) @ '','' @ show_nat (y_max_quantity r)"
  using assms rules_ok_range(2) [of r] by (simp add: line_text_def rules_line_def entry_ok_def show_int_def butlast_append)

lemma columns_plain: "entry_ok e \<Longrightarrow> list_all (list_all plain) (columns e)"
  using plain_symbol by (cases e) (auto simp: entry_ok_def columns_def show_nat_plain elim: list.pred_mono_strong)

lemma split_line:
  assumes "entry_ok e"
  shows "str_split (CHR '','') (line_text e) = columns e"
proof -
  obtain s r where e: "e = (s, r)" by (cases e)
  have n: "CHR '','' \<notin> set t" if "t \<in> set (columns e)" for t using plain_cols(2) [OF columns_plain [OF assms]] that by blast
  have "CHR '','' \<notin> set s" "\<And>k. CHR '','' \<notin> set (show_nat k)"
    using n [of s] show_nat_plain by (auto simp: e columns_def list_all_iff plain_def)
  then show ?thesis
    using line_text [of s r] assms by (simp add: e columns_def str_split_append str_split_plain)
qed

lemma line_text_chars: "entry_ok e \<Longrightarrow> c \<in> set (line_text e) \<Longrightarrow> plain c \<or> c = CHR '',''"
  using plain_symbol show_nat_plain
  by (cases e) (auto simp: line_text entry_ok_def list_all_iff)

lemma line_text_no_space: "entry_ok e \<Longrightarrow> c \<in> set (line_text e) \<Longrightarrow> \<not> is_space c"
  by (drule (1) line_text_chars) (auto simp: plain_def is_space_def)

lemma config_line_text:
  assumes "entry_ok e"
  shows "config_line (line_text e) = Some e"
proof -
  obtain s r where e: "e = (s, r)" by (cases e)
  have ok: "s \<noteq> []" "list_all symbol_char s" "rules_ok r" "y_tick_size r < 9223372036854775808"
    using assms by (simp_all add: e entry_ok_def)
  note rr = rules_ok_range [OF ok(3)]
  have "map str_trim (str_split (CHR '','') (line_text e)) = columns e"
    using split_line [OF assms] plain_cols(1) [OF columns_plain [OF assms]] by simp
  moreover have "parse_unsigned 4294967296 (show_nat (y_price_scale r)) = Some (y_price_scale r)"
    "parse_unsigned 9223372036854775808 (show_nat (nat (y_tick_size r))) = Some (nat (y_tick_size r))"
    "parse_unsigned 4294967296 (show_nat (y_lot_size r)) = Some (y_lot_size r)"
    "parse_unsigned 4294967296 (show_nat (y_min_quantity r)) = Some (y_min_quantity r)"
    "parse_unsigned 4294967296 (show_nat (y_max_quantity r)) = Some (y_max_quantity r)"
    using rr ok(4) by (auto intro!: parse_show_nat)
  ultimately show ?thesis
    using ok rr by (cases r) (simp add: config_line_def columns_def e show_nat_digits Let_def)
qed


section \<open>Printing and parsing the file\<close>

lemma split_lines:
  "\<forall>l \<in> set ls. newline \<notin> set l \<Longrightarrow> str_split newline (concat (map (\<lambda>l. l @ [newline]) ls)) = ls @ [[]]"
  by (induction ls) (simp_all add: str_split_append)

lemma str_lines_canonical:
  assumes "list_all entry_ok c"
  shows "str_lines (config_canonical c) = map line_text c"
proof -
  have nl: "newline \<notin> set (line_text e)" "char_of (13 :: nat) \<notin> set (line_text e)" if "e \<in> set c" for e
    using assms that line_text_no_space [of e] space_newline by (auto simp: list_all_iff)
  have "config_canonical c = concat (map (\<lambda>l. l @ [newline]) (map line_text c))"
  proof -
    have "rules_line e = line_text e @ [newline]" for e by (cases e) (simp add: line_text_def rules_line_def butlast_append)
    then have "rules_line = (\<lambda>e. line_text e @ [newline])" by (rule ext)
    then show ?thesis by (simp add: config_canonical_def comp_def)
  qed
  then have "str_split newline (config_canonical c) = map line_text c @ [[]]"
    using nl(1) split_lines [of "map line_text c"] by simp
  moreover have "strip_cr (line_text e) = line_text e" if "e \<in> set c" for e
  proof -
    have "last (line_text e) \<noteq> char_of (13 :: nat)" if "line_text e \<noteq> []"
      using nl(2) [OF \<open>e \<in> set c\<close>] last_in_set [OF that] by metis
    then show ?thesis by (auto simp: strip_cr_def)
  qed
  ultimately show ?thesis by (simp add: str_lines_def)
qed

lemma line_text_kept:
  assumes "entry_ok e"
  shows "str_trim (line_text e) = line_text e" and "\<not> config_skip (line_text e)"
proof -
  obtain s r where e: "e = (s, r)" by (cases e)
  obtain c t where s: "s = c # t" "symbol_char c" using assms by (cases s) (auto simp: e entry_ok_def)
  have "\<not> is_space c" if "c \<in> set (line_text e)" for c
    using assms that by (rule line_text_no_space)
  then show "str_trim (line_text e) = line_text e" by (intro str_trim_plain) (simp add: list_all_iff)
  have "line_text e \<noteq> []" "hd (line_text e) = c" using line_text [of s r] assms by (simp_all add: e s)
  moreover have "c \<noteq> CHR ''#''" using plain_symbol [OF s(2)] by (simp add: plain_def)
  moreover have "line_text e \<noteq> ''symbol,price_scale,tick_size,lot_size,min_quantity,max_quantity''"
  proof
    assume "line_text e = ''symbol,price_scale,tick_size,lot_size,min_quantity,max_quantity''"
    then have "columns e = str_split (CHR '','') ''symbol,price_scale,tick_size,lot_size,min_quantity,max_quantity''"
      using split_line [OF assms] by simp
    then have "show_nat (y_price_scale r) = ''price_scale''" by (simp add: columns_def e)
    with show_nat_digits(1) [of "y_price_scale r"] show False by (simp add: is_digit_def)
  qed
  ultimately show "\<not> config_skip (line_text e)" by (simp add: config_skip_def)
qed

lemma bt_insert_last: "\<forall>e \<in> set m. fst e < k \<Longrightarrow> bt_insert k v m = m @ [(k, v)]"
proof -
  assume "\<forall>e \<in> set m. fst e < k"
  then have "filter (\<lambda>e. fst e < k) m = m" "filter (\<lambda>e. k < fst e) m = []"
    by (auto simp: filter_id_conv filter_empty_conv dest: order_less_asym)
  then show ?thesis by (simp add: bt_insert_def)
qed

lemma config_lines_canonical:
  "bt_ok (m @ c) \<Longrightarrow> list_all entry_ok c \<Longrightarrow> config_lines n (map line_text c) m = Inr (m @ c)"
proof (induction c arbitrary: m n)
  case (Cons e c)
  obtain s r where e: "e = (s, r)" by (cases e)
  have lt: "\<forall>d \<in> set m. fst d < s" using Cons.prems(1) by (simp add: bt_ok_append e)
  then have "map_of m s = None" by (auto simp: map_of_eq_None_iff)
  moreover have "bt_insert s r m = m @ [e]" using bt_insert_last [OF lt] by (simp add: e)
  moreover have "entry_ok e" using Cons.prems(2) by simp
  ultimately show ?case
    using Cons.IH [of "m @ [e]"] Cons.prems line_text_kept [of e] config_line_text [of e] by (simp add: e)
qed simp

lemma config_line_ok: "config_line l = Some e \<Longrightarrow> entry_ok e"
  by (cases e) (auto simp: config_line_def entry_ok_def Let_def Option.bind_eq_Some_conv
      dest!: parse_unsigned_bound split: if_splits)

lemma config_lines_ok: "config_lines n ls m = Inr c \<Longrightarrow> config_ok m \<Longrightarrow> config_ok c"
proof (induction n ls m rule: config_lines.induct)
  case (2 n l ls m)
  show ?case
  proof (cases "config_skip (str_trim l)")
    case True
    with 2 show ?thesis by simp
  next
    case False
    with 2(3) obtain s r where line: "config_line (str_trim l) = Some (s, r)" "map_of m s = None"
      "config_lines (n + 1) ls (bt_insert s r m) = Inr c"
      by (auto simp: Let_def split: option.splits if_splits)
    have "config_ok (bt_insert s r m)"
      using 2(4) config_line_ok [OF line(1)] by (auto simp: config_ok_def list_all_iff bt_insert_def bt_ok_insert [unfolded bt_insert_def])
    with False line 2(2) [OF refl False line(1) refl] show ?thesis by simp
  qed
qed simp

section \<open>Properties\<close>

text \<open>
  C23. Configuration files. The canonical text of a valid configuration parses back to exactly that
  configuration, and every text the parser accepts gives a valid configuration: distinct symbols
  in order, well-formed names, and rules that satisfy every range check.
\<close>

theorem config_round_trip:
  "(config_ok c \<longrightarrow> config_parse (config_canonical c) = Inr c) \<and> (config_parse text = Inr c \<longrightarrow> config_ok c)"
proof (intro conjI impI)
  assume "config_ok c"
  then show "config_parse (config_canonical c) = Inr c"
    using config_lines_canonical [of "[]" c 0] by (simp add: config_ok_def config_parse_def str_lines_canonical)
next
  assume "config_parse text = Inr c"
  then show "config_ok c" using config_lines_ok by (auto simp: config_parse_def config_ok_def)
qed

theorem config_round_trip_witness:
  "config_ok [(''P2'', \<lparr>y_price_scale = 2, y_tick_size = 5, y_lot_size = 10, y_min_quantity = 10, y_max_quantity = 1000\<rparr>)] \<and>
   config_parse (config_canonical [(''P2'', \<lparr>y_price_scale = 2, y_tick_size = 5, y_lot_size = 10, y_min_quantity = 10, y_max_quantity = 1000\<rparr>)]) =
     Inr [(''P2'', \<lparr>y_price_scale = 2, y_tick_size = 5, y_lot_size = 10, y_min_quantity = 10, y_max_quantity = 1000\<rparr>)]"
proof -
  have "config_ok [(''P2'', \<lparr>y_price_scale = 2, y_tick_size = 5, y_lot_size = 10, y_min_quantity = 10, y_max_quantity = 1000\<rparr>)]"
    by (simp add: config_ok_def bt_ok_Cons entry_ok_def rules_ok_def symbol_char_def is_alphanumeric_def is_digit_def)
  with config_round_trip show ?thesis by blast
qed

text \<open>
  C24. Quantity bounds. Under rules that pass the checks of the parser an accepted quantity is
  positive, fits the signed 32-bit field of the reports without change of value, and the least
  multiple of the lot size that is not below the minimum is accepted and is the least accepted
  quantity, so every symbol can be traded.
\<close>

theorem accepted_quantities:
  assumes "rules_ok r"
  shows "(\<forall>q. validate_quantity r q = None \<longrightarrow> 0 < q \<and> q \<le> 2147483647 \<and> as_i32 q = int q \<and>
      (y_min_quantity r + y_lot_size r - 1) div y_lot_size r * y_lot_size r \<le> q) \<and>
    validate_quantity r ((y_min_quantity r + y_lot_size r - 1) div y_lot_size r * y_lot_size r) = None"
proof -
  note rr = rules_ok_range [OF assms]
  let ?lot = "y_lot_size r" and ?min = "y_min_quantity r"
  let ?least = "(?min + ?lot - 1) div ?lot * ?lot"
  have "(?min + ?lot - 1) mod ?lot < ?lot" using rr(3) by simp
  moreover have "?least = ?min + ?lot - 1 - (?min + ?lot - 1) mod ?lot" by (simp add: minus_mod_eq_div_mult [symmetric])
  ultimately have ge: "?min \<le> ?least" by linarith
  have "validate_quantity r ?least = None"
    using ge rr assms by (simp add: validate_quantity_def rules_ok_def)
  moreover have "?least \<le> q" if q: "validate_quantity r q = None" for q
  proof -
    from q have "?min \<le> q" "q mod ?lot = 0" by (auto simp: validate_quantity_def split: if_splits)
    then obtain k where k: "q = ?lot * k" by auto
    have "?min + ?lot - 1 < (k + 1) * ?lot" using \<open>?min \<le> q\<close> rr(3) by (simp add: k mult.commute)
    then have "(?min + ?lot - 1) div ?lot \<le> k" by (simp add: div_less_iff_less_mult [OF rr(3)] flip: less_Suc_eq_le)
    then show ?thesis by (simp add: k mult.commute)
  qed
  moreover have "0 < q \<and> q \<le> 2147483647 \<and> as_i32 q = int q" if q: "validate_quantity r q = None" for q
    using q rr by (auto simp: validate_quantity_def as_i32_exact split: if_splits)
  ultimately show ?thesis by blast
qed

theorem accepted_quantities_witness:
  "rules_ok \<lparr>y_price_scale = 2, y_tick_size = 5, y_lot_size = 10, y_min_quantity = 15, y_max_quantity = 1000\<rparr> \<and>
   validate_quantity \<lparr>y_price_scale = 2, y_tick_size = 5, y_lot_size = 10, y_min_quantity = 15, y_max_quantity = 1000\<rparr> 20 = None"
proof -
  have "rules_ok \<lparr>y_price_scale = 2, y_tick_size = 5, y_lot_size = 10, y_min_quantity = 15, y_max_quantity = 1000\<rparr>"
    by (simp add: rules_ok_def)
  from accepted_quantities [OF this] this show ?thesis by simp
qed

end
