(* ===== verification/Fxp_Trace.thy ===== *)
theory Fxp_Trace
  imports Fxp_Stops
begin

text \<open>
  What an execution leaves behind explains the book: the fills and self-trade events of \<^verbatim>\<open>Execution\<close>
  (\<^verbatim>\<open>order_book/stops.rs\<close>), merged in the order in which they happened, form a log that replays, order by order, from
  the open quantities before to the open quantities after. The log is proved of every routine that trades, from the two
  branches of the matching loop up to the stop cascade.
\<close>

section \<open>The log of an execution\<close>

text \<open>
  Fills and self-trade events in the order in which they happened. Every event carries the number
  of fills before it; the reports of the engine are written in the order of this merge.
\<close>

datatype log_event = LFill execution_report | LStp stp_event

fun merge_log :: "nat \<Rightarrow> execution_report list \<Rightarrow> stp_event list \<Rightarrow> log_event list" where
  "merge_log i [] es = map LStp es"
| "merge_log i (f # fs) es =
     map LStp (takeWhile (\<lambda>e. e_before_fill e \<le> i) es) @
     LFill f # merge_log (i + 1) fs (dropWhile (\<lambda>e. e_before_fill e \<le> i) es)"

text \<open>
  The open quantity of an order along a log; \<^const>\<open>None\<close> when an event does not fit: a fill of more
  than is open or of an order with itself, a restatement that leaves nothing, or a cancellation of nothing.
\<close>

fun replay1 :: "string \<Rightarrow> log_event \<Rightarrow> nat \<Rightarrow> nat option" where
  "replay1 oid (LFill f) n =
     (if oid = x_buy_order_id f \<or> oid = x_sell_order_id f
      then (if x_buy_order_id f \<noteq> x_sell_order_id f \<and> 0 < x_trade_quantity f \<and> x_trade_quantity f \<le> n
            then Some (n - x_trade_quantity f) else None)
      else Some n)"
| "replay1 oid (LStp e) n =
     (if oid = e_order_id e
      then (case e_action e of
              Canceled \<Rightarrow> if 0 < n then Some 0 else None
            | Restated k \<Rightarrow> if k < n then Some (n - k) else None)
      else Some n)"

fun replay :: "string \<Rightarrow> log_event list \<Rightarrow> nat \<Rightarrow> nat option" where
  "replay oid [] n = Some n"
| "replay oid (x # xs) n = Option.bind (replay1 oid x n) (replay oid xs)"

declare replay1.simps [simp del]

lemma replay1_shift [simp]: "replay1 oid (LStp (e\<lparr>e_before_fill := k\<rparr>)) n = replay1 oid (LStp e) n"
  by (simp add: replay1.simps)

lemma replay_single: "replay oid [x] n = replay1 oid x n"
  by (cases "replay1 oid x n") simp_all

lemma replay_append: "replay oid (xs @ ys) n = Option.bind (replay oid xs n) (replay oid ys)"
  by (induction xs arbitrary: n) (simp_all split: bind_split)

text \<open>A log that explains the change of the open quantities of all orders.\<close>

definition accounts ::
  "(string \<Rightarrow> nat) \<Rightarrow> (string \<Rightarrow> nat) \<Rightarrow> execution_report list \<Rightarrow> stp_event list \<Rightarrow> bool" where
  "accounts Q Q' fills es \<longleftrightarrow>
     (\<forall>e \<in> set es. e_before_fill e \<le> length fills) \<and>
     (\<forall>oid. replay oid (merge_log 0 fills es) (Q oid) = Some (Q' oid))"

lemma merge_log_append:
  assumes "\<forall>e \<in> set es. e_before_fill e \<le> i + length fs" and "\<forall>e \<in> set hs. i + length fs \<le> e_before_fill e"
  shows "merge_log i (fs @ gs) (es @ hs) = merge_log i fs es @ merge_log (i + length fs) gs hs"
  using assms
proof (induction fs arbitrary: i es)
  case Nil
  then have "takeWhile (\<lambda>e. e_before_fill e \<le> i) (es @ hs) = es @ takeWhile (\<lambda>e. e_before_fill e \<le> i) hs"
    "dropWhile (\<lambda>e. e_before_fill e \<le> i) (es @ hs) = dropWhile (\<lambda>e. e_before_fill e \<le> i) hs"
    by (simp_all add: takeWhile_append2 dropWhile_append2)
  then show ?case by (cases gs) simp_all
next
  case (Cons f fs)
  let ?P = "\<lambda>e. e_before_fill e \<le> i"
  have "takeWhile ?P hs = []" "dropWhile ?P hs = hs" using Cons.prems(2) by (cases hs; force)+
  then have "takeWhile ?P (es @ hs) = takeWhile ?P es" "dropWhile ?P (es @ hs) = dropWhile ?P es @ hs"
    by (induction es) simp_all
  moreover have "\<forall>e \<in> set (dropWhile ?P es). e_before_fill e \<le> (i + 1) + length fs"
    using Cons.prems(1) by (auto dest: set_dropWhileD)
  ultimately show ?case using Cons.IH [of "dropWhile ?P es" "i + 1"] Cons.prems(2) by simp
qed

fun shift_log :: "nat \<Rightarrow> log_event \<Rightarrow> log_event" where
  "shift_log k (LFill f) = LFill f"
| "shift_log k (LStp e) = LStp (e\<lparr>e_before_fill := e_before_fill e + k\<rparr>)"

lemma merge_log_shift:
  "merge_log (k + i) fs (map (\<lambda>e. e\<lparr>e_before_fill := e_before_fill e + k\<rparr>) es) = map (shift_log k) (merge_log i fs es)"
proof (induction fs arbitrary: i es)
  case (Cons f fs)
  have "takeWhile (\<lambda>e. e_before_fill e \<le> k + i) (map (\<lambda>e. e\<lparr>e_before_fill := e_before_fill e + k\<rparr>) es) =
      map (\<lambda>e. e\<lparr>e_before_fill := e_before_fill e + k\<rparr>) (takeWhile (\<lambda>e. e_before_fill e \<le> i) es)"
    "dropWhile (\<lambda>e. e_before_fill e \<le> k + i) (map (\<lambda>e. e\<lparr>e_before_fill := e_before_fill e + k\<rparr>) es) =
      map (\<lambda>e. e\<lparr>e_before_fill := e_before_fill e + k\<rparr>) (dropWhile (\<lambda>e. e_before_fill e \<le> i) es)"
    by (simp_all add: takeWhile_map dropWhile_map comp_def)
  with Cons.IH [of "i + 1" "dropWhile (\<lambda>e. e_before_fill e \<le> i) es"] show ?case by simp
qed simp

lemma replay_shift: "replay oid (map (shift_log k) xs) n = replay oid xs n"
proof (induction xs arbitrary: n)
  case (Cons x xs)
  then have "replay oid (map (shift_log k) xs) = replay oid xs" by (rule ext)
  then show ?case by (cases x) simp_all
qed simp

lemma accounts_refl: "accounts Q Q [] []"
  by (simp add: accounts_def)

lemma accounts_trans:
  assumes "accounts Q Q1 fs es" and "accounts Q1 Q2 gs hs"
  shows "accounts Q Q2 (fs @ gs) (es @ map (\<lambda>e. e\<lparr>e_before_fill := e_before_fill e + length fs\<rparr>) hs)"
proof -
  let ?hs = "map (\<lambda>e. e\<lparr>e_before_fill := e_before_fill e + length fs\<rparr>) hs"
  have "merge_log 0 (fs @ gs) (es @ ?hs) = merge_log 0 fs es @ merge_log (0 + length fs) gs ?hs"
    using assms by (intro merge_log_append) (auto simp: accounts_def)
  moreover have "replay oid (merge_log (0 + length fs) gs ?hs) n = replay oid (merge_log 0 gs hs) n" for oid n
    using merge_log_shift [of "length fs" 0 gs hs] by (simp add: replay_shift)
  ultimately show ?thesis using assms by (auto simp: accounts_def replay_append)
qed

lemma accounts_fill:
  assumes "accounts Q Q1 fs es" and "\<And>oid. replay1 oid (LFill f) (Q1 oid) = Some (Q2 oid)"
  shows "accounts Q Q2 (fs @ [f]) es"
proof -
  have "accounts Q1 Q2 [f] []" using assms(2) by (simp add: accounts_def replay_single del: replay.simps)
  from accounts_trans [OF assms(1) this] show ?thesis by simp
qed

lemma accounts_stp:
  assumes "accounts Q Q1 fs es" and "e_before_fill e = length fs"
    and "\<And>oid. replay1 oid (LStp e) (Q1 oid) = Some (Q2 oid)"
  shows "accounts Q Q2 fs (es @ [e])"
proof -
  have "accounts Q1 Q2 [] [e\<lparr>e_before_fill := 0\<rparr>]" using assms(3) by (simp add: accounts_def replay_single del: replay.simps)
  moreover have "e\<lparr>e_before_fill := length fs\<rparr> = e" using assms(2) by (cases e) simp
  ultimately show ?thesis using accounts_trans [OF assms(1)] by fastforce
qed

section \<open>A loop keeps what its body keeps\<close>

context total_loop
begin

lemma keeps:
  assumes "loop_while guard body s = Some t" and "inv s" and "K s"
    and "\<And>s t. inv s \<Longrightarrow> guard s \<Longrightarrow> K s \<Longrightarrow> body s = Some t \<Longrightarrow> K t"
  shows "K t"
  using assms(1-3)
proof (induction "meas s" arbitrary: s rule: less_induct)
  case less
  show ?case
  proof (cases "guard s")
    case True
    with body_ok [OF less.prems(2)] obtain u where
      u: "body s = Some u" "inv u" "meas u < meas s"
      by blast
    have "loop_while guard body u = Some t" using less.prems(1) True u(1) by (simp add: loop_while_step)
    from less.hyps [OF u(3) this u(2) assms(4) [OF less.prems(2) True less.prems(3) u(1)]] show ?thesis .
  next
    case False
    with less.prems show ?thesis by simp
  qed
qed

end

section \<open>Passive matching\<close>

lemma stp_cut_log:
  assumes left: "left \<le> o_quantity x" and pos: "0 < o_quantity x"
    and cut: "stp_cut mode old_id new_id n x left b = (x', b')"
    and acc: "accounts Q R fs (stp_events (b_stp b))" and n: "n = length fs"
    and R: "R (o_order_id x) = o_quantity x"
  shows "accounts Q (R(o_order_id x := left)) fs (stp_events (b_stp b'))"
proof (cases "left = o_quantity x")
  case True
  with cut have "b' = b" by (simp add: stp_cut_def)
  with acc True R show ?thesis by (simp add: fun_upd_idem)
next
  case False
  define e where "e = \<lparr>e_opposing_order = (if o_order_id x = old_id then new_id else old_id),
      e_order_id = o_order_id x, e_action = (if left = 0 then Canceled else Restated (o_quantity x - left)),
      e_mode = mode, e_before_fill = n\<rparr>"
  have ev: "stp_events (b_stp b') = stp_events (b_stp b) @ [e]"
    using cut False left by (auto simp: stp_cut_def Let_def push_stp_event_def push_stp_update_def e_def)
  show ?thesis
    unfolding ev
  proof (rule accounts_stp [OF acc])
    show "e_before_fill e = length fs" by (simp add: e_def n)
    show "replay1 oid (LStp e) (R oid) = Some ((R(o_order_id x := left)) oid)" for oid
      using left False R pos by (simp add: e_def replay1.simps)
  qed
qed

lemma match_stp_log:
  assumes wf: "wf_with b [bid, ask]" and ready: "ready False b bid" "ready False b ask"
    and sides: "o_side bid = Buy" "o_side ask = Sell"
    and acc: "accounts Q (qty_of b) fs (stp_events (b_stp b))" and n: "n = length fs"
  shows "accounts Q (qty_of (match_stp bid ask bn n b)) fs (stp_events (b_stp (match_stp bid ask bn n b)))"
proof -
  define newer older where "newer = (if bn then bid else ask)" and "older = (if bn then ask else bid)"
  obtain nl ol where left: "stp_left (stp_mode (o_stp newer)) (o_quantity newer) (o_quantity older) = (nl, ol)"
    by fastforce
  obtain o' b1 where c1: "stp_cut (stp_mode (o_stp newer)) (o_order_id older) (o_order_id newer) n older ol b = (o', b1)"
    by fastforce
  obtain n' b2 where c2: "stp_cut (stp_mode (o_stp newer)) (o_order_id older) (o_order_id newer) n newer nl b1 = (n', b2)"
    by fastforce
  have eq: "match_stp bid ask bn n b =
      (if bn then requeue o' False (requeue n' False b2) else requeue n' False (requeue o' False b2))"
    using left c1 c2 by (simp add: match_stp_def newer_def older_def Let_def split: prod.splits if_splits)
  have wf0: "wf_with b [older, newer]" and r: "ready False b older" "ready False b newer"
    using wf ready by (simp_all add: newer_def older_def wf_swap [of b ask bid])
  from stp_left_bound [OF left] have lo: "ol \<le> o_quantity older" and ln: "nl \<le> o_quantity newer" by simp_all
  have ids: "o_order_id newer \<noteq> o_order_id older" using wf_inflight_fresh [OF wf0, of newer] by simp
  have fresh: "o_order_id z \<noteq> o_order_id older" if "z \<in> set (queue sd b)" for z sd
    using wf_inflight_fresh [OF wf0, of z sd] that by simp
  from r have v: "vis_ok b older" by (simp add: ready_def)
  note k1 = stp_cut_ok [OF wf0 v lo c1]
  have w1: "wf_with b1 (newer # alive o')" using k1(2) by (simp add: wf_perm [of "alive o' @ [newer]" "newer # alive o'"])
  have "ready False b1 newer" using r(2) ids fresh by (simp add: ready_other [OF k1(5)])
  then have vn: "vis_ok b1 newer" by (simp add: ready_def)
  have pos: "0 < o_quantity newer" "0 < o_quantity older"
    using wf_quantity [OF wf0] by (simp_all add: roster_def)
  have q: "qty_of b (o_order_id older) = o_quantity older" "qty_of b (o_order_id newer) = o_quantity newer"
    using wf_lookup [OF wf0] by (simp_all add: qty_of_Some roster_def)
  note l1 = stp_cut_log [OF lo pos(2) c1 acc n q(1)]
  have "qty_of (match_stp bid ask bn n b) = (qty_of b)(o_order_id older := ol, o_order_id newer := nl)"
    using k1(7) stp_cut_ok(7) [OF w1 vn ln c2] by (simp add: eq)
  with stp_cut_log [OF ln pos(1) c2 l1 n] q(2) ids show ?thesis by (simp add: eq)
qed

lemma match_fill_log:
  assumes wf: "wf_with b [bid, ask]" and ready: "ready False b bid" "ready False b ask"
    and res: "match_fill bp ap bid ask bn (b, fills, updates) = (b', fills', updates')"
    and acc: "accounts Q (qty_of b) fills (stp_events (b_stp b))"
  shows "accounts Q (qty_of b') fills' (stp_events (b_stp b'))"
proof -
  define t where "t = min (visible b bid) (visible b ask)"
  note vb = ready_visible [OF ready(1)] and va = ready_visible [OF ready(2)]
  have t: "0 < t" "t \<le> visible b bid" "t \<le> visible b ask" "t \<le> o_quantity bid" "t \<le> o_quantity ask"
    using vb va by (auto simp: t_def)
  define bid' where "bid' = bid\<lparr>o_quantity := o_quantity bid - t\<rparr>"
  define ask' where "ask' = ask\<lparr>o_quantity := o_quantity ask - t\<rparr>"
  define b1 where "b1 = sync_visible_fill bid' t (visible b bid - t) b"
  define b2 where "b2 = sync_visible_fill ask' t (visible b ask - t) b1"
  define f where "f = fill_report bp ap bid ask bn t"
  define b3 where "b3 = fst (replenish bid' b2)"
  define b4 where "b4 = fst (replenish ask' b3)"
  define rb where "rb = (snd (replenish bid' b2) \<noteq> None)"
  define ra where "ra = (snd (replenish ask' b3) \<noteq> None)"
  define b6 where "b6 = (let b5 = (if rb then log_refresh (length fills) (o_order_id bid') (visible b4 bid') b4 else b4)
    in if ra then log_refresh (length fills) (o_order_id ask') (visible b5 ask') b5 else b5)"
  have "\<exists>u. match_fill bp ap bid ask bn (b, fills, updates) = (requeue ask' ra (requeue bid' rb b6), fills @ [f], u)"
    using t by (simp add: match_fill_def fill_report_def Let_def t_def [symmetric] bid'_def [symmetric] ask'_def [symmetric]
        b1_def [symmetric] b2_def [symmetric] f_def b6_def rb_def ra_def b4_def b3_def split: prod.split)
  then have b': "b' = requeue ask' ra (requeue bid' rb b6)" and fs: "fills' = fills @ [f]" using res by auto
  have s6: "same_book b4 b6" unfolding b6_def Let_def by (simp add: same_book_log_step)
  have look: "b_order_lookup b' = b_order_lookup b2" using s6 by (simp add: b' same_book_def b4_def b3_def)
  have stp: "b_stp b' = b_stp b"
    by (simp add: b' b6_def b4_def b3_def b2_def b1_def log_refresh_def Let_def split: option.split)
  have qb: "qty_of b2 = (qty_of b)(o_order_id bid := o_quantity bid - t, o_order_id ask := o_quantity ask - t)"
    by (rule evolves_fill2(2) [OF wf t(4,5) bid'_def ask'_def b1_def b2_def, where f = f]; simp add: f_def fill_report_def)
  have ids: "o_order_id ask \<noteq> o_order_id bid" using wf_inflight_fresh [OF wf, of ask] by simp
  have q: "qty_of b (o_order_id bid) = o_quantity bid" "qty_of b (o_order_id ask) = o_quantity ask"
    using wf_lookup [OF wf] by (simp_all add: qty_of_Some roster_def)
  have qb': "qty_of b' = qty_of b2" by (simp add: fun_eq_iff qty_of_def look)
  show ?thesis
    unfolding fs stp
    by (rule accounts_fill [OF acc]) (use t q ids in \<open>auto simp: qb' qb f_def fill_report_def replay1.simps\<close>)
qed

lemma match_step_log:
  assumes wf: "wf_book b" and cr: "crossed b" and res: "match_step ag (b, fills, updates) = Some (b', fills', updates')"
    and acc: "accounts Q (qty_of b) fills (stp_events (b_stp b))"
  shows "accounts Q (qty_of b') fills' (stp_events (b_stp b'))"
proof -
  obtain bid ask b2 where step: "match_step ag (b, fills, updates) = do {
       bid_newer \<leftarrow> is_bid_newer ag bid ask b2;
       if (if bid_newer then self_match bid ask else self_match ask bid)
       then Some (match_stp bid ask bid_newer (length fills) b2, fills, updates)
       else Some (match_fill (o_price bid) (o_price ask) bid ask bid_newer (b2, fills, updates)) }"
    and w2: "wf_with b2 [bid, ask]" and ready: "ready False b2 bid" "ready False b2 ask"
    and sides: "o_side bid = Buy" "o_side ask = Sell"
    and fields: "b_order_lookup b2 = b_order_lookup b" "b_stp b2 = b_stp b"
    by (rule match_pop [OF wf cr]) blast
  have "qty_of b2 = qty_of b" by (simp add: fun_eq_iff qty_of_def fields)
  with acc have acc2: "accounts Q (qty_of b2) fills (stp_events (b_stp b2))" by (simp add: fields)
  have "is_bid_newer ag bid ask b2 \<noteq> None" using res unfolding step by (cases "is_bid_newer ag bid ask b2") simp_all
  then obtain bn where bn: "is_bid_newer ag bid ask b2 = Some bn" by blast
  have res': "(if (if bn then self_match bid ask else self_match ask bid)
       then Some (match_stp bid ask bn (length fills) b2, fills, updates)
       else Some (match_fill (o_price bid) (o_price ask) bid ask bn (b2, fills, updates))) = Some (b', fills', updates')"
    using res unfolding step bn by simp
  show ?thesis
  proof (cases "if bn then self_match bid ask else self_match ask bid")
    case True
    from res' have "b' = match_stp bid ask bn (length fills) b2" "fills' = fills" unfolding if_P [OF True] by auto
    with match_stp_log [OF w2 ready sides acc2 refl] show ?thesis by simp
  next
    case False
    from res' have "match_fill (o_price bid) (o_price ask) bid ask bn (b2, fills, updates) = (b', fills', updates')"
      unfolding if_not_P [OF False] by simp
    from match_fill_log [OF w2 ready this acc2] show ?thesis .
  qed
qed

lemma match_orders_log:
  assumes wf: "wf_book b" and res: "match_orders b = Some (b', fills, updates)"
  shows "accounts (qty_of b) (qty_of b') fills (stp_events (b_stp b'))"
proof -
  let ?b = "b\<lparr>b_stp := stp_outcome_default\<rparr>" and ?K = "\<lambda>(c, fs, _). accounts (qty_of b) (qty_of c) fs (stp_events (b_stp c))"
  have "match_inv ?b (?b, [], [])"
    using wf same_book_simps(1) [OF same_book_stp] by (simp add: match_inv_def evolves_refl wf_book_def)
  moreover have "qty_of ?b = qty_of b" by (simp add: fun_eq_iff qty_of_def)
  then have "?K (?b, [], [])" by (simp add: accounts_refl stp_outcome_default_def)
  moreover have "?K t" if "match_inv ?b s" "(\<lambda>(b, _). crossed b) s" "?K s" "match_step (b_last_added ?b) s = Some t" for s t
    using that match_step_log by (cases s; cases t) (auto simp: match_inv_def)
  ultimately have "?K (b', fills, updates)"
    using res by (intro matching.keeps [of "b_last_added ?b" "(?b, [], [])" "(b', fills, updates)" ?b ?K])
      (simp_all add: match_orders_def Let_def)
  then show ?thesis by simp
qed


section \<open>Aggressive orders\<close>

text \<open>The open quantities while an aggressor sweeps the book.\<close>

definition sweep_qty :: "order \<Rightarrow> order_book \<Rightarrow> sweep \<Rightarrow> string \<Rightarrow> nat" where
  "sweep_qty a b sw = (qty_of b)(o_order_id a := if sw_stopped sw then 0 else sw_remaining sw)"

lemma level_fill_log:
  assumes inv: "level_inv sd p b (tp # level)" and live: "sweep_live sw"
    and out: "map_of (b_order_lookup b) (o_order_id a) = None"
    and res: "level_fill a p tp (b, level, sw) = (b', level', sw')"
    and acc: "accounts Q (sweep_qty a b sw) (sw_fills sw) (stp_events (b_stp b))"
  shows "accounts Q (sweep_qty a b' sw') (sw_fills sw') (stp_events (b_stp b'))"
proof -
  define t where "t = min (visible b tp) (sw_remaining sw)"
  define tp' where "tp' = tp\<lparr>o_quantity := o_quantity tp - t\<rparr>"
  define b1 where "b1 = sync_visible_fill tp' t (visible b tp - t) b"
  define f where "f = sweep_report a tp' p t (sw_remaining sw - t)"
  from inv have w: "wf_with b (tp # level)" and vis: "vis_ok b tp" by (simp_all add: level_inv_def)
  from live have pos: "0 < sw_remaining sw" and ns: "\<not> sw_stopped sw" by (simp_all add: sweep_live_def)
  note v = vis_visible [OF vis]
  have t: "0 < t" "t \<le> o_quantity tp" "t \<le> sw_remaining sw" using v pos by (auto simp: t_def)
  note shape = level_fill_shape [OF t(2) t_def tp'_def b1_def res, folded f_def]
  have ids: "{x_buy_order_id f, x_sell_order_id f} = {o_order_id tp, o_order_id a}" "x_trade_quantity f = t"
    by (auto simp: f_def sweep_report_def tp'_def)
  have q: "qty_of b' = (qty_of b)(o_order_id tp := o_quantity tp - t)"
    using evolves_fill1(2) [OF w t(2) tp'_def b1_def ids singletonI out] shape(1)
    by (simp add: fun_eq_iff qty_of_def same_book_def)
  have look: "map_of (b_order_lookup b) (o_order_id tp) = Some tp" using wf_lookup [OF w] by (simp add: roster_def)
  then have qtp: "qty_of b (o_order_id tp) = o_quantity tp" and ne: "o_order_id tp \<noteq> o_order_id a"
    using out by (auto simp: qty_of_Some)
  have apart: "x_buy_order_id f \<noteq> x_sell_order_id f" using ids(1) ne by auto
  have on: "oid = x_buy_order_id f \<or> oid = x_sell_order_id f \<longleftrightarrow> oid = o_order_id tp \<or> oid = o_order_id a" for oid
    using ids(1) by blast
  show ?thesis
    unfolding shape(2,6)
  proof (rule accounts_fill [OF acc])
    show "replay1 oid (LFill f) (sweep_qty a b sw oid) = Some (sweep_qty a b' sw' oid)" for oid
      using t ns qtp ne apart by (auto simp: replay1.simps on ids(2) sweep_qty_def q shape(4,5))
  qed
qed

lemma level_stp_event:
  assumes left: "stp_left (stp_mode (o_stp a)) (sw_remaining sw) (o_quantity tp) = (aleft, tleft)"
    and le: "aleft \<le> sw_remaining sw" "tleft \<le> o_quantity tp" and price: "o_price tp = p"
    and cut: "stp_cut (stp_mode (o_stp a)) (o_order_id tp) (o_order_id a) (length (sw_fills sw)) tp tleft b = (tp', b1)"
    and e: "e = \<lparr>e_opposing_order = o_order_id tp', e_order_id = o_order_id a,
      e_action = (if aleft = 0 then Canceled else Restated (sw_remaining sw - aleft)), e_mode = stp_mode (o_stp a),
      e_before_fill = length (sw_fills sw)\<rparr>"
  shows "level_stp a p tp (b, level, sw) =
      (if aleft = sw_remaining sw \<and> aleft \<noteq> 0 then b1 else push_stp_event e b1, alive tp' @ level,
       if aleft = 0 then sw\<lparr>sw_stopped := True\<rparr> else sw\<lparr>sw_remaining := aleft\<rparr>)"
proof -
  have sub: "sub_u32 (sw_remaining sw) aleft = sw_remaining sw - aleft" "sub_u32 (o_quantity tp) tleft = o_quantity tp - tleft"
    using le by simp_all
  have al: "(if 0 < o_quantity tp' then tp' # level else level) = alive tp' @ level" for tp'
    by (simp add: alive_def)
  have same: "aleft = sw_remaining sw \<Longrightarrow> sw\<lparr>sw_remaining := aleft\<rparr> = sw" by simp
  show ?thesis
    using cut le same by (auto simp: level_stp_def stp_cut_def Let_def left sub price al e)
qed

lemma level_stp_log:
  assumes inv: "level_inv sd p b (tp # level)" and live: "sweep_live sw"
    and out: "map_of (b_order_lookup b) (o_order_id a) = None"
    and res: "level_stp a p tp (b, level, sw) = (b', level', sw')"
    and acc: "accounts Q (sweep_qty a b sw) (sw_fills sw) (stp_events (b_stp b))"
  shows "accounts Q (sweep_qty a b' sw') (sw_fills sw') (stp_events (b_stp b'))"
proof -
  from inv have w: "wf_with b (tp # level)" and vis: "vis_ok b tp" and price: "o_price tp = p"
    by (simp_all add: level_inv_def)
  obtain al tl' where left: "stp_left (stp_mode (o_stp a)) (sw_remaining sw) (o_quantity tp) = (al, tl')" by fastforce
  obtain tp' b1 where cut: "stp_cut (stp_mode (o_stp a)) (o_order_id tp) (o_order_id a) (length (sw_fills sw)) tp tl' b = (tp', b1)"
    by fastforce
  from stp_left_bound [OF left] have le: "al \<le> sw_remaining sw" "tl' \<le> o_quantity tp" by simp_all
  have pos: "0 < sw_remaining sw" "0 < o_quantity tp" and ns: "\<not> sw_stopped sw"
    using live wf_quantity [OF w, of tp] by (simp_all add: sweep_live_def roster_def)
  define e where "e = \<lparr>e_opposing_order = o_order_id tp', e_order_id = o_order_id a,
      e_action = (if al = 0 then Canceled else Restated (sw_remaining sw - al)), e_mode = stp_mode (o_stp a),
      e_before_fill = length (sw_fills sw)\<rparr>"
  from level_stp_event [OF left le price cut e_def, of level] res
  have b': "b' = (if al = sw_remaining sw \<and> al \<noteq> 0 then b1 else push_stp_event e b1)"
    and sw': "sw' = (if al = 0 then sw\<lparr>sw_stopped := True\<rparr> else sw\<lparr>sw_remaining := al\<rparr>)"
    by simp_all
  have look: "map_of (b_order_lookup b) (o_order_id tp) = Some tp" using wf_lookup [OF w] by (simp add: roster_def)
  then have ne: "o_order_id tp \<noteq> o_order_id a" and R: "sweep_qty a b sw (o_order_id tp) = o_quantity tp"
    using out by (auto simp: sweep_qty_def qty_of_Some)
  have q1: "qty_of b1 = (qty_of b)(o_order_id tp := tl')" by (rule stp_cut_ok(7) [OF w vis le(2) cut])
  have qb: "qty_of b' = qty_of b1" by (simp add: b' same_book_simps(9) [OF same_book_push(1)])
  have q2: "(sweep_qty a b sw)(o_order_id tp := tl') = sweep_qty a b1 sw"
    using ne by (simp add: sweep_qty_def q1 fun_upd_twist)
  note a1 = stp_cut_log [OF le(2) pos(2) cut acc refl R, unfolded q2]
  show ?thesis
  proof (cases "al = sw_remaining sw \<and> al \<noteq> 0")
    case True
    with a1 show ?thesis by (simp add: b' sw')
  next
    case False
    then have ev: "stp_events (b_stp b') = stp_events (b_stp b1) @ [e]" "sw_fills sw' = sw_fills sw"
      by (simp_all add: b' sw' push_stp_event_def)
    show ?thesis
      unfolding ev
      by (rule accounts_stp [OF a1])
        (use False le pos ns in \<open>auto simp: e_def replay1.simps sweep_qty_def sw' qb\<close>)
  qed
qed

definition sweep_log :: "order \<Rightarrow> (string \<Rightarrow> nat) \<Rightarrow> order_book \<Rightarrow> sweep \<Rightarrow> bool" where
  "sweep_log a Q b sw \<longleftrightarrow> accounts Q (sweep_qty a b sw) (sw_fills sw) (stp_events (b_stp b))"

lemma level_step_log:
  assumes inv: "lvl_inv a p b0 L F m (b, level, sw)" and out: "map_of (b_order_lookup b0) (o_order_id a) = None"
    and live: "sweep_live sw" and res: "level_step a p (b, level, sw) = Some (b', level', sw')" and log: "sweep_log a Q b sw"
  shows "sweep_log a Q b' sw'"
proof -
  obtain tp rest where l: "level = tp # rest" using res by (cases level) simp_all
  from inv have li: "level_inv (opposite (o_side a)) p b (tp # rest)" and ev: "evolves {o_order_id a} b0 b (sw_fills sw)"
    by (simp_all add: lvl_inv_def sweep_acc_def l)
  note o = evolves_out [OF ev out]
  from log have acc: "accounts Q (sweep_qty a b sw) (sw_fills sw) (stp_events (b_stp b))" by (simp add: sweep_log_def)
  show ?thesis
  proof (cases "self_match a tp")
    case True
    with res have "level_stp a p tp (b, rest, sw) = (b', level', sw')" by (simp add: l)
    from level_stp_log [OF li live o this acc] show ?thesis by (simp add: sweep_log_def)
  next
    case False
    with res have "level_fill a p tp (b, rest, sw) = (b', level', sw')" by (simp add: l)
    from level_fill_log [OF li live o this acc] show ?thesis by (simp add: sweep_log_def)
  qed
qed

lemma sweep_log_levels: "sweep_log a Q (set_levels sd l b) sw = sweep_log a Q b sw"
proof -
  have "qty_of (set_levels sd l b) = qty_of b" by (simp add: fun_eq_iff qty_of_def)
  then show ?thesis by (simp add: sweep_log_def sweep_qty_def)
qed

lemma fill_level_log:
  assumes wf: "wf_book b" and acc: "sweep_acc a b0 b sw" and out: "map_of (b_order_lookup b0) (o_order_id a) = None"
    and log: "sweep_log a Q b sw" and res: "fill_level a p (b, sw) = Some (b', sw')"
  shows "sweep_log a Q b' sw'"
proof -
  let ?sd = "opposite (o_side a)"
  let ?b1 = "set_levels ?sd (bt_remove p (side_levels ?sd b)) b"
  let ?s = "(?b1, level_of (side_levels ?sd b) p, sw)" and ?K = "\<lambda>(c, _, sw). sweep_log a Q c sw"
  note inv = lvl_inv_start(1) [OF wf acc refl, of p]
  from res obtain b2 level' where
    loop: "loop_while (\<lambda>(_, level, sw). sweep_live sw \<and> level \<noteq> []) (level_step a p) ?s = Some (b2, level', sw')"
    and b': "b' = (if level' \<noteq> [] then set_levels ?sd (bt_insert p level' (side_levels ?sd b2)) b2 else b2)"
    by (auto simp: fill_level_def Let_def split: Option.bind_splits if_splits)
  have "?K (b2, level', sw')"
  proof (rule level_loop.keeps [OF loop, where K = ?K])
    show "map_of (b_order_lookup b0) (o_order_id a) = None \<and>
        lvl_inv a p b0 (\<lambda>sd'. side_levels sd' ?b1) (sw_fills sw) (sweep_meas b sw) ?s"
      using inv out by simp
    show "?K ?s" using log by (simp add: sweep_log_levels)
    show "?K t" if "map_of (b_order_lookup b0) (o_order_id a) = None \<and>
        lvl_inv a p b0 (\<lambda>sd'. side_levels sd' ?b1) (sw_fills sw) (sweep_meas b sw) s"
      "(\<lambda>(_, level, sw). sweep_live sw \<and> level \<noteq> []) s" "?K s" "level_step a p s = Some t" for s t
      using that by (cases s; cases t) (auto intro: level_step_log)
  qed
  then show ?thesis by (simp add: b' sweep_log_levels)
qed


lemma sweep_step_log:
  assumes inv: "sweep_inv a lim b0 (b, sw)" and log: "sweep_log a Q b sw" and res: "sweep_step a (b, sw) = Some (b', sw')"
  shows "sweep_log a Q b' sw'"
  using res inv by (auto simp: sweep_step_def sweep_inv_def split: bind_splits intro: fill_level_log [OF _ _ _ log])

lemma sweep_log_start: "stp_events (b_stp b) = [] \<Longrightarrow> sweep_log a ((qty_of b)(o_order_id a := o_quantity a)) b (sweep_new a)"
  by (simp add: sweep_log_def sweep_new_def sweep_qty_def accounts_refl)

lemma sweep_log_finish:
  "sweep_log a Q b sw \<Longrightarrow>
   accounts Q ((qty_of b)(o_order_id a := ag_unfilled_qty (sweep_finish sw))) (ag_fills (sweep_finish sw)) (stp_events (b_stp b))"
  by (simp add: sweep_log_def sweep_finish_def sweep_qty_def)

lemma execute_market_log:
  assumes wf: "wf_book b" and out: "map_of (b_order_lookup b) (o_order_id a) = None" and clean: "stp_events (b_stp b) = []"
    and res: "execute_market a b = Some (b', res)"
  shows "accounts ((qty_of b)(o_order_id a := o_quantity a)) ((qty_of b')(o_order_id a := ag_unfilled_qty res))
    (ag_fills res) (stp_events (b_stp b'))"
proof -
  define Q where "Q = (qty_of b)(o_order_id a := o_quantity a)"
  have start: "sweep_log a Q b (sweep_new a)" unfolding Q_def by (rule sweep_log_start [OF clean])
  from res obtain sw where loop: "loop_while (\<lambda>(b, sw). sweep_live sw \<and> best_opposite a b \<noteq> None) (sweep_step a) (b, sweep_new a) = Some (b', sw)"
    and fin: "res = sweep_finish sw"
    by (auto simp: execute_market_def split: bind_splits)
  have "(\<lambda>(c, sw). sweep_log a Q c sw) (b', sw)"
    by (rule market_loop.keeps [OF loop sweep_inv_start [OF wf out]])
      (auto simp: start intro: sweep_step_log)
  then show ?thesis by (simp add: fin sweep_log_finish Q_def [symmetric])
qed

lemma execute_ioc_log:
  assumes wf: "wf_book b" and out: "map_of (b_order_lookup b) (o_order_id a) = None" and clean: "stp_events (b_stp b) = []"
    and res: "execute_ioc a b = Some (b', res)"
  shows "accounts ((qty_of b)(o_order_id a := o_quantity a)) ((qty_of b')(o_order_id a := ag_unfilled_qty res))
    (ag_fills res) (stp_events (b_stp b'))"
proof -
  define Q where "Q = (qty_of b)(o_order_id a := o_quantity a)"
  have start: "sweep_log a Q b (sweep_new a)" unfolding Q_def by (rule sweep_log_start [OF clean])
  from res obtain sw where loop: "loop_while (\<lambda>(b, sw). sweep_live sw \<and>
       (case best_opposite a b of None \<Rightarrow> False | Some price \<Rightarrow> crosses_limit (o_side a) (o_price a) price))
       (sweep_step a) (b, sweep_new a) = Some (b', sw)"
    and fin: "res = sweep_finish sw"
    by (auto simp: execute_ioc_def split: bind_splits)
  have "(\<lambda>(c, sw). sweep_log a Q c sw) (b', sw)"
    by (rule ioc_loop.keeps [OF loop sweep_inv_start [OF wf out]])
      (auto simp: start intro: sweep_step_log)
  then show ?thesis by (simp add: fin sweep_log_finish Q_def [symmetric])
qed

lemma execute_fok_log:
  assumes wf: "wf_book b" and out: "map_of (b_order_lookup b) (o_order_id a) = None" and clean: "stp_events (b_stp b) = []"
    and pos: "0 < o_quantity a" and res: "execute_fok a b = Some (b', res)"
  shows "accounts ((qty_of b)(o_order_id a := o_quantity a)) ((qty_of b')(o_order_id a := ag_unfilled_qty res))
    (ag_fills res) (stp_events (b_stp b'))"
proof -
  obtain av r where scan: "fok_scan a b (o_quantity a) 0 (crossing_orders a b) = (av, r)" by fastforce
  show ?thesis
  proof (cases r)
    case (Some oid)
    define e where "e = \<lparr>e_opposing_order = oid, e_order_id = o_order_id a, e_action = Canceled,
      e_mode = stp_mode (o_stp a), e_before_fill = 0\<rparr>"
    from res scan Some have b': "b' = push_stp_event e b" and r: "ag_fills res = []" "ag_unfilled_qty res = 0"
      by (auto simp: execute_fok_def Let_def e_def)
    have ev: "stp_events (b_stp b') = [] @ [e]" using clean by (simp add: b' push_stp_event_def)
    have q: "qty_of b' = qty_of b" by (simp add: b' same_book_simps(9) [OF same_book_push(1)])
    show ?thesis
      unfolding ev r q by (rule accounts_stp [OF accounts_refl]) (use pos in \<open>auto simp: e_def replay1.simps\<close>)
  next
    case None
    show ?thesis
    proof (cases "av < o_quantity a")
      case True
      with res scan None clean show ?thesis by (auto simp: execute_fok_def Let_def accounts_refl)
    next
      case False
      with res scan None obtain res' where ioc: "execute_ioc a b = Some (b', res')" and r: "res = res'\<lparr>ag_rest_on_book := False\<rparr>"
        by (auto simp: execute_fok_def Let_def split: bind_splits)
      from execute_ioc_log [OF wf out clean ioc] show ?thesis by (simp add: r)
    qed
  qed
qed

lemma process_aggressive_log:
  assumes wf: "wf_book b" and out: "map_of (b_order_lookup b) (o_order_id a) = None" and clean: "stp_events (b_stp b) = []"
    and pos: "0 < o_quantity a" and res: "process_aggressive a b = Some (b', res)"
  shows "accounts ((qty_of b)(o_order_id a := o_quantity a)) ((qty_of b')(o_order_id a := ag_unfilled_qty res))
    (ag_fills res) (stp_events (b_stp b'))"
proof -
  have limit: "accounts ((qty_of b)(o_order_id x := o_quantity x)) ((qty_of b')(o_order_id x := ag_unfilled_qty res))
    (ag_fills res) (stp_events (b_stp b'))"
    if "o_order_id x = o_order_id a" "o_quantity x = o_quantity a" "process_limit x b = Some (b', res)" for x
  proof -
    from that out pos have x: "map_of (b_order_lookup b) (o_order_id x) = None" "0 < o_quantity x" by simp_all
    show ?thesis
      using that(3) execute_ioc_log [OF wf x(1) clean, of b' res] execute_fok_log [OF wf x(1) clean x(2), of b' res] clean
      by (cases "o_time_in_force x") (auto simp: process_limit_def rest_result_def accounts_refl)
  qed
  show ?thesis
    using res execute_market_log [OF wf out clean, of b' res] limit [of a] limit [of "a\<lparr>o_order_type := Limit\<rparr>"]
    by (cases "o_order_type a") (simp_all add: process_aggressive_def)
qed

lemma process_aggressive_stp:
  assumes "process_aggressive a b = Some (b', res)" and "ag_stp_canceled res"
  shows "ag_unfilled_qty res = 0"
proof -
  have sweep: "ag_unfilled_qty (sweep_finish sw) = 0" if "ag_stp_canceled (sweep_finish sw)" for sw
    using that by (simp add: sweep_finish_def)
  have market: "ag_unfilled_qty res = 0" if "execute_market a b = Some (b', res)"
    using that assms(2) sweep by (auto simp: execute_market_def split: bind_splits)
  have ioc: "ag_unfilled_qty r = 0" if "execute_ioc a b = Some (b', r)" "ag_stp_canceled r" for a r
    using that sweep by (auto simp: execute_ioc_def split: bind_splits)
  have fok: "ag_unfilled_qty res = 0" if "execute_fok a b = Some (b', res)" for a
    using that assms(2) ioc [of a]
    by (auto simp: execute_fok_def Let_def split: bind_splits option.splits prod.splits if_splits)
  have limit: "ag_unfilled_qty res = 0" if "process_limit a b = Some (b', res)" for a
    using that assms(2) ioc [of a res] fok [of a]
    by (cases "o_time_in_force a") (auto simp: process_limit_def rest_result_def)
  show ?thesis
    using assms(1) market limit by (cases "o_order_type a") (auto simp: process_aggressive_def)
qed

section \<open>Executions\<close>

lemma absorb_stp_log:
  assumes "absorb_stp base (b, out) = (b', out')"
  shows "ex_stp out' = ex_stp out @ map (\<lambda>e. e\<lparr>e_before_fill := e_before_fill e + base\<rparr>) (stp_events (b_stp b))"
    and "stp_events (b_stp b') = []"
  using assms by (auto simp: absorb_stp_def Let_def stp_outcome_default_def split: option.splits)

lemma match_into_log:
  assumes wf: "wf_book b" and res: "match_into (b, out) = Some (b', out')"
  shows "\<exists>fs es. ex_fills out' = ex_fills out @ fs \<and>
    ex_stp out' = ex_stp out @ map (\<lambda>e. e\<lparr>e_before_fill := e_before_fill e + length (ex_fills out)\<rparr>) es \<and>
    ex_cancels out' = ex_cancels out \<and> accounts (qty_of b) (qty_of b') fs es \<and> stp_events (b_stp b') = []"
proof -
  from res obtain b1 fs ups out1 where m: "match_orders b = Some (b1, fs, ups)"
    and a: "absorb_stp (length (ex_fills out)) (b1, out) = (b', out1)"
    and o: "out' = out1\<lparr>ex_fills := ex_fills out1 @ fs, ex_fill_updates := ex_fill_updates out1 @ ups\<rparr>"
    by (auto simp: match_into_def Let_def split: bind_splits prod.splits)
  from match_orders_log [OF wf m] have "accounts (qty_of b) (qty_of b') fs (stp_events (b_stp b1))"
    by (simp add: same_book_simps(9) [OF absorb_stp_ok(1) [OF a]])
  with absorb_stp_log [OF a] absorb_stp_ok(2,4) [OF a] show ?thesis
    by (intro exI [of _ fs] exI [of _ "stp_events (b_stp b1)"]) (simp add: o)
qed


text \<open>
  \<open>traces b a q b' out out' u\<close>: what an execution appends to its output explains how the open quantities change
  from the book and the incoming order to the new book and the quantity \<open>u\<close> that is canceled.
\<close>

definition traces :: "order_book \<Rightarrow> string \<Rightarrow> nat \<Rightarrow> order_book \<Rightarrow> execution \<Rightarrow> execution \<Rightarrow> nat \<Rightarrow> bool" where
  "traces b oid q b' out out' u \<longleftrightarrow>
     (\<exists>fs es. ex_fills out' = ex_fills out @ fs \<and>
        ex_stp out' = ex_stp out @ map (\<lambda>e. e\<lparr>e_before_fill := e_before_fill e + length (ex_fills out)\<rparr>) es \<and>
        accounts ((qty_of b)(oid := q)) (\<lambda>y. qty_of b' y + (if y = oid then u else 0)) fs es) \<and>
     ex_cancels out' = ex_cancels out @ (if u = 0 then [] else [oid]) \<and>
     (u = 0 \<or> qty_of b' oid = 0) \<and> stp_events (b_stp b') = []"

lemma execute_into_trace:
  assumes wf: "wf_book b" and out: "o_order_id a \<notin> book_ids b" and q: "0 < o_quantity a" "o_quantity a < 4294967296"
    and clean: "stp_events (b_stp b) = []" and res: "execute_into a (b, out0) = Some (b', out', r)"
  shows "\<exists>u. traces b (o_order_id a) (o_quantity a) b' out0 out' u"
proof -
  define ord where "ord = a\<lparr>o_order_type := triggered_type (o_order_type a)\<rparr>"
  have ord: "o_order_id ord = o_order_id a" "o_quantity ord = o_quantity a" by (simp_all add: ord_def)
  have none: "map_of (b_order_lookup b) (o_order_id ord) = None" using out by (auto simp: book_ids_def ord)
  from process_aggressive_ok [OF wf none] obtain b1 ag where
    p: "process_aggressive ord b = Some (b1, ag)" and w1: "wf_book b1" and ev: "evolves {o_order_id ord} b b1 (ag_fills ag)"
    and le: "traded (ag_fills ag) (o_order_id a) + ag_unfilled_qty ag \<le> o_quantity a"
    unfolding ord by blast
  obtain b2 out1 where ab: "absorb_stp (length (ex_fills out0)) (b1, out0) = (b2, out1)" by fastforce
  note k = absorb_stp_ok [OF ab] and l = absorb_stp_log [OF ab]
  have w2: "wf_book b2" using w1 by (simp add: wf_book_def same_book_simps [OF k(1)])
  have q12: "qty_of b2 = qty_of b1" by (simp add: same_book_simps(9) [OF k(1)])
  from process_aggressive_log [OF wf none clean _ p] q(1)
  have acc: "accounts ((qty_of b)(o_order_id a := o_quantity a)) ((qty_of b2)(o_order_id a := ag_unfilled_qty ag))
      (ag_fills ag) (stp_events (b_stp b1))"
    by (simp add: ord q12)
  have "book_ids b2 \<subseteq> book_ids b" using evolves_ids [OF ev] same_book_ids [OF k(1)] by simp
  then have new2: "map_of (b_order_lookup b2) (o_order_id a) = None" using out by (auto simp: book_ids_def)
  then have zero: "qty_of b2 (o_order_id a) = 0" by (simp add: qty_of_None)
  define out2 where "out2 = out1\<lparr>ex_fills := ex_fills out1 @ ag_fills ag, ex_fill_updates := ex_fill_updates out1 @ ag_fill_updates ag\<rparr>"
  have o2: "ex_fills out2 = ex_fills out0 @ ag_fills ag" "ex_cancels out2 = ex_cancels out0" "ex_stp out2 = ex_stp out1"
    by (simp_all add: out2_def k)
  have p': "process_aggressive (a\<lparr>o_order_type := triggered_type (o_order_type a)\<rparr>) b = Some (b1, ag)"
    using p by (simp add: ord_def)
  have split: "(\<lambda>y. qty_of b2 y + (if y = o_order_id a then u else 0)) = (qty_of b2)(o_order_id a := u)" for u
    using zero by (simp add: fun_eq_iff)
  show ?thesis
  proof (cases "ag_stp_canceled ag \<or> ag_unfilled_qty ag = 0 \<or> \<not> ag_rest_on_book ag")
    case True
    have canceled: "ag_unfilled_qty ag = 0" if "ag_stp_canceled ag" using process_aggressive_stp [OF p that] .
    from True res canceled have "b' = b2" "ex_fills out' = ex_fills out2" "ex_stp out' = ex_stp out2"
      "ex_cancels out' = ex_cancels out2 @ (if ag_unfilled_qty ag = 0 then [] else [o_order_id a])"
      by (auto simp: execute_into_def p' ab Let_def out2_def split: if_splits)
    then have "traces b (o_order_id a) (o_quantity a) b' out0 out' (ag_unfilled_qty ag)"
      using acc l o2 zero unfolding traces_def by (auto simp: split)
    then show ?thesis ..
  next
    case False
    define x where "x = ord\<lparr>o_quantity := ag_unfilled_qty ag\<rparr>"
    have x: "o_order_id x = o_order_id a" "o_quantity x = ag_unfilled_qty ag" by (simp_all add: x_def ord)
    obtain b3 md where add: "add_order x b2 = (b3, md)" by fastforce
    have "wf_book (fst (add_order x b2))"
      by (rule wf_book_add_order [OF w2]) (use new2 False le q x in simp_all)
    with add have w3: "wf_book b3" by simp
    have "map_of (b_order_lookup b3) = (map_of (b_order_lookup b2))(o_order_id a \<mapsto> x)"
      using add_order_lookup [of x b2] add x by simp
    then have q3: "qty_of b3 = (qty_of b2)(o_order_id a := ag_unfilled_qty ag)" by (simp add: fun_eq_iff qty_of_def x)
    let ?out = "out2\<lparr>ex_rested := ex_rested out2 @ [md]\<rparr>"
    from False res add have mi: "match_into (b3, ?out) = Some (b', out')"
      by (auto simp: execute_into_def p' ab Let_def x_def [unfolded ord_def] out2_def split: bind_splits)
    from match_into_log [OF w3 mi] obtain fs es where f: "ex_fills out' = ex_fills out2 @ fs"
      "ex_stp out' = ex_stp out2 @ map (\<lambda>e. e\<lparr>e_before_fill := e_before_fill e + length (ex_fills out2)\<rparr>) es"
      "ex_cancels out' = ex_cancels out2" and acc2: "accounts (qty_of b3) (qty_of b') fs es" and c': "stp_events (b_stp b') = []"
      by auto
    from accounts_trans [OF acc acc2 [unfolded q3]] have
      "traces b (o_order_id a) (o_quantity a) b' out0 out' 0"
      unfolding traces_def using f o2 l c'
      by (intro conjI exI [of _ "ag_fills ag @ fs"] exI [of _ "stp_events (b_stp b1) @ map (\<lambda>e. e\<lparr>e_before_fill := e_before_fill e + length (ag_fills ag)\<rparr>) es"])
        (simp_all add: k comp_def ac_simps)
    then show ?thesis ..
  qed
qed


section \<open>Orders outside the book\<close>

text \<open>An order with nothing open occurs in no event of a log that fits, so its quantity may be set aside.\<close>

lemma replay_zero:
  "replay oid xs 0 = Some m \<Longrightarrow> m = 0 \<and> replay oid xs n = Some n"
proof (induction xs arbitrary: m)
  case (Cons x xs)
  have "\<exists>k. replay1 oid x 0 = Some k" using Cons.prems by (cases "replay1 oid x 0") simp_all
  then have "replay1 oid x 0 = Some 0 \<and> replay1 oid x n = Some n"
    by (cases x) (auto simp: replay1.simps split: if_splits stp_action.splits)
  with Cons show ?case by simp
qed simp

lemma accounts_zero: "accounts Q Q' fs es \<Longrightarrow> Q y = 0 \<Longrightarrow> Q' y = 0"
  unfolding accounts_def using replay_zero by metis

lemma accounts_frame:
  assumes "accounts Q Q' fs es" and "\<And>y. Q y = 0 \<or> P y = 0"
  shows "accounts (\<lambda>y. Q y + P y) (\<lambda>y. Q' y + P y) fs es"
proof -
  have "replay y (merge_log 0 fs es) (Q y + P y) = Some (Q' y + P y)" for y
  proof -
    have r: "replay y (merge_log 0 fs es) (Q y) = Some (Q' y)" using assms(1) by (simp add: accounts_def)
    show ?thesis
    proof (cases "Q y = 0")
      case True
      with r replay_zero [of y "merge_log 0 fs es" "Q' y" "P y"] show ?thesis by simp
    next
      case False
      with assms(2) [of y] r show ?thesis by simp
    qed
  qed
  with assms(1) show ?thesis by (simp add: accounts_def)
qed

text \<open>
  \<open>logged Q b rest out\<close>: from the open quantities \<open>Q\<close>, the log of the execution leads to the book, the orders held
  elsewhere (\<open>rest\<close>) and what the execution cancels. An order is open in at most one place.
\<close>

definition logged :: "(string \<Rightarrow> nat) \<Rightarrow> order_book \<Rightarrow> (string \<Rightarrow> nat) \<Rightarrow> execution \<Rightarrow> bool" where
  "logged Q b rest out \<longleftrightarrow>
     (\<exists>X. accounts Q (\<lambda>y. qty_of b y + rest y + X y) (ex_fills out) (ex_stp out) \<and>
        (\<forall>y. y \<in> set (ex_cancels out) \<longleftrightarrow> 0 < X y) \<and>
        (\<forall>y. X y = 0 \<or> qty_of b y + rest y = 0)) \<and>
     (\<forall>y. qty_of b y = 0 \<or> rest y = 0) \<and> stp_events (b_stp b) = []"

lemma execute_into_logged:
  assumes log: "logged Q b (rest(o_order_id a := o_quantity a)) out" and free: "rest (o_order_id a) = 0"
    and wf: "wf_book b" and new: "o_order_id a \<notin> book_ids b" and q: "0 < o_quantity a" "o_quantity a < 4294967296"
    and res: "execute_into a (b, out) = Some (b', out', r)"
  shows "logged Q b' rest out'"
proof -
  let ?a = "o_order_id a"
  from log obtain X where acc: "accounts Q (\<lambda>y. qty_of b y + (rest(?a := o_quantity a)) y + X y) (ex_fills out) (ex_stp out)"
    and X: "\<And>y. y \<in> set (ex_cancels out) \<longleftrightarrow> 0 < X y" "\<And>y. X y = 0 \<or> qty_of b y + (rest(?a := o_quantity a)) y = 0"
    and apart: "\<And>y. qty_of b y = 0 \<or> (rest(?a := o_quantity a)) y = 0" and clean: "stp_events (b_stp b) = []"
    unfolding logged_def by blast
  from execute_into_trace [OF wf new q clean res] obtain u where "traces b ?a (o_quantity a) b' out out' u" ..
  then obtain fs es where o': "ex_fills out' = ex_fills out @ fs"
      "ex_stp out' = ex_stp out @ map (\<lambda>e. e\<lparr>e_before_fill := e_before_fill e + length (ex_fills out)\<rparr>) es"
      "ex_cancels out' = ex_cancels out @ (if u = 0 then [] else [?a])"
    and acc2: "accounts ((qty_of b)(?a := o_quantity a)) (\<lambda>y. qty_of b' y + (if y = ?a then u else 0)) fs es"
    and u: "u = 0 \<or> qty_of b' ?a = 0" and clean': "stp_events (b_stp b') = []"
    unfolding traces_def by blast
  have qa: "qty_of b ?a = 0" and Xa: "X ?a = 0" using apart [of ?a] X(2) [of ?a] q(1) by auto
  define X' where "X' = X(?a := u)"
  have frame: "((qty_of b)(?a := o_quantity a)) y = 0 \<or> rest y + X y = 0" for y
    using apart [of y] X(2) [of y] free Xa by (cases "y = ?a") auto
  have "accounts (\<lambda>y. ((qty_of b)(?a := o_quantity a)) y + (rest y + X y))
      (\<lambda>y. (qty_of b' y + (if y = ?a then u else 0)) + (rest y + X y)) fs es"
    by (rule accounts_frame [OF acc2 frame])
  also have "(\<lambda>y. ((qty_of b)(?a := o_quantity a)) y + (rest y + X y)) = (\<lambda>y. qty_of b y + (rest(?a := o_quantity a)) y + X y)"
    using qa free by (auto simp: fun_eq_iff)
  also have "(\<lambda>y. (qty_of b' y + (if y = ?a then u else 0)) + (rest y + X y)) = (\<lambda>y. qty_of b' y + rest y + X' y)"
    using Xa by (auto simp: fun_eq_iff X'_def)
  finally have "accounts Q (\<lambda>y. qty_of b' y + rest y + X' y) (ex_fills out') (ex_stp out')"
    unfolding o' by (rule accounts_trans [OF acc])
  moreover have zero: "qty_of b' y = 0" if "qty_of b y = 0" "y \<noteq> ?a" for y
    using accounts_zero [OF acc2, of y] that by simp
  have "X' y = 0 \<or> qty_of b' y + rest y = 0" "qty_of b' y = 0 \<or> rest y = 0" for y
    using zero [of y] apart [of y] X(2) [of y] u free by (auto simp: X'_def split: if_splits)
  moreover have "y \<in> set (ex_cancels out') \<longleftrightarrow> 0 < X' y" for y
    using X(1) [of y] Xa by (simp add: o' X'_def)
  ultimately show ?thesis unfolding logged_def using clean' by blast
qed

section \<open>The cascade\<close>

text \<open>The quantity a list of orders has open under an identifier.\<close>

definition open_qty :: "order list \<Rightarrow> string \<Rightarrow> nat" where
  "open_qty xs y = sum_list (map o_quantity (filter (\<lambda>x. o_order_id x = y) xs))"

lemma open_qty_Cons:
  assumes "o_order_id x \<notin> o_order_id ` set xs"
  shows "open_qty (x # xs) = (open_qty xs)(o_order_id x := o_quantity x)" and "open_qty xs (o_order_id x) = 0"
proof -
  have "filter (\<lambda>z. o_order_id z = o_order_id x) xs = []" using assms unfolding filter_empty_conv by (metis imageI)
  then show "open_qty (x # xs) = (open_qty xs)(o_order_id x := o_quantity x)" "open_qty xs (o_order_id x) = 0"
    by (auto simp: open_qty_def fun_eq_iff)
qed

lemma open_qty_mset: "mset xs = mset ys \<Longrightarrow> open_qty xs = open_qty ys"
proof -
  assume "mset xs = mset ys"
  then have "mset (map o_quantity (filter (\<lambda>x. o_order_id x = y) xs)) = mset (map o_quantity (filter (\<lambda>x. o_order_id x = y) ys))" for y
    by simp
  then have "sum_mset (mset (map o_quantity (filter (\<lambda>x. o_order_id x = y) xs))) =
      sum_mset (mset (map o_quantity (filter (\<lambda>x. o_order_id x = y) ys)))" for y
    by (rule arg_cong)
  then show "open_qty xs = open_qty ys" by (simp only: open_qty_def fun_eq_iff sum_mset_sum_list simp_thms)
qed

definition cascade_log :: "(string \<Rightarrow> nat) \<Rightarrow> (string \<Rightarrow> nat) \<Rightarrow> cascade \<Rightarrow> bool" where
  "cascade_log Q rest c \<longleftrightarrow>
     logged Q (c_book c) (\<lambda>y. rest y + open_qty (waiting c) y) (c_out c) \<and>
     (\<forall>x \<in> set (waiting c). 0 < o_quantity x \<and> rest (o_order_id x) = 0)"

lemma cascade_scan_log:
  assumes "cascade_inv U P n c" and "cascade_log Q rest c"
  shows "cascade_log Q rest (cascade_scan c)"
proof -
  note k = cascade_scan_ok [OF assms(1)]
  have "set (waiting (cascade_scan c)) = set (waiting c)" using k(3) by (rule mset_eq_setD)
  with assms(2) open_qty_mset [OF k(3)] k(4,5) show ?thesis by (simp add: cascade_log_def)
qed

lemma cascade_fire_log:
  assumes inv: "cascade_inv U P n c" and log: "cascade_log Q rest c" and res: "cascade_fire c = Some c'"
  shows "cascade_log Q rest c'"
proof -
  obtain stop pending where q: "c_queue c = stop # pending"
    using res by (cases "c_queue c") (simp_all add: cascade_fire_def)
  define out1 where "out1 = (let out = c_out c; o1 = (if b_refresh_log (c_book c) \<noteq> None
      then out\<lparr>ex_trigger_points := ex_trigger_points out @
        [(length (ex_fills out), o_order_id stop, ''trade price crossed stop'')]\<rparr> else out)
    in o1\<lparr>ex_triggered := ex_triggered o1 @ [o_order_id stop]\<rparr>)"
  from res obtain b' out2 r where ex: "execute_into stop (c_book c, out1) = Some (b', out2, r)"
    and c': "c' = c\<lparr>c_book := b', c_out := out2, c_queue := pending\<rparr>"
    by (auto simp: cascade_fire_def q out1_def Let_def split: bind_splits)
  let ?w = "pending @ s_parked (c_stops c)"
  have w: "waiting c = stop # ?w" "waiting c' = ?w" by (simp_all add: waiting_def q c')
  with inv have wf: "wf_book (c_book c)" and new: "o_order_id stop \<notin> book_ids (c_book c)" and qs: "o_quantity stop < 4294967296"
    and ns: "o_order_id stop \<notin> o_order_id ` set ?w"
    by (auto simp: cascade_inv_def)
  note oq = open_qty_Cons [OF ns]
  have pos: "0 < o_quantity stop" and free: "rest (o_order_id stop) = 0" using log by (simp_all add: cascade_log_def w)
  have "logged Q (c_book c) (\<lambda>y. rest y + open_qty (waiting c) y) out1"
    using log by (simp add: cascade_log_def logged_def out1_def Let_def)
  also have "(\<lambda>y. rest y + open_qty (waiting c) y) = (\<lambda>y. rest y + open_qty ?w y)(o_order_id stop := o_quantity stop)"
    using free by (auto simp: w oq)
  finally have l: "logged Q (c_book c) ((\<lambda>y. rest y + open_qty ?w y)(o_order_id stop := o_quantity stop)) out1" .
  have "logged Q b' (\<lambda>y. rest y + open_qty ?w y) out2"
    by (rule execute_into_logged [OF l _ wf new pos qs ex]) (simp add: free oq)
  with log show ?thesis by (simp add: cascade_log_def w) (simp add: c')
qed

lemma run_stop_cascade_logged:
  assumes log: "logged Q b (\<lambda>y. rest y + open_qty (s_parked stops) y) out"
    and wf: "wf_book b" and ids: "distinct (map o_order_id (s_parked stops))"
    and new: "\<And>x. x \<in> set (s_parked stops) \<Longrightarrow> o_order_id x \<notin> book_ids b \<and> 0 < o_quantity x \<and> o_quantity x < 4294967296 \<and> rest (o_order_id x) = 0"
    and res: "run_stop_cascade (b, stops, ltp, out) = Some (b', stops', ltp', out')"
  shows "logged Q b' (\<lambda>y. rest y + open_qty (s_parked stops') y) out'"
proof -
  let ?P = "mset (map o_order_id (s_parked stops))" and ?n = "length (ex_triggered out)"
  define c0 where "c0 = \<lparr>c_book = b, c_stops = stops, c_last_trade_price = ltp, c_out = out, c_scanned = 0, c_queue = []\<rparr>"
  have i0: "cascade_inv (\<not> crossed b) ?P ?n c0"
    using wf ids new by (simp add: cascade_inv_def waiting_def c0_def)
  note k = cascade_scan_ok [OF i0]
  have l0: "cascade_log Q rest c0" using log new by (simp add: cascade_log_def waiting_def c0_def)
  from res obtain c where loop: "loop_while (\<lambda>c. c_queue c \<noteq> []) cascade_step (cascade_scan c0) = Some c"
    and c: "b' = c_book c" "stops' = c_stops c" "out' = c_out c"
    by (auto simp: run_stop_cascade_def c0_def)
  have "cascade_log Q rest c"
  proof (rule cascade_loop.keeps [OF loop, of "\<not> crossed b" ?P ?n "cascade_log Q rest"])
    show "cascade_log Q rest t" if "cascade_inv (\<not> crossed b) ?P ?n s \<and> c_scanned s = length (ex_fills (c_out s))"
      "c_queue s \<noteq> []" "cascade_log Q rest s" "cascade_step s = Some t" for s t
    proof -
      from cascade_fire_ok [of "\<not> crossed b" ?P ?n s] that obtain s1 where
        f: "cascade_fire s = Some s1" "cascade_inv (\<not> crossed b) ?P ?n s1" by blast
      from cascade_fire_log [OF _ that(3) f(1)] that(1) have "cascade_log Q rest s1" by blast
      from cascade_scan_log [OF f(2) this] that(4) f(1) show ?thesis by (simp add: cascade_step_def)
    qed
  qed (use k cascade_scan_log [OF i0 l0] in auto)
  moreover from cascade_loop.result [OF loop, of "\<not> crossed b" ?P ?n] k(1,2) have "c_queue c = []" by blast
  ultimately show ?thesis by (simp add: cascade_log_def waiting_def c)
qed


section \<open>Terms of orders\<close>

text \<open>
  A property of the orders in the book that does not depend on their quantity, such as their owner or their type: an execution
  keeps it, when the orders that may come to rest have it. Market orders never rest.
\<close>

definition book_all :: "(string \<Rightarrow> order \<Rightarrow> bool) \<Rightarrow> order_book \<Rightarrow> bool" where
  "book_all P b \<longleftrightarrow> (\<forall>y x. map_of (b_order_lookup b) y = Some x \<longrightarrow> P y x)"

definition terms :: "(string \<Rightarrow> order \<Rightarrow> bool) \<Rightarrow> bool" where
  "terms P \<longleftrightarrow> (\<forall>y x q. P y (x\<lparr>o_quantity := q\<rparr>) = P y x)"

definition may_rest :: "(string \<Rightarrow> order \<Rightarrow> bool) \<Rightarrow> order \<Rightarrow> bool" where
  "may_rest P a \<longleftrightarrow>
     (triggered_type (o_order_type a) \<noteq> Market \<longrightarrow> P (o_order_id a) (a\<lparr>o_order_type := triggered_type (o_order_type a)\<rparr>))"

lemma book_all_evolves:
  assumes P: "terms P" and ev: "evolves A b b' fs" and all: "book_all P b"
  shows "book_all P b'"
proof (unfold book_all_def, intro allI impI)
  fix y x
  assume x: "map_of (b_order_lookup b') y = Some x"
  from ev x obtain w q where w: "map_of (b_order_lookup b) y = Some w" and q: "x = w\<lparr>o_quantity := q\<rparr>"
    unfolding evolves_def by blast
  from all w have "P y w" by (simp add: book_all_def)
  with P show "P y x" by (simp add: q terms_def)
qed

lemma book_all_same: "same_book b b' \<Longrightarrow> book_all P b' = book_all P b"
  by (simp add: same_book_def book_all_def)

lemma book_all_match_into:
  assumes P: "terms P" and wf: "wf_book b" and all: "book_all P b" and res: "match_into (b, out) = Some (b', out')"
  shows "book_all P b'"
proof -
  from res obtain b1 fs ups out1 where m: "match_orders b = Some (b1, fs, ups)"
    and a: "absorb_stp (length (ex_fills out)) (b1, out) = (b', out1)"
    by (auto simp: match_into_def Let_def split: bind_splits prod.splits)
  from match_orders_correct [OF wf] obtain c gs us where c: "match_orders b = Some (c, gs, us)"
    "evolves {} (b\<lparr>b_stp := stp_outcome_default\<rparr>) c gs"
    by blast
  have "book_all P (b\<lparr>b_stp := stp_outcome_default\<rparr>)" using all by (simp add: book_all_def)
  from book_all_evolves [OF P c(2) this] c(1) m have "book_all P b1" by simp
  then show ?thesis by (simp add: book_all_same [OF absorb_stp_ok(1) [OF a]])
qed

lemma book_all_add_order: "book_all P b \<Longrightarrow> P (o_order_id x) x \<Longrightarrow> book_all P (fst (add_order x b))"
  by (simp add: book_all_def add_order_lookup)

lemma process_aggressive_rests:
  assumes "process_aggressive a b = Some (b', res)" and "ag_rest_on_book res"
  shows "o_order_type a \<noteq> Market"
  using assms by (auto simp: process_aggressive_def execute_market_def sweep_finish_def split: bind_splits)

lemma book_all_execute_into:
  assumes P: "terms P" and wf: "wf_book b" and out: "o_order_id a \<notin> book_ids b" and q: "o_quantity a < 4294967296"
    and all: "book_all P b" "may_rest P a" and res: "execute_into a (b, out0) = Some (b', out', r)"
  shows "book_all P b'"
proof -
  define ord where "ord = a\<lparr>o_order_type := triggered_type (o_order_type a)\<rparr>"
  have ord: "o_order_id ord = o_order_id a" "o_quantity ord = o_quantity a" by (simp_all add: ord_def)
  have none: "map_of (b_order_lookup b) (o_order_id ord) = None" using out by (auto simp: book_ids_def ord)
  from process_aggressive_ok [OF wf none] obtain b1 ag where
    p: "process_aggressive ord b = Some (b1, ag)" and w1: "wf_book b1" and ev: "evolves {o_order_id ord} b b1 (ag_fills ag)"
    and le: "traded (ag_fills ag) (o_order_id a) + ag_unfilled_qty ag \<le> o_quantity a"
    unfolding ord by blast
  obtain b2 out1 where ab: "absorb_stp (length (ex_fills out0)) (b1, out0) = (b2, out1)" by fastforce
  note k = absorb_stp_ok [OF ab]
  have w2: "wf_book b2" using w1 by (simp add: wf_book_def same_book_simps [OF k(1)])
  have o2: "book_all P b2" using book_all_evolves [OF P ev all(1)] by (simp add: book_all_same [OF k(1)])
  have "book_ids b2 \<subseteq> book_ids b" using evolves_ids [OF ev] same_book_ids [OF k(1)] by simp
  then have new2: "map_of (b_order_lookup b2) (o_order_id a) = None" using out by (auto simp: book_ids_def)
  have p': "process_aggressive (a\<lparr>o_order_type := triggered_type (o_order_type a)\<rparr>) b = Some (b1, ag)"
    using p by (simp add: ord_def)
  show ?thesis
  proof (cases "ag_stp_canceled ag \<or> ag_unfilled_qty ag = 0 \<or> \<not> ag_rest_on_book ag")
    case True
    with res have "b' = b2" by (auto simp: execute_into_def p' ab Let_def split: if_splits)
    with o2 show ?thesis by simp
  next
    case False
    define x where "x = ord\<lparr>o_quantity := ag_unfilled_qty ag\<rparr>"
    have x: "o_order_id x = o_order_id a" "o_quantity x = ag_unfilled_qty ag" by (simp_all add: x_def ord)
    have "triggered_type (o_order_type a) \<noteq> Market"
      using process_aggressive_rests [OF p] False by (simp add: ord_def)
    then have Px: "P (o_order_id x) x" using all(2) P by (simp add: may_rest_def x_def ord_def terms_def)
    obtain b3 md where add: "add_order x b2 = (b3, md)" by fastforce
    have "wf_book (fst (add_order x b2))"
      by (rule wf_book_add_order [OF w2]) (use new2 False le q x in simp_all)
    moreover have "book_all P (fst (add_order x b2))" by (rule book_all_add_order [OF o2 Px])
    moreover from False res add obtain out2 where "match_into (b3, out2) = Some (b', out')"
      by (auto simp: execute_into_def p' ab Let_def x_def [unfolded ord_def] split: bind_splits)
    ultimately show ?thesis using add by (auto intro: book_all_match_into [OF P])
  qed
qed

lemma cascade_fire_all:
  assumes P: "terms P" and inv: "cascade_inv U M n c" and all: "book_all P (c_book c)" "\<forall>x \<in> set (waiting c). may_rest P x"
    and res: "cascade_fire c = Some c'"
  shows "book_all P (c_book c') \<and> (\<forall>x \<in> set (waiting c'). may_rest P x)"
proof -
  obtain stop pending where q: "c_queue c = stop # pending"
    using res by (cases "c_queue c") (simp_all add: cascade_fire_def)
  from res obtain out1 b' out2 r where ex: "execute_into stop (c_book c, out1) = Some (b', out2, r)"
    and c': "c' = c\<lparr>c_book := b', c_out := out2, c_queue := pending\<rparr>"
    by (auto simp: cascade_fire_def q Let_def split: bind_splits)
  have w: "waiting c = stop # pending @ s_parked (c_stops c)" "waiting c' = pending @ s_parked (c_stops c)"
    by (simp_all add: waiting_def q c')
  with inv have "wf_book (c_book c)" "o_order_id stop \<notin> book_ids (c_book c)" "o_quantity stop < 4294967296"
    by (auto simp: cascade_inv_def)
  from book_all_execute_into [OF P this all(1) _ ex] all(2) w have "book_all P b'" by simp
  with all(2) w show ?thesis by (simp add: c')
qed

lemma run_stop_cascade_all:
  assumes P: "terms P" and all: "book_all P b" "\<forall>x \<in> set (s_parked stops). may_rest P x"
    and wf: "wf_book b" and ids: "distinct (map o_order_id (s_parked stops))"
    and new: "\<And>x. x \<in> set (s_parked stops) \<Longrightarrow> o_order_id x \<notin> book_ids b \<and> o_quantity x < 4294967296"
    and res: "run_stop_cascade (b, stops, ltp, out) = Some (b', stops', ltp', out')"
  shows "book_all P b'"
proof -
  let ?M = "mset (map o_order_id (s_parked stops))" and ?n = "length (ex_triggered out)"
  let ?K = "\<lambda>c. book_all P (c_book c) \<and> (\<forall>x \<in> set (waiting c). may_rest P x)"
  define c0 where "c0 = \<lparr>c_book = b, c_stops = stops, c_last_trade_price = ltp, c_out = out, c_scanned = 0, c_queue = []\<rparr>"
  have i0: "cascade_inv (\<not> crossed b) ?M ?n c0"
    using wf ids new by (simp add: cascade_inv_def waiting_def c0_def)
  have scan: "?K (cascade_scan c)" if "cascade_inv (\<not> crossed b) ?M ?n c" "?K c" for c
    using that cascade_scan_ok(3,5) [OF that(1)] by (auto dest: mset_eq_setD)
  have k0: "?K c0" using all by (simp add: c0_def waiting_def)
  from res obtain c where loop: "loop_while (\<lambda>c. c_queue c \<noteq> []) cascade_step (cascade_scan c0) = Some c" and c: "b' = c_book c"
    by (auto simp: run_stop_cascade_def c0_def)
  have "?K c"
  proof (rule cascade_loop.keeps [OF loop, of "\<not> crossed b" ?M ?n ?K])
    show "?K t" if "cascade_inv (\<not> crossed b) ?M ?n s \<and> c_scanned s = length (ex_fills (c_out s))"
      "c_queue s \<noteq> []" "?K s" "cascade_step s = Some t" for s t
    proof -
      from cascade_fire_ok [of "\<not> crossed b" ?M ?n s] that obtain s1 where
        f: "cascade_fire s = Some s1" "cascade_inv (\<not> crossed b) ?M ?n s1" by blast
      from cascade_fire_all [OF P _ _ _ f(1), of "\<not> crossed b" ?M ?n] that(1,3) have "?K s1" by blast
      from scan [OF f(2) this] that(4) f(1) show ?thesis by (simp add: cascade_step_def)
    qed
  qed (use cascade_scan_ok(1,2) [OF i0] scan [OF i0 k0] in auto)
  then show ?thesis by (simp add: c)
qed

section \<open>The log explains the book\<close>

lemma logged_start:
  assumes wf: "wf_book b" and clean: "stp_events (b_stp b) = []" and apart: "\<And>y. qty_of b y = 0 \<or> rest y = 0"
    and out: "ex_fills out = []" "ex_stp out = []" "ex_cancels out = []"
  shows "logged (\<lambda>y. qty_of b y + rest y) b rest out"
  unfolding logged_def using assms by (intro conjI exI [of _ "\<lambda>_. 0"]) (simp_all add: accounts_refl)

lemma qty_of_outside: "y \<notin> book_ids b \<Longrightarrow> qty_of b y = 0"
  by (simp add: book_ids_def qty_of_def domIff)

lemma open_qty_absent: "y \<notin> o_order_id ` set xs \<Longrightarrow> open_qty xs y = 0"
  unfolding open_qty_def by (simp add: filter_empty_conv image_iff) metis

lemma open_apart:
  assumes "\<And>x. x \<in> set xs \<Longrightarrow> o_order_id x \<notin> book_ids b"
  shows "qty_of b y = 0 \<or> open_qty xs y = 0"
  using assms qty_of_outside [of y b] open_qty_absent [of y xs] by (cases "y \<in> o_order_id ` set xs") auto

lemma open_qty_append: "open_qty (xs @ ys) y = open_qty xs y + open_qty ys y"
  by (simp add: open_qty_def)

lemma execution_logged:
  assumes wf: "wf_book b" and clean: "stp_events (b_stp b) = []"
    and out: "\<And>x. x \<in> set (a # s_parked stops @ xs) \<Longrightarrow> o_order_id x \<notin> book_ids b \<and> 0 < o_quantity x \<and> o_quantity x < 4294967296"
    and ids: "distinct (map o_order_id (a # s_parked stops @ xs))"
    and start: "ex_fills out0 = []" "ex_stp out0 = []" "ex_cancels out0 = []"
    and ex: "execute_into a (b, out0) = Some (b1, out1, r)"
  shows "logged (\<lambda>y. qty_of b y + open_qty (a # s_parked stops @ xs) y) b1 (open_qty (s_parked stops @ xs)) out1"
proof -
  let ?rest = "open_qty (s_parked stops @ xs)"
  have fresh: "o_order_id a \<notin> o_order_id ` set (s_parked stops @ xs)" using ids by auto
  note oq = open_qty_Cons [OF fresh]
  from out [of a] have new: "o_order_id a \<notin> book_ids b" and q: "0 < o_quantity a" "o_quantity a < 4294967296" by simp_all
  have "logged (\<lambda>y. qty_of b y + open_qty (a # s_parked stops @ xs) y) b (open_qty (a # s_parked stops @ xs)) out0"
    using out by (intro logged_start [OF wf clean _ start] open_apart) auto
  then have l: "logged (\<lambda>y. qty_of b y + open_qty (a # s_parked stops @ xs) y) b (?rest(o_order_id a := o_quantity a)) out0"
    by (simp only: oq)
  show ?thesis by (rule execute_into_logged [OF l oq(2) wf new q ex])
qed


lemma distinct_head: "distinct (map f (a # xs)) \<Longrightarrow> x \<in> set xs \<Longrightarrow> f x \<noteq> f a"
  by (metis distinct.simps(2) imageI list.simps(9) set_map)

lemma cascade_logged:
  assumes log: "logged Q b (open_qty (s_parked stops @ xs)) out" and wf: "wf_book b"
    and ids: "distinct (map o_order_id (s_parked stops @ xs))"
    and new: "\<And>x. x \<in> set (s_parked stops) \<Longrightarrow> o_order_id x \<notin> book_ids b \<and> 0 < o_quantity x \<and> o_quantity x < 4294967296"
    and res: "run_stop_cascade (b, stops, ltp, out) = Some (b', stops', ltp', out')"
  shows "logged Q b' (open_qty (s_parked stops' @ xs)) out'"
proof -
  have eq: "open_qty (s_parked s @ xs) = (\<lambda>y. open_qty xs y + open_qty (s_parked s) y)" for s
    by (simp add: fun_eq_iff open_qty_append)
  have "open_qty xs (o_order_id x) = 0" if "x \<in> set (s_parked stops)" for x
    using ids that by (intro open_qty_absent) auto
  with run_stop_cascade_logged [OF log [unfolded eq] wf _ _ res] ids new show ?thesis by (simp add: eq)
qed

text \<open>
  C25. The fills and self-trade events of an execution, merged in the order in which they happened, are an exact account of
  the order book: replayed from the open quantity that any order had before the incoming order, in the book, parked as a
  stop or as the incoming order itself, no event exceeds what is open and the end is the open quantity the order has
  in the book or among the stops afterwards; what the execution lists as canceled is exactly what is left over elsewhere.
\<close>

theorem execution_log_exact:
  assumes "wf_book b" and "stp_events (b_stp b) = []" and "distinct (map o_order_id (a # s_parked stops))"
    and "list_all (\<lambda>x. o_order_id x \<notin> book_ids b \<and> 0 < o_quantity x \<and> o_quantity x < 2 ^ 32) (a # s_parked stops)"
  shows "\<exists>b1 out1 rested b' stops' ltp' out'. execute_into a (b, execution_default) = Some (b1, out1, rested) \<and>
    run_stop_cascade (b1, stops, ltp, out1) = Some (b', stops', ltp', out') \<and>
    (\<forall>y. \<exists>left. replay y (merge_log 0 (ex_fills out') (ex_stp out')) (qty_of b y + open_qty (a # s_parked stops) y) =
           Some (qty_of b' y + open_qty (s_parked stops') y + left) \<and>
       (y \<in> set (ex_cancels out') \<longleftrightarrow> 0 < left) \<and> (left = 0 \<or> qty_of b' y + open_qty (s_parked stops') y = 0))"
proof -
  have each: "o_order_id x \<notin> book_ids b \<and> 0 < o_quantity x \<and> o_quantity x < 4294967296" if "x \<in> set (a # s_parked stops)" for x
    using assms(4) that by (auto simp: list_all_iff)
  from execute_into_ok [OF assms(1), of a execution_default] each [of a] obtain b1 out1 r where
    ex: "execute_into a (b, execution_default) = Some (b1, out1, r)" and w1: "wf_book b1"
    and ids1: "book_ids b1 \<subseteq> insert (o_order_id a) (book_ids b)"
    by auto
  have new: "o_order_id x \<notin> book_ids b1 \<and> 0 < o_quantity x \<and> o_quantity x < 4294967296" if "x \<in> set (s_parked stops)" for x
    using ids1 each [of x] that distinct_head [OF assms(3) that] by auto
  have ds: "distinct (map o_order_id (s_parked stops))" using assms(3) by simp
  have "\<exists>b' stops' ltp' out'. run_stop_cascade (b1, stops, ltp, out1) = Some (b', stops', ltp', out')"
    using run_stop_cascade_ok [OF w1 ds, of ltp out1] new by blast
  then obtain b' stops' ltp' out' where ca: "run_stop_cascade (b1, stops, ltp, out1) = Some (b', stops', ltp', out')" by blast
  have l1: "logged (\<lambda>y. qty_of b y + open_qty (a # s_parked stops) y) b1 (open_qty (s_parked stops @ [])) out1"
    using execution_logged [OF assms(1,2), of a stops "[]" execution_default b1 out1 r] each assms(3) ex
    by (simp add: execution_default_def)
  have "logged (\<lambda>y. qty_of b y + open_qty (a # s_parked stops) y) b' (open_qty (s_parked stops')) out'"
    using cascade_logged [OF l1 w1 _ new ca] assms(3) by simp
  then obtain X where acc: "accounts (\<lambda>y. qty_of b y + open_qty (a # s_parked stops) y)
      (\<lambda>y. qty_of b' y + open_qty (s_parked stops') y + X y) (ex_fills out') (ex_stp out')"
    and X: "\<And>y. y \<in> set (ex_cancels out') \<longleftrightarrow> 0 < X y" "\<And>y. X y = 0 \<or> qty_of b' y + open_qty (s_parked stops') y = 0"
    unfolding logged_def by metis
  have "\<exists>left. replay y (merge_log 0 (ex_fills out') (ex_stp out')) (qty_of b y + open_qty (a # s_parked stops) y) =
           Some (qty_of b' y + open_qty (s_parked stops') y + left) \<and>
       (y \<in> set (ex_cancels out') \<longleftrightarrow> 0 < left) \<and> (left = 0 \<or> qty_of b' y + open_qty (s_parked stops') y = 0)" for y
    by (rule exI [of _ "X y"]) (intro conjI X, use acc in \<open>simp add: accounts_def\<close>)
  with ex ca show ?thesis by blast
qed

theorem execution_log_exact_witness:
  "\<exists>b1 out1 rested b' stops' ltp' out'.
    execute_into (sample_taker Limit GTC 4) (sample_book, execution_default) = Some (b1, out1, rested) \<and>
    run_stop_cascade (b1, sample_stops, None, out1) = Some (b', stops', ltp', out') \<and>
    (\<forall>y. \<exists>left. replay y (merge_log 0 (ex_fills out') (ex_stp out'))
             (qty_of sample_book y + open_qty (sample_taker Limit GTC 4 # s_parked sample_stops) y) =
           Some (qty_of b' y + open_qty (s_parked stops') y + left) \<and>
       (y \<in> set (ex_cancels out') \<longleftrightarrow> 0 < left) \<and> (left = 0 \<or> qty_of b' y + open_qty (s_parked stops') y = 0))"
proof -
  have "o_order_id (sample_taker Limit GTC 4) \<notin> book_ids sample_book"
    using sample_taker_fresh [of Limit GTC 4] by (simp add: book_ids_def domIff)
  moreover have "o_order_id (sample_taker Limit GTC 4) = ''T1''" "o_quantity (sample_taker Limit GTC 4) = 4"
    by (simp_all add: sample_taker_def sample_order_def)
  moreover have "0 < o_quantity sample_stop" by (simp add: sample_stop_def sample_order_def)
  ultimately show ?thesis
    using sample_stops_facts wf_sample_book sample_book_stp
    by (intro execution_log_exact) (simp_all add: stp_outcome_default_def)
qed

end
