(* ===== verification/Fxp_Ledger.thy ===== *)
theory Fxp_Ledger
  imports Fxp_Trace Fxp_Reports
begin

text \<open>
  The order states of the engine as a ledger. Reporting an execution (\<^verbatim>\<open>report_execution\<close> of \<^verbatim>\<open>engine.rs\<close>) writes the log of
  \<^verbatim>\<open>Fxp_Trace\<close> into the states, event by event: what a state has left is what the log leaves open, and nothing else of the
  engine changes.
\<close>

section \<open>Order states\<close>

definition leaves_of :: "(string, 'r order_state) hashmap \<Rightarrow> string \<Rightarrow> nat" where
  "leaves_of S y = (case map_of S y of None \<Rightarrow> 0 | Some st \<Rightarrow> state_leaves st)"

definition states_ok :: "(string, 'r order_state) hashmap \<Rightarrow> bool" where
  "states_ok S \<longleftrightarrow> hm_ok S \<and>
     (\<forall>y st. map_of S y = Some st \<longrightarrow> 0 < state_leaves st \<and> st_order_qty st < 4294967296)"

text \<open>What never changes while an order is live.\<close>

definition same_terms :: "'r order_state \<Rightarrow> 'r order_state \<Rightarrow> bool" where
  "same_terms st st' \<longleftrightarrow>
     (\<exists>q c n. st' = st\<lparr>st_order_qty := q, st_cum_qty := c, st_notional := n\<rparr>)"

definition descends :: "(string, 'r order_state) hashmap \<Rightarrow> (string, 'r order_state) hashmap \<Rightarrow> bool" where
  "descends S S' \<longleftrightarrow> (\<forall>y st'. map_of S' y = Some st' \<longrightarrow> (\<exists>st. map_of S y = Some st \<and> same_terms st st'))"

lemma same_terms_refl: "same_terms st st"
proof -
  have "st = st\<lparr>st_order_qty := st_order_qty st, st_cum_qty := st_cum_qty st, st_notional := st_notional st\<rparr>" by simp
  then show ?thesis unfolding same_terms_def by blast
qed

lemma same_terms_trans: "same_terms a b \<Longrightarrow> same_terms b c \<Longrightarrow> same_terms a c"
  unfolding same_terms_def by force

lemma same_terms_fields:
  assumes "same_terms st st'"
  shows "st_sender st' = st_sender st" and "st_time_in_force st' = st_time_in_force st"
    and "st_expire_date st' = st_expire_date st" and "st_arrival st' = st_arrival st" and "st_side st' = st_side st"
  using assms by (auto simp: same_terms_def)

lemma descends_refl: "descends S S"
  unfolding descends_def using same_terms_refl by blast

lemma descends_trans: "descends S S1 \<Longrightarrow> descends S1 S2 \<Longrightarrow> descends S S2"
  unfolding descends_def using same_terms_trans by metis

lemma states_ok_insert:
  assumes "states_ok S" and "0 < state_leaves st" and "st_order_qty st < 4294967296"
  shows "states_ok (hm_insert y st S)" and "leaves_of (hm_insert y st S) = (leaves_of S)(y := state_leaves st)"
  using assms by (auto simp: states_ok_def leaves_of_def fun_eq_iff)

lemma states_ok_remove:
  assumes "states_ok S"
  shows "states_ok (hm_remove y S)" and "leaves_of (hm_remove y S) = (leaves_of S)(y := 0)" and "descends S (hm_remove y S)"
  using assms same_terms_refl by (auto simp: states_ok_def leaves_of_def fun_eq_iff descends_def split: if_splits)

lemma leaves_positive: "states_ok S \<Longrightarrow> 0 < leaves_of S y \<longleftrightarrow> map_of S y \<noteq> None"
  by (auto simp: states_ok_def leaves_of_def split: option.splits)

lemma leaves_of_Some: "map_of S y = Some st \<Longrightarrow> leaves_of S y = state_leaves st"
  by (simp add: leaves_of_def)

section \<open>The effect of one event\<close>

definition fill_state :: "int \<Rightarrow> nat \<Rightarrow> string \<Rightarrow> (string, 'r order_state) hashmap \<Rightarrow> (string, 'r order_state) hashmap" where
  "fill_state px qty oid S =
     (case map_of S oid of
        None \<Rightarrow> S
      | Some st \<Rightarrow>
          (let st' = st\<lparr>st_cum_qty := add_u32 (st_cum_qty st) qty, st_notional := st_notional st + px * int qty\<rparr>
           in if state_leaves st' = 0 then hm_remove oid S else hm_insert oid st' S))"

lemma apply_fill_states: "fst (snd (apply_fill ids S oid sb px qty ts)) = fill_state px qty oid S"
  by (simp add: apply_fill_def fill_state_def Let_def split: option.split prod.split)

definition stp_state :: "stp_event \<Rightarrow> (string, 'r order_state) hashmap \<Rightarrow> (string, 'r order_state) hashmap" where
  "stp_state ev S =
     (case map_of S (e_order_id ev) of
        None \<Rightarrow> S
      | Some st \<Rightarrow>
          (case e_action ev of
             Canceled \<Rightarrow> hm_remove (e_order_id ev) S
           | Restated by \<Rightarrow> hm_insert (e_order_id ev) (st\<lparr>st_order_qty := st_order_qty st - by\<rparr>) S))"

fun log_state :: "(string, 'r order_state) hashmap \<Rightarrow> log_event \<Rightarrow> (string, 'r order_state) hashmap" where
  "log_state S (LFill f) =
     fill_state (x_trade_price f) (x_trade_quantity f) (x_sell_order_id f)
       (fill_state (x_trade_price f) (x_trade_quantity f) (x_buy_order_id f) S)"
| "log_state S (LStp ev) = stp_state ev S"

lemma fill_state_descends: "descends S (fill_state px qty oid S)"
proof (cases "map_of S oid")
  case None
  then show ?thesis by (simp add: fill_state_def descends_refl)
next
  case (Some st)
  define st' where "st' = st\<lparr>st_cum_qty := add_u32 (st_cum_qty st) qty, st_notional := st_notional st + px * int qty\<rparr>"
  have "st' = st\<lparr>st_order_qty := st_order_qty st, st_cum_qty := add_u32 (st_cum_qty st) qty, st_notional := st_notional st + px * int qty\<rparr>"
    by (simp add: st'_def)
  then have "same_terms st st'" unfolding same_terms_def by blast
  with Some same_terms_refl show ?thesis
    by (auto simp: fill_state_def descends_def Let_def st'_def [symmetric] split: if_splits)
qed

lemma fill_state_ok:
  assumes ok: "states_ok S" and le: "qty \<le> leaves_of S oid" and pos: "0 < qty"
  shows "states_ok (fill_state px qty oid S)"
    and "leaves_of (fill_state px qty oid S) = (leaves_of S)(oid := leaves_of S oid - qty)"
    and "descends S (fill_state px qty oid S)"
proof -
  from leaves_positive [OF ok, of oid] le pos obtain st where st: "map_of S oid = Some st" by auto
  with ok have b: "0 < state_leaves st" "st_order_qty st < 4294967296" by (simp_all add: states_ok_def)
  have lv: "leaves_of S oid = state_leaves st" by (simp add: leaves_of_def st)
  define st' where "st' = st\<lparr>st_cum_qty := add_u32 (st_cum_qty st) qty, st_notional := st_notional st + px * int qty\<rparr>"
  have "st_cum_qty st + qty \<le> st_order_qty st" using le lv b(1) by (simp add: state_leaves_def)
  with b(2) have l': "state_leaves st' = state_leaves st - qty" by (simp add: st'_def state_leaves_def)
  have fs: "fill_state px qty oid S = (if state_leaves st - qty = 0 then hm_remove oid S else hm_insert oid st' S)"
    by (simp add: fill_state_def st Let_def st'_def [symmetric] l')
  have q': "st_order_qty st' < 4294967296" using b by (simp add: st'_def)
  show "states_ok (fill_state px qty oid S)"
    "leaves_of (fill_state px qty oid S) = (leaves_of S)(oid := leaves_of S oid - qty)"
    using states_ok_remove(1,2) [OF ok, of oid] states_ok_insert [OF ok _ q', of oid] by (simp_all add: fs l' lv)
  show "descends S (fill_state px qty oid S)" by (rule fill_state_descends)
qed

lemma stp_state_ok:
  assumes ok: "states_ok S" and rep: "\<And>y. replay1 y (LStp ev) (leaves_of S y) = Some (R y)"
  shows "states_ok (stp_state ev S)" and "leaves_of (stp_state ev S) = R" and "descends S (stp_state ev S)"
proof -
  let ?y = "e_order_id ev"
  have R: "R y = leaves_of S y" if "y \<noteq> ?y" for y using rep [of y] that by (simp add: replay1.simps)
  have ne: "0 < leaves_of S ?y" using rep [of ?y] by (auto simp: replay1.simps split: stp_action.splits if_splits)
  then obtain st where st: "map_of S ?y = Some st" using leaves_positive [OF ok, of ?y] by auto
  with ok have b: "0 < state_leaves st" "st_order_qty st < 4294967296" by (simp_all add: states_ok_def)
  have lv: "leaves_of S ?y = state_leaves st" by (simp add: leaves_of_def st)
  have "states_ok (stp_state ev S) \<and> leaves_of (stp_state ev S) = R \<and> descends S (stp_state ev S)"
  proof (cases "e_action ev")
    case Canceled
    then have "R ?y = 0" using rep [of ?y] ne by (simp add: replay1.simps)
    with R have "R = (leaves_of S)(?y := 0)" by (auto simp: fun_eq_iff)
    with states_ok_remove [OF ok, of ?y] show ?thesis by (simp add: stp_state_def st Canceled)
  next
    case (Restated k)
    then have k: "k < state_leaves st" and Ry: "R ?y = state_leaves st - k"
      using rep [of ?y] by (simp_all add: replay1.simps lv split: if_splits)
    let ?st = "st\<lparr>st_order_qty := st_order_qty st - k\<rparr>"
    have l': "state_leaves ?st = state_leaves st - k" using k by (simp add: state_leaves_def)
    have "?st = st\<lparr>st_order_qty := st_order_qty st - k, st_cum_qty := st_cum_qty st, st_notional := st_notional st\<rparr>" by simp
    then have same: "same_terms st ?st" unfolding same_terms_def by blast
    have d: "descends S (hm_insert ?y ?st S)" using st same same_terms_refl by (auto simp: descends_def)
    have "R = (leaves_of S)(?y := state_leaves ?st)" using R Ry l' by (auto simp: fun_eq_iff)
    moreover have "0 < state_leaves ?st" "st_order_qty ?st < 4294967296" using l' k b by simp_all
    ultimately show ?thesis using states_ok_insert [OF ok, of ?st ?y] d by (simp add: stp_state_def st Restated)
  qed
  then show "states_ok (stp_state ev S)" "leaves_of (stp_state ev S) = R" "descends S (stp_state ev S)" by blast+
qed

lemma log_state_ok:
  assumes ok: "states_ok S" and rep: "\<And>y. replay1 y ev (leaves_of S y) = Some (R y)"
  shows "states_ok (log_state S ev) \<and> leaves_of (log_state S ev) = R \<and> descends S (log_state S ev)"
proof (cases ev)
  case (LStp e)
  with stp_state_ok [OF ok, of e R] rep show ?thesis by simp
next
  case (LFill f)
  let ?p = "x_trade_price f" and ?q = "x_trade_quantity f" and ?b = "x_buy_order_id f" and ?s = "x_sell_order_id f"
  have f: "?b \<noteq> ?s" "0 < ?q" "?q \<le> leaves_of S ?b" "?q \<le> leaves_of S ?s"
    and R: "R y = (if y = ?b \<or> y = ?s then leaves_of S y - ?q else leaves_of S y)" for y
    using rep [of ?b] rep [of ?s] rep [of y] by (auto simp: LFill replay1.simps split: if_splits)
  note k1 = fill_state_ok [OF ok f(3,2), of ?p]
  have le: "?q \<le> leaves_of (fill_state ?p ?q ?b S) ?s" using f k1(2) by simp
  note k2 = fill_state_ok [OF k1(1) le f(2), of ?p]
  have "leaves_of (log_state S ev) = R" using k1(2) k2(2) f(1) by (auto simp: LFill R fun_eq_iff)
  then show ?thesis using k2(1) descends_trans [OF k1(3) k2(3)] by (simp add: LFill)
qed

lemma log_states_ok:
  assumes "states_ok S" and "\<And>y. replay y xs (leaves_of S y) = Some (R y)"
  shows "states_ok (foldl log_state S xs) \<and> leaves_of (foldl log_state S xs) = R \<and> descends S (foldl log_state S xs)"
  using assms
proof (induction xs arbitrary: S)
  case Nil
  then show ?case by (simp add: fun_eq_iff descends_refl)
next
  case (Cons x xs)
  define T where "T y = the (replay1 y x (leaves_of S y))" for y
  have T: "replay1 y x (leaves_of S y) = Some (T y)" "replay y xs (T y) = Some (R y)" for y
    using Cons.prems(2) [of y] by (cases "replay1 y x (leaves_of S y)"; simp add: T_def)+
  note k = log_state_ok [OF Cons.prems(1) T(1)]
  have "replay y xs (leaves_of (log_state S x) y) = Some (R y)" for y using k T(2) by simp
  from Cons.IH [OF _ this] k show ?case using descends_trans by auto
qed


section \<open>Reports change states, identifiers, diagnostics and the trade number only\<close>

definition reported :: "'r engine \<Rightarrow> 'r engine \<Rightarrow> bool" where
  "reported e e' \<longleftrightarrow>
     (\<exists>i S d t. e' = e\<lparr>en_ids := i, en_states := S, en_diagnostics := d, en_trade_seq := t\<rparr>)"

lemma reported_intro:
  "reported e (e\<lparr>en_ids := i\<rparr>)" "reported e (e\<lparr>en_states := S\<rparr>)" "reported e (e\<lparr>en_diagnostics := d\<rparr>)"
  "reported e (e\<lparr>en_trade_seq := t\<rparr>)" "reported e e"
proof -
  have "e\<lparr>en_ids := i\<rparr> = e\<lparr>en_ids := i, en_states := en_states e, en_diagnostics := en_diagnostics e, en_trade_seq := en_trade_seq e\<rparr>"
    "e\<lparr>en_states := S\<rparr> = e\<lparr>en_ids := en_ids e, en_states := S, en_diagnostics := en_diagnostics e, en_trade_seq := en_trade_seq e\<rparr>"
    "e\<lparr>en_diagnostics := d\<rparr> = e\<lparr>en_ids := en_ids e, en_states := en_states e, en_diagnostics := d, en_trade_seq := en_trade_seq e\<rparr>"
    "e\<lparr>en_trade_seq := t\<rparr> = e\<lparr>en_ids := en_ids e, en_states := en_states e, en_diagnostics := en_diagnostics e, en_trade_seq := t\<rparr>"
    "e = e\<lparr>en_ids := en_ids e, en_states := en_states e, en_diagnostics := en_diagnostics e, en_trade_seq := en_trade_seq e\<rparr>"
    by simp_all
  then show "reported e (e\<lparr>en_ids := i\<rparr>)" "reported e (e\<lparr>en_states := S\<rparr>)" "reported e (e\<lparr>en_diagnostics := d\<rparr>)"
    "reported e (e\<lparr>en_trade_seq := t\<rparr>)" "reported e e"
    unfolding reported_def by blast+
qed

lemma reported_trans: "reported a b \<Longrightarrow> reported b c \<Longrightarrow> reported a c"
  unfolding reported_def by force

lemma reported_fields:
  assumes "reported e e'"
  shows "en_symbol e' = en_symbol e" "en_book e' = en_book e" "en_stop_book e' = en_stop_book e"
    "en_last_trade_price e' = en_last_trade_price e" "en_clock e' = en_clock e" "en_schedule e' = en_schedule e"
    "en_call_until e' = en_call_until e" "en_last_seen e' = en_last_seen e" "en_next_arrival e' = en_next_arrival e"
    "en_phase e' = en_phase e" "en_call_markets e' = en_call_markets e" "en_held_close e' = en_held_close e"
    "en_stp_default e' = en_stp_default e" "en_symbol_rules e' = en_symbol_rules e" "en_last_indicative e' = en_last_indicative e"
    "en_status_history e' = en_status_history e" "en_terminal_history e' = en_terminal_history e"
  using assms by (auto simp: reported_def)

lemma emit_here_frame [simp]:
  "reported (fst r) (fst (emit_here d r))" "en_states (fst (emit_here d r)) = en_states (fst r)"
  "snd (emit_here d r) = snd r" "en_symbol (fst (emit_here d r)) = en_symbol (fst r)"
  by (auto simp: emit_here_def emit_def reported_intro split: prod.splits option.splits)

lemma send_report_frame [simp]:
  "reported (fst r) (fst (send_report tx oid st ev ts r))" "en_states (fst (send_report tx oid st ev ts r)) = en_states (fst r)"
  by (auto simp: send_report_def reported_intro Let_def split: prod.splits)

lemma send_reject_frame [simp]:
  "reported (fst r) (fst (send_reject tx oid req reason ts r))" "en_states (fst (send_reject tx oid req reason ts r)) = en_states (fst r)"
  by (auto simp: send_reject_def reported_intro Let_def split: prod.splits)

lemma send_md_frame [simp]: "fst (send_md inc ts r) = fst r"
  by (simp add: send_md_def split: prod.split)

lemma send_mds_frame [simp]: "fst (foldl (\<lambda>r inc. send_md inc ts r) r mds) = fst r"
  by (induction mds arbitrary: r) simp_all

lemma reported_steps:
  "reported e0 e \<Longrightarrow> reported e0 (e\<lparr>en_ids := i\<rparr>)" "reported e0 e \<Longrightarrow> reported e0 (e\<lparr>en_states := S\<rparr>)"
  "reported e0 (fst r) \<Longrightarrow> reported e0 (fst (emit_here d r))"
  "reported e0 (fst r) \<Longrightarrow> reported e0 (fst (send_report tx oid st ev ts r))"
  "reported e0 (fst r) \<Longrightarrow> reported e0 (fst (send_reject tx oid req reason ts r))"
  by (erule reported_trans, rule reported_intro emit_here_frame send_report_frame send_reject_frame)+

lemma report_stp_event_frame:
  "reported (fst r) (fst (report_stp_event ts ev r))"
  "en_states (fst (report_stp_event ts ev r)) = stp_state ev (en_states (fst r))"
proof -
  let ?r = "emit_here (diagnostic_default\<lparr>d_kind := ''stp_context'', d_order_id := e_order_id ev, d_counterparty := e_opposing_order ev\<rparr>) r"
  obtain e out where r: "?r = (e, out)" by fastforce
  have e: "reported (fst r) e" "en_states e = en_states (fst r)"
    using arg_cong [OF r, of fst] emit_here_frame(1,2) by (metis fst_conv)+
  have s: "reported e (fst (send_report tx oid st ev ts (e\<lparr>en_states := S\<rparr>, out)))" for tx oid st ev S
    by (simp add: reported_steps reported_intro)
  have "reported e (fst (report_stp ts ev (e, out))) \<and> en_states (fst (report_stp ts ev (e, out))) = stp_state ev (en_states e)"
    using s reported_intro(5) by (auto simp: report_stp_def stp_state_def Let_def split: option.splits stp_action.splits)
  with e show "reported (fst r) (fst (report_stp_event ts ev r))"
    "en_states (fst (report_stp_event ts ev r)) = stp_state ev (en_states (fst r))"
    unfolding report_stp_event_def r by (auto intro: reported_trans)
qed

lemma report_fill_side_frame:
  "reported (fst r) (fst (report_fill_side ts f oid r))"
  "en_states (fst (report_fill_side ts f oid r)) = fill_state (x_trade_price f) (x_trade_quantity f) oid (en_states (fst r))"
proof -
  obtain e out where r: "r = (e, out)" by fastforce
  obtain ids S res where a: "apply_fill (en_ids e) (en_states e) oid (en_symbol e) (x_trade_price f) (x_trade_quantity f) ts = (ids, S, res)"
    by (rule prod_cases3)
  have S: "S = fill_state (x_trade_price f) (x_trade_quantity f) oid (en_states e)"
    using apply_fill_states [of "en_ids e" "en_states e" oid "en_symbol e"] a by (metis fst_conv snd_conv)
  have e': "reported e (e\<lparr>en_ids := ids, en_states := S\<rparr>)"
    using reported_trans [OF reported_intro(1) reported_intro(2)] .
  have "reported e (fst (emit_here d (e\<lparr>en_ids := ids, en_states := S\<rparr>, out)))" for d
    using e' by (simp add: reported_steps)
  with e' S show "reported (fst r) (fst (report_fill_side ts f oid r))"
    "en_states (fst (report_fill_side ts f oid r)) = fill_state (x_trade_price f) (x_trade_quantity f) oid (en_states (fst r))"
    by (auto simp: report_fill_side_def r a Let_def split: option.splits)
qed

lemma report_trade_frame:
  "reported (fst r) (fst (report_trade ts px q a ia r))" "en_states (fst (report_trade ts px q a ia r)) = en_states (fst r)"
  by (auto simp: report_trade_def reported_intro Let_def split: prod.splits)

lemma report_trigger_frame [simp]:
  "reported (fst r) (fst (report_trigger t r))" "en_states (fst (report_trigger t r)) = en_states (fst r)"
  by (cases t; simp add: report_trigger_def)+

lemma report_refresh_frame [simp]:
  "reported (fst r) (fst (report_refresh t r))" "en_states (fst (report_refresh t r)) = en_states (fst r)"
  by (cases t; simp add: report_refresh_def)+

lemma foldl_frame:
  assumes "\<And>r x. reported (fst r) (fst (g r x))" and "\<And>r x. en_states (fst (g r x)) = h (en_states (fst r)) x"
  shows "reported (fst r) (fst (foldl g r xs)) \<and> en_states (fst (foldl g r xs)) = foldl h (en_states (fst r)) xs"
proof (induction xs arbitrary: r)
  case (Cons x xs)
  show ?case using Cons [of "g r x"] assms(1) [of r x] assms(2) [of r x] reported_trans by simp blast
qed (simp add: reported_intro)

lemma foldl_const: "foldl (\<lambda>a x. a) a xs = a"
  by (induction xs) simp_all

lemma triggers_frame:
  "reported (fst r) (fst (foldl (\<lambda>r t. report_trigger t r) r xs))"
  "en_states (fst (foldl (\<lambda>r t. report_trigger t r) r xs)) = en_states (fst r)"
  using foldl_frame [of "\<lambda>r t. report_trigger t r" "\<lambda>S _. S" r xs] by (simp_all add: foldl_const)

lemma refreshes_frame:
  "reported (fst r) (fst (foldl (\<lambda>r t. report_refresh t r) r xs))"
  "en_states (fst (foldl (\<lambda>r t. report_refresh t r) r xs)) = en_states (fst r)"
  using foldl_frame [of "\<lambda>r t. report_refresh t r" "\<lambda>S _. S" r xs] by (simp_all add: foldl_const)

lemma stps_frame:
  "reported (fst r) (fst (foldl (\<lambda>r ev. report_stp_event ts ev r) r xs))"
  "en_states (fst (foldl (\<lambda>r ev. report_stp_event ts ev r) r xs)) = foldl log_state (en_states (fst r)) (map LStp xs)"
  using foldl_frame [of "\<lambda>r ev. report_stp_event ts ev r" "\<lambda>S ev. stp_state ev S" r xs]
  by (simp_all add: report_stp_event_frame foldl_map)

lemma report_fills_frame:
  assumes "report_fills ts i fs trig stp refr r = (trig', stp', r')"
  shows "reported (fst r) (fst r') \<and>
    foldl log_state (en_states (fst r')) (map LStp stp') = foldl log_state (en_states (fst r)) (merge_log i fs stp)"
  using assms
proof (induction fs arbitrary: i trig stp refr r)
  case Nil
  then show ?case by (simp add: reported_intro)
next
  case (Cons f fs)
  let ?r1 = "foldl (\<lambda>r t. report_trigger t r) r (takeWhile (\<lambda>t. fst t \<le> i) trig)"
  let ?r2 = "foldl (\<lambda>r e. report_stp_event ts e r) ?r1 (takeWhile (\<lambda>e. e_before_fill e \<le> i) stp)"
  let ?r3b = "report_fill_side ts f (x_buy_order_id f) ?r2"
  let ?r3 = "report_fill_side ts f (x_sell_order_id f) ?r3b"
  let ?r4 = "report_trade ts (x_trade_price f) (x_trade_quantity f) (md_side (x_aggressor_side f)) False ?r3"
  let ?r5 = "foldl (\<lambda>r t. report_refresh t r) ?r4 (takeWhile (\<lambda>t. fst t = i) refr)"
  have rep: "reported (fst r) (fst ?r5)"
    by (intro reported_trans [OF _ refreshes_frame(1)] reported_trans [OF _ report_trade_frame(1)]
        reported_trans [OF _ report_fill_side_frame(1)] reported_trans [OF _ stps_frame(1)] triggers_frame(1))
  have st: "en_states (fst ?r5) = log_state (foldl log_state (en_states (fst r)) (map LStp (takeWhile (\<lambda>e. e_before_fill e \<le> i) stp))) (LFill f)"
    by (simp add: refreshes_frame report_trade_frame report_fill_side_frame stps_frame triggers_frame)
  from Cons.prems have "report_fills ts (i + 1) fs (drop (length (takeWhile (\<lambda>t. fst t \<le> i) trig)) trig)
      (drop (length (takeWhile (\<lambda>e. e_before_fill e \<le> i) stp)) stp) (drop (length (takeWhile (\<lambda>t. fst t = i) refr)) refr) ?r5 =
      (trig', stp', r')"
    by (simp add: Let_def)
  from Cons.IH [OF this] rep st show ?case
    by (auto simp: dropWhile_eq_drop [symmetric] intro: reported_trans)
qed

lemma report_cancel_frame:
  "reported (fst r) (fst (report_cancel ts oid r))"
  "map_of (en_states (fst (report_cancel ts oid r))) = (map_of (en_states (fst r)))(oid := None)"
  "en_states (fst (report_cancel ts oid r)) = (if hm_contains (en_states (fst r)) oid then hm_remove oid (en_states (fst r)) else en_states (fst r))"
proof -
  obtain e out where r: "r = (e, out)" by fastforce
  have "reported e (fst (send_report tx oid st ev ts (emit_here d (e\<lparr>en_states := S\<rparr>, out))))" for tx st ev d S
    by (simp add: reported_steps reported_intro)
  then show "reported (fst r) (fst (report_cancel ts oid r))"
    "map_of (en_states (fst (report_cancel ts oid r))) = (map_of (en_states (fst r)))(oid := None)"
    "en_states (fst (report_cancel ts oid r)) = (if hm_contains (en_states (fst r)) oid then hm_remove oid (en_states (fst r)) else en_states (fst r))"
    by (auto simp: report_cancel_def r reported_intro hm_contains_def fun_eq_iff split: option.split)
qed

definition cancel_states :: "string list \<Rightarrow> (string, 'r order_state) hashmap \<Rightarrow> (string, 'r order_state) hashmap" where
  "cancel_states ys S = foldl (\<lambda>S y. if hm_contains S y then hm_remove y S else S) S ys"

lemma cancel_states_ok:
  assumes "states_ok S"
  shows "states_ok (cancel_states ys S) \<and> leaves_of (cancel_states ys S) = (\<lambda>y. if y \<in> set ys then 0 else leaves_of S y) \<and>
    descends S (cancel_states ys S)"
  using assms
proof (induction ys arbitrary: S)
  case Nil
  then show ?case by (simp add: cancel_states_def descends_refl)
next
  case (Cons y ys)
  let ?S = "if hm_contains S y then hm_remove y S else S"
  have "leaves_of S y = 0" if "\<not> hm_contains S y" using that by (simp add: hm_contains_def leaves_of_def)
  then have s: "states_ok ?S" "leaves_of ?S = (leaves_of S)(y := 0)" "descends S ?S"
    using states_ok_remove [OF Cons.prems, of y] Cons.prems descends_refl by (auto simp: fun_upd_idem)
  have "cancel_states (y # ys) S = cancel_states ys ?S" by (simp add: cancel_states_def)
  moreover note k = Cons.IH [OF s(1)]
  moreover have "(\<lambda>z. if z \<in> set ys then 0 else leaves_of ?S z) = (\<lambda>z. if z \<in> set (y # ys) then 0 else leaves_of S z)"
    unfolding s(2) by (auto simp: fun_eq_iff)
  ultimately show ?case using descends_trans [OF s(3)] by simp
qed

lemma report_execution_frame:
  "reported (fst r) (fst (report_execution exec ts r))"
  "en_states (fst (report_execution exec ts r)) =
     cancel_states (ex_cancels exec) (foldl log_state (en_states (fst r)) (merge_log 0 (ex_fills exec) (ex_stp exec)))"
proof -
  obtain trig stp r1 where f: "report_fills ts 0 (ex_fills exec) (ex_trigger_points exec) (ex_stp exec) (ex_refreshes exec) r = (trig, stp, r1)"
    by (rule prod_cases3)
  note k = report_fills_frame [OF f]
  let ?r2 = "foldl (\<lambda>r t. report_trigger t r) r1 trig"
  let ?r3 = "foldl (\<lambda>r e. report_stp_event ts e r) ?r2 stp"
  let ?r4 = "foldl (\<lambda>r oid. report_cancel ts oid r) ?r3 (ex_cancels exec)"
  have c: "reported (fst ?r3) (fst ?r4) \<and> en_states (fst ?r4) = cancel_states (ex_cancels exec) (en_states (fst ?r3))"
    unfolding cancel_states_def by (rule foldl_frame) (simp_all only: report_cancel_frame(1,3))
  have e: "fst (report_execution exec ts r) = fst ?r4" by (simp add: report_execution_def f Let_def)
  have "reported (fst r) (fst ?r3)"
    using k by (intro reported_trans [OF _ stps_frame(1)] reported_trans [OF _ triggers_frame(1)]) simp
  with c show "reported (fst r) (fst (report_execution exec ts r))" unfolding e by (blast intro: reported_trans)
  show "en_states (fst (report_execution exec ts r)) =
     cancel_states (ex_cancels exec) (foldl log_state (en_states (fst r)) (merge_log 0 (ex_fills exec) (ex_stp exec)))"
    unfolding e using c k by (simp add: stps_frame triggers_frame)
qed

end
