(* ===== verification/Fxp_Auction_Fill.thy ===== *)
theory Fxp_Auction_Fill
  imports Fxp_Book_Wf
begin

text \<open>
  The effect of a call auction's fill on the order book (\<^verbatim>\<open>apply_auction_fill\<close> of \<^verbatim>\<open>order_book.rs\<close>).
\<close>

section \<open>An auction fill in the book\<close>

lemma update_first_map:
  assumes "distinct (map o_order_id xs)"
  shows "update_first oid f xs = map (\<lambda>y. if o_order_id y = oid then f y else y) xs"
  using assms
proof (induction xs)
  case (Cons x xs)
  show ?case
  proof (cases "o_order_id x = oid")
    case True
    with Cons.prems have "map (\<lambda>y. if o_order_id y = oid then f y else y) xs = xs"
      by (intro map_idI) (auto simp: image_iff)
    with True show ?thesis by simp
  qed (use Cons in simp)
qed simp

lemma sync_set_levels:
  "sync_fill oid r t (set_levels sd ls b) = set_levels sd ls (sync_fill oid r t b)"
  by (cases sd) (simp_all add: sync_fill_def set_levels.simps split: option.split)

lemma displayed_set_levels: "(set_levels sd ls b)\<lparr>b_displayed := m\<rparr> = set_levels sd ls (b\<lparr>b_displayed := m\<rparr>)"
  by (cases sd) (simp_all add: set_levels.simps)

lemma sync_visible_set_levels:
  "sync_visible_fill x t v (set_levels sd ls b) = set_levels sd ls (sync_visible_fill x t v b)"
  by (simp add: sync_visible_fill_def Let_def sync_set_levels displayed_set_levels)

lemma map_filter_around:
  assumes ok: "levels_ok sd ls" and x: "x \<in> set (flat sd ls)" and ids: "inj_on o_order_id (set (flat sd ls))"
    and os: "map_of ls (o_price x) = Some os" and f: "\<And>y. o_order_id y \<noteq> o_order_id x \<Longrightarrow> f y = [y]"
  shows "concat (map f (flat sd ls)) =
    flat sd (better_levels sd (o_price x) ls) @ concat (map f os) @ flat sd (worse_levels sd (o_price x) ls)"
proof -
  let ?p = "o_price x"
  have other: "o_order_id y \<noteq> o_order_id x"
    if "y \<in> set (flat sd (better_levels sd ?p ls)) \<union> set (flat sd (worse_levels sd ?p ls))" for y
  proof
    assume "o_order_id y = o_order_id x"
    moreover from that have "y \<in> set (flat sd ls)" by (subst flat_around [OF ok, of ?p]) auto
    ultimately have "y = x" using ids x by (simp add: inj_on_def)
    with that better_ahead [OF ok, of x ?p x] worse_ahead [OF ok, of x ?p x] show False by auto
  qed
  have "concat (map f ys) = ys" if "\<And>y. y \<in> set ys \<Longrightarrow> o_order_id y \<noteq> o_order_id x" for ys
    using that f by (induction ys) simp_all
  with other have "concat (map f (flat sd (better_levels sd ?p ls))) = flat sd (better_levels sd ?p ls)"
    "concat (map f (flat sd (worse_levels sd ?p ls))) = flat sd (worse_levels sd ?p ls)"
    by (simp_all add: Un_iff)
  then show ?thesis
    by (subst flat_around [OF ok, of ?p]) (simp add: level_of_def os)
qed

text \<open>What an order of the filled identifier becomes: nothing, or the same order with less quantity.\<close>

definition cut_to :: "string \<Rightarrow> nat \<Rightarrow> order \<Rightarrow> order list" where
  "cut_to oid r y = (if o_order_id y = oid then (if r = 0 then [] else [y\<lparr>o_quantity := r\<rparr>]) else [y])"

lemma cut_level:
  assumes "distinct (map o_order_id os)" and "\<And>y. y \<in> set os \<Longrightarrow> 0 < o_quantity y"
  shows "filter (\<lambda>y. 0 < o_quantity y) (update_first oid (\<lambda>y. y\<lparr>o_quantity := r\<rparr>) os) = concat (map (cut_to oid r) os)"
  unfolding update_first_map [OF assms(1)] using assms(2) by (induction os) (auto simp: cut_to_def)

lemma sorted_cut:
  assumes "sorted_wrt R xs" and "\<And>y z r s. R y z \<Longrightarrow> R (y\<lparr>o_quantity := r\<rparr>) z \<and> R y (z\<lparr>o_quantity := s\<rparr>) "
  shows "sorted_wrt R (concat (map (cut_to oid q) xs))"
  using assms by (induction xs) (auto simp: cut_to_def sorted_wrt_append split: if_splits)

lemma apply_auction_fill_eq:
  assumes wf: "wf_book b" and x: "map_of (b_order_lookup b) oid = Some x" and q: "q \<le> o_quantity x"
  defines "sd \<equiv> o_side x" and "p \<equiv> o_price x" and "r \<equiv> o_quantity x - q"
  defines "ls \<equiv> side_levels sd b"
  obtains os where "map_of ls p = Some os" and "x \<in> set os"
    and "apply_auction_fill oid q b =
      (let b' = set_levels sd (if concat (map (cut_to oid r) os) = [] then bt_remove p ls else bt_insert p (concat (map (cut_to oid r) os)) ls)
                  (sync_visible_fill (x\<lparr>o_quantity := r\<rparr>) q r b)
       in Some (b', generate_incremental_update b' ModifyOrder p q sd))"
proof -
  have w: "wf_with b []" using wf by (simp add: wf_book_def)
  from wf_book_lookup [OF wf] x obtain sd' where "x \<in> set (queue sd' b)" and id: "o_order_id x = oid" by blast
  moreover from this queue_side [OF w] have "sd' = sd" by (simp add: sd_def)
  ultimately have xq: "x \<in> set (flat sd ls)" by (simp add: queue_def ls_def)
  have ok: "levels_ok sd ls" unfolding ls_def by (rule wf_levels [OF w])
  from xq flat_level [OF ok] have "x \<in> set (level_of ls p)" by (simp add: p_def)
  then obtain os where os: "map_of ls p = Some os" and xo: "x \<in> set os"
    by (cases "map_of ls p") (simp_all add: level_of_def)
  have sub: "set os \<subseteq> set (queue sd b)"
    unfolding queue_def ls_def [symmetric] using flat_around [OF ok, of p] os by (auto simp: level_of_def)
  have dist: "distinct (map o_order_id os)"
  proof -
    have "distinct (map o_order_id (queue sd b))" by (rule wf_queue_ids(1) [OF w])
    then show ?thesis unfolding queue_def ls_def [symmetric] flat_around [OF ok, of p] by (simp add: level_of_def os)
  qed
  have pos: "0 < o_quantity y" if "y \<in> set os" for y
  proof -
    have "y \<in> set (roster b [])" using sub that queue_roster [of sd b "[]"] by blast
    then show ?thesis using wf_quantity [OF w] by blast
  qed
  have find: "find (\<lambda>y. o_order_id y = oid) os = Some x"
  proof -
    from xo id obtain y where y: "find (\<lambda>y. o_order_id y = oid) os = Some y"
      by (cases "find (\<lambda>y. o_order_id y = oid) os") (auto simp: find_None_iff)
    then have "y \<in> set os" "o_order_id y = oid" by (auto simp: find_Some_iff)
    with xo id wf_queue_ids(2) [OF w, of sd] sub have "y = x" by (meson inj_onD subsetD)
    with y show ?thesis by simp
  qed
  have "apply_auction_fill oid q b =
      (let b' = set_levels sd (if concat (map (cut_to oid r) os) = [] then bt_remove p ls else bt_insert p (concat (map (cut_to oid r) os)) ls)
                  (sync_visible_fill (x\<lparr>o_quantity := r\<rparr>) q r b)
       in Some (b', generate_incremental_update b' ModifyOrder p q sd))"
    using q os find unfolding ls_def sd_def p_def r_def
    by (simp add: apply_auction_fill_def x Let_def cut_level [OF dist pos] sync_visible_fill_def id sync_set_levels
        displayed_set_levels)
  with os xo that show thesis by blast
qed


lemma set_levels_twice: "set_levels sd l (set_levels sd l' b) = set_levels sd l b"
  by (cases sd) (simp_all add: set_levels.simps)

lemma cut_filter: "concat (map (cut_to oid 0) os) = filter (\<lambda>y. o_order_id y \<noteq> oid) os"
  by (induction os) (simp_all add: cut_to_def)

lemma cut_mset:
  assumes "distinct (map o_order_id xs)" and "x \<in> set xs" and "0 < r"
  shows "mset (concat (map (cut_to (o_order_id x) r) xs)) =
    add_mset (x\<lparr>o_quantity := r\<rparr>) (mset (filter (\<lambda>y. o_order_id y \<noteq> o_order_id x) xs))"
  using assms
proof (induction xs)
  case (Cons y ys)
  show ?case
  proof (cases "y = x")
    case True
    with Cons.prems have "\<forall>z \<in> set ys. o_order_id z \<noteq> o_order_id x" by (auto simp: image_iff)
    then have "concat (map (cut_to (o_order_id x) r) ys) = ys" "filter (\<lambda>y. o_order_id y \<noteq> o_order_id x) ys = ys"
      by (induction ys) (simp_all add: cut_to_def)
    moreover have "cut_to (o_order_id x) r x = [x\<lparr>o_quantity := r\<rparr>]" using Cons.prems by (simp add: cut_to_def)
    ultimately show ?thesis by (simp add: True)
  next
    case False
    with Cons.prems have "o_order_id y \<noteq> o_order_id x" by (auto simp: image_iff)
    moreover from this have "cut_to (o_order_id x) r y = [y]" by (simp add: cut_to_def)
    ultimately show ?thesis using False Cons by simp
  qed
qed simp

lemma sync_visible_arr:
  assumes "0 < o_quantity x"
  shows "arr_of (sync_visible_fill x t v b) = arr_of b"
  using assms by (auto simp: fun_eq_iff arr_of_def sync_visible_fill_def sync_fill_def Let_def split: option.split)

lemma apply_auction_fill_ok:
  assumes wf: "wf_book b" and x: "map_of (b_order_lookup b) oid = Some x" and q: "q \<le> o_quantity x"
  obtains b' md where "apply_auction_fill oid q b = Some (b', md)" and "wf_book b'"
    and "map_of (b_order_lookup b') =
      (map_of (b_order_lookup b))(oid := if q = o_quantity x then None else Some (x\<lparr>o_quantity := o_quantity x - q\<rparr>))"
    and "\<And>sd. queue sd b' = concat (map (cut_to oid (o_quantity x - q)) (queue sd b))"
    and "b_stp b' = b_stp b"
proof -
  define sd p r ls where "sd = o_side x" and "p = o_price x" and "r = o_quantity x - q" and "ls = side_levels sd b"
  let ?x = "x\<lparr>o_quantity := r\<rparr>"
  have w: "wf_with b []" using wf by (simp add: wf_book_def)
  obtain os where os: "map_of ls p = Some os" and xo: "x \<in> set os" and eq: "apply_auction_fill oid q b =
      (let b' = set_levels sd (if concat (map (cut_to oid r) os) = [] then bt_remove p ls else bt_insert p (concat (map (cut_to oid r) os)) ls)
                  (sync_visible_fill ?x q r b)
       in Some (b', generate_incremental_update b' ModifyOrder p q sd))"
    unfolding ls_def sd_def p_def r_def by (rule apply_auction_fill_eq [OF wf x q])
  define lsn where "lsn = (if concat (map (cut_to oid r) os) = [] then bt_remove p ls else bt_insert p (concat (map (cut_to oid r) os)) ls)"
  define b' where "b' = set_levels sd lsn (sync_visible_fill ?x q r b)"
  have id: "o_order_id x = oid" using wf_lookup [OF w] x by blast
  have ok: "levels_ok sd ls" unfolding ls_def by (rule wf_levels [OF w])
  have ls_x: "x \<in> set (flat sd ls)"
    unfolding flat_level [OF ok] using xo os by (simp add: level_of_def p_def)
  then have xq: "x \<in> set (queue sd b)" by (simp add: queue_def ls_def)
  have inj: "inj_on o_order_id (set (flat sd ls))" using wf_queue_ids(2) [OF w, of sd] by (simp add: queue_def ls_def)
  note dl = drop_level [OF ok ls_x inj, folded p_def, unfolded id]
  have fq: "flat sd ls = queue sd b" by (simp add: queue_def ls_def)
  define bt where "bt = set_levels sd (drop_level p oid ls) b"
  have w1: "wf_with bt [x]"
    unfolding bt_def by (rule wf_take_any [OF w dl(1) xq]) (simp add: dl(2) fq id)
  define b2 where "b2 = sync_visible_fill ?x q r bt"
  have w2: "wf_with b2 (if r = 0 then [] else [?x])"
    unfolding b2_def using wf_sync [OF w1, of r q r] q by (simp add: r_def)
  have b2': "b2 = set_levels sd (drop_level p oid ls) (sync_visible_fill ?x q r b)"
    by (simp add: b2_def bt_def sync_visible_set_levels)
  have b'2: "b' = set_levels sd lsn b2" by (simp add: b'_def b2' set_levels_twice)
  have cutq: "flat sd lsn = concat (map (cut_to oid r) (queue sd b))"
  proof -
    have "cut_to oid r y = [y]" if "o_order_id y \<noteq> o_order_id x" for y using that id by (simp add: cut_to_def)
    from map_filter_around [OF ok ls_x inj os [unfolded p_def] this] show ?thesis
      by (simp add: lsn_def flat_insert flat_remove [OF ok] fq p_def)
  qed
  have other: "queue sd' b' = concat (map (cut_to oid r) (queue sd' b))" if "sd' \<noteq> sd" for sd'
  proof -
    have "o_order_id y \<noteq> oid" if "y \<in> set (queue sd' b)" for y
    proof
      assume "o_order_id y = oid"
      moreover have "y \<in> set (roster b [])" "x \<in> set (roster b [])"
        using queue_roster \<open>y \<in> set (queue sd' b)\<close> xq by blast+
      ultimately have "y = x" using wf_ids [OF w] id by blast
      with \<open>y \<in> set (queue sd' b)\<close> queue_side [OF w] \<open>sd' \<noteq> sd\<close> show False by (auto simp: sd_def)
    qed
    moreover have "concat (map (cut_to oid r) ys) = ys" if "\<And>y. y \<in> set ys \<Longrightarrow> o_order_id y \<noteq> oid" for ys
      using that by (induction ys) (simp_all add: cut_to_def)
    ultimately show ?thesis using that by (simp add: b'_def)
  qed
  have queues: "queue sd' b' = concat (map (cut_to oid r) (queue sd' b))" for sd'
    using other cutq by (cases "sd' = sd") (simp_all add: b'_def)
  have wf': "wf_book b'"
  proof (cases "r = 0")
    case True
    have "lsn = drop_level p oid ls" using os by (simp add: lsn_def True cut_filter drop_level_def Let_def)
    with w2 True show ?thesis by (simp add: b'2 b2' set_levels_twice wf_book_def)
  next
    case False
    then have w2: "wf_with b2 [?x]" using w2 by simp
    have "wf_with b' []"
    proof (rule wf_rearrange [OF w2])
      have "x \<in> set os" by (rule xo)
      then have ne: "concat (map (cut_to oid r) os) \<noteq> []" using False id by (auto simp: cut_to_def)
      have "o_price y = p \<and> o_side y = sd" if "y \<in> set (concat (map (cut_to oid r) os))" for y
      proof -
        from that obtain z where "z \<in> set os" "y = z \<or> y = z\<lparr>o_quantity := r\<rparr>" by (auto simp: cut_to_def split: if_splits)
        with level_of_ok [OF ok, of z p] os show ?thesis by (auto simp: level_of_def)
      qed
      then have "levels_ok sd (bt_insert p (concat (map (cut_to oid r) os)) ls)" by (rule levels_ok_insert [OF ok ne])
      then have "levels_ok sd lsn" unfolding lsn_def if_not_P [OF ne] .
      then show "levels_ok sd' (side_levels sd' b')" for sd' using wf_levels [OF w2] by (simp add: b'2)
      have ms: "mset (queue sd b') = add_mset ?x (mset (queue sd b2))"
        using cut_mset [OF wf_queue_ids(1) [OF w, of sd] xq, of r] False by (simp add: queues b2' dl(2) fq id)
      have "queue sd' b' = queue sd' b2" if "sd' \<noteq> sd" for sd' using that by (simp add: b'2)
      with ms show "mset (roster b' []) = mset (roster b2 [?x])"
        by (cases sd) (simp_all add: roster_def)
      have vx: "vis_ok b2 ?x"
        using False by (simp add: vis_ok_def b2' sync_visible_fill_def Let_def id)
      show "vis_ok b2 y" if "y \<in> set (queue sd' b')" for sd' y
      proof -
        have "set (queue sd' b') \<subseteq> insert ?x (set (queue sd' b2))"
        proof (cases "sd' = sd")
          case True
          from mset_eq_setD [OF ms [unfolded mset.simps(2) [symmetric]]] show ?thesis by (simp add: True)
        qed (auto simp: b'2)
        with that vx w2 show ?thesis by (auto simp: wf_with_def)
      qed
      show "time_ok b2 (queue sd' b')" for sd'
      proof -
        have "arr_of b2 = arr_of b" using False sync_visible_arr [of ?x q r b] by (simp add: b2' arr_of_def fun_eq_iff)
        then have t: "time_ok b2 (queue sd' b)" using w by (simp add: time_ok_def wf_with_def)
        have "arr_of b2 (y\<lparr>o_quantity := k\<rparr>) = arr_of b2 y" for y k by (simp add: arr_of_def)
        with t show ?thesis unfolding queues time_ok_def by (intro sorted_cut) simp_all
      qed
    qed (simp_all add: b'2)
    then show ?thesis by (simp add: wf_book_def)
  qed
  have look: "map_of (b_order_lookup b') =
      (map_of (b_order_lookup b))(oid := if q = o_quantity x then None else Some (x\<lparr>o_quantity := o_quantity x - q\<rparr>))"
    using q x by (auto simp: b'_def sync_visible_fill_def sync_fill_def Let_def id r_def)
  show thesis
  proof (rule that [of b'])
    show "apply_auction_fill oid q b = Some (b', generate_incremental_update b' ModifyOrder p q sd)"
      unfolding eq lsn_def [symmetric] Let_def b'_def ..
    show "queue sd' b' = concat (map (cut_to oid (o_quantity x - q)) (queue sd' b))" for sd'
      using queues by (simp add: r_def)
    show "b_stp b' = b_stp b" by (simp add: b'_def)
  qed (rule wf' look)+
qed


text \<open>
  C26. An auction fill of at most the open quantity always finds its order. The order keeps its place in the queue with the
  rest of its quantity, or leaves the book when nothing is left; no other order changes or moves, and the book stays well formed.
\<close>

theorem apply_auction_fill_correct:
  assumes "wf_book b" and "map_of (b_order_lookup b) oid = Some x" and "q \<le> o_quantity x"
  shows "\<exists>b' md. apply_auction_fill oid q b = Some (b', md) \<and> wf_book b' \<and>
    map_of (b_order_lookup b') =
      (map_of (b_order_lookup b))(oid := if q = o_quantity x then None else Some (x\<lparr>o_quantity := o_quantity x - q\<rparr>)) \<and>
    (\<forall>sd. queue sd b' = concat (map (\<lambda>y. if o_order_id y \<noteq> oid then [y]
       else if q = o_quantity x then [] else [y\<lparr>o_quantity := o_quantity x - q\<rparr>]) (queue sd b)))"
proof -
  obtain b' md where k: "apply_auction_fill oid q b = Some (b', md)" "wf_book b'"
    "map_of (b_order_lookup b') =
      (map_of (b_order_lookup b))(oid := if q = o_quantity x then None else Some (x\<lparr>o_quantity := o_quantity x - q\<rparr>))"
    "\<And>sd. queue sd b' = concat (map (cut_to oid (o_quantity x - q)) (queue sd b))"
    by (rule apply_auction_fill_ok [OF assms]) blast
  have "cut_to oid (o_quantity x - q) =
      (\<lambda>y. if o_order_id y \<noteq> oid then [y] else if q = o_quantity x then [] else [y\<lparr>o_quantity := o_quantity x - q\<rparr>])"
    using assms(3) by (auto simp: cut_to_def fun_eq_iff)
  with k show ?thesis by simp
qed

theorem apply_auction_fill_correct_witness:
  "\<exists>b' md. apply_auction_fill ''B1'' 4 sample_book = Some (b', md) \<and> wf_book b' \<and>
    map_of (b_order_lookup b') =
      (map_of (b_order_lookup sample_book))(''B1'' := if 4 = o_quantity sample_bid then None
         else Some (sample_bid\<lparr>o_quantity := o_quantity sample_bid - 4\<rparr>)) \<and>
    (\<forall>sd. queue sd b' = concat (map (\<lambda>y. if o_order_id y \<noteq> ''B1'' then [y]
       else if 4 = o_quantity sample_bid then [] else [y\<lparr>o_quantity := o_quantity sample_bid - 4\<rparr>]) (queue sd sample_book)))"
  by (rule apply_auction_fill_correct [OF wf_sample_book]) (simp_all add: sample_lookup sample_bid_def sample_order_def)

end
