(* ===== verification/Fxp_Live.thy ===== *)
theory Fxp_Live
  imports Fxp_Ledger Fxp_Auction_Fill
begin

text \<open>
  The live orders of an engine and its order states. The central invariant says that the orders in the book and the orders
  waiting outside it are exactly the orders with a state, with the same owner and the same open quantity. Every way
  in which an order enters, trades, moves or leaves keeps it.
\<close>

section \<open>The book, the orders outside it and the states\<close>

definition owner_of :: "(string, 'r order_state) hashmap \<Rightarrow> string \<Rightarrow> string" where
  "owner_of S y = (case map_of S y of None \<Rightarrow> [] | Some st \<Rightarrow> st_sender st)"

text \<open>What an order in the book has in common with its state; market orders are never in the book.\<close>

definition book_terms :: "(string, 'r order_state) hashmap \<Rightarrow> string \<Rightarrow> order \<Rightarrow> bool" where
  "book_terms S y x \<longleftrightarrow> o_trader_id x = owner_of S y \<and> o_order_type x \<noteq> Market"

lemma book_terms [simp]: "terms (book_terms S)"
  by (simp add: terms_def book_terms_def)

lemma may_rest_terms: "owner_of S (o_order_id a) = o_trader_id a \<Longrightarrow> may_rest (book_terms S) a"
  by (simp add: may_rest_def book_terms_def)

text \<open>An order that waits outside the book: as a parked stop, as a market order of a call, or for the close.\<close>

definition waits :: "order_book \<Rightarrow> order \<Rightarrow> bool" where
  "waits b x \<longleftrightarrow> o_order_id x \<notin> book_ids b \<and> 0 < o_quantity x \<and> o_quantity x < 4294967296"

text \<open>
  The ledger: the live orders, in the book or among \<open>xs\<close>, are exactly the orders with a state; the state's owner is the
  owner of the order and what it has left is the order's open quantity.
\<close>

definition core_ok :: "order_book \<Rightarrow> order list \<Rightarrow> (string, 'r order_state) hashmap \<Rightarrow> bool" where
  "core_ok b xs S \<longleftrightarrow>
     wf_book b \<and> stp_events (b_stp b) = [] \<and> distinct (map o_order_id xs) \<and> (\<forall>x \<in> set xs. waits b x) \<and>
     states_ok S \<and> (\<forall>y. leaves_of S y = qty_of b y + open_qty xs y) \<and>
     book_all (book_terms S) b \<and> (\<forall>x \<in> set xs. owner_of S (o_order_id x) = o_trader_id x)"

text \<open>The same while an execution is under way: its log explains the difference to the states.\<close>

definition exec_ok :: "(string, 'r order_state) hashmap \<Rightarrow> order_book \<Rightarrow> order list \<Rightarrow> execution \<Rightarrow> bool" where
  "exec_ok S b xs out \<longleftrightarrow>
     wf_book b \<and> distinct (map o_order_id xs) \<and> (\<forall>x \<in> set xs. waits b x) \<and>
     states_ok S \<and> logged (leaves_of S) b (open_qty xs) out \<and>
     book_all (book_terms S) b \<and> (\<forall>x \<in> set xs. owner_of S (o_order_id x) = o_trader_id x)"

definition fresh_exec :: "execution \<Rightarrow> bool" where
  "fresh_exec out \<longleftrightarrow> ex_fills out = [] \<and> ex_stp out = [] \<and> ex_cancels out = []"

lemma core_perm: "mset xs = mset ys \<Longrightarrow> core_ok b xs S = core_ok b ys S"
proof -
  assume ms: "mset xs = mset ys"
  have "set xs = set ys" using ms by (rule mset_eq_setD)
  moreover have "distinct (map o_order_id xs) = distinct (map o_order_id ys)"
    by (rule mset_eq_imp_distinct_iff) (simp add: ms)
  ultimately show ?thesis by (simp add: core_ok_def open_qty_mset [OF ms])
qed

lemma exec_perm: "mset xs = mset ys \<Longrightarrow> exec_ok S b xs out = exec_ok S b ys out"
proof -
  assume ms: "mset xs = mset ys"
  have "set xs = set ys" using ms by (rule mset_eq_setD)
  moreover have "distinct (map o_order_id xs) = distinct (map o_order_id ys)"
    by (rule mset_eq_imp_distinct_iff) (simp add: ms)
  ultimately show ?thesis by (simp add: exec_ok_def open_qty_mset [OF ms])
qed

lemma exec_start:
  assumes "core_ok b xs S" and "fresh_exec out"
  shows "exec_ok S b xs out"
proof -
  have "logged (\<lambda>y. qty_of b y + open_qty xs y) b (open_qty xs) out"
    using assms by (intro logged_start open_apart) (simp_all add: core_ok_def fresh_exec_def waits_def)
  moreover have "(\<lambda>y. qty_of b y + open_qty xs y) = leaves_of S" using assms(1) by (auto simp: core_ok_def fun_eq_iff)
  ultimately show ?thesis using assms(1) by (simp add: core_ok_def exec_ok_def)
qed

lemma exec_execute:
  assumes ok: "exec_ok S b (a # xs) out"
  obtains b' out' r where "execute_into a (b, out) = Some (b', out', r)" and "exec_ok S b' xs out'"
proof -
  let ?rest = "open_qty xs"
  from ok have wf: "wf_book b" and ids: "distinct (map o_order_id (a # xs))" and w: "\<And>x. x \<in> set (a # xs) \<Longrightarrow> waits b x"
    and log: "logged (leaves_of S) b (open_qty (a # xs)) out" and own: "book_all (book_terms S) b"
    and owns: "\<And>x. x \<in> set (a # xs) \<Longrightarrow> owner_of S (o_order_id x) = o_trader_id x"
    by (auto simp: exec_ok_def)
  have fresh: "o_order_id a \<notin> o_order_id ` set xs" using ids by auto
  note oq = open_qty_Cons [OF fresh]
  from w [of a] have new: "o_order_id a \<notin> book_ids b" and q: "0 < o_quantity a" "o_quantity a < 4294967296"
    by (simp_all add: waits_def)
  from execute_into_ok [OF wf new q(2), of out] obtain b' out' r where ex: "execute_into a (b, out) = Some (b', out', r)"
    and w': "wf_book b'" and ids': "book_ids b' \<subseteq> insert (o_order_id a) (book_ids b)"
    by blast
  have "waits b' x" if "x \<in> set xs" for x
    using w [of x] that ids' distinct_head [OF ids that] by (auto simp: waits_def)
  moreover have "logged (leaves_of S) b' ?rest out'"
    using execute_into_logged [OF log [unfolded oq(1)] oq(2) wf new q ex] .
  moreover have "book_all (book_terms S) b'" 
    using book_all_execute_into [OF book_terms wf new q(2) own may_rest_terms [OF owns] ex] by simp
  ultimately have "exec_ok S b' xs out'" using ok w' by (simp add: exec_ok_def)
  with ex show thesis by (rule that)
qed

lemma match_into_logged:
  assumes log: "logged Q b rest out" and wf: "wf_book b" and res: "match_into (b, out) = Some (b', out')"
  shows "logged Q b' rest out'"
proof -
  from log obtain X where acc: "accounts Q (\<lambda>y. qty_of b y + rest y + X y) (ex_fills out) (ex_stp out)"
    and X: "\<And>y. y \<in> set (ex_cancels out) \<longleftrightarrow> 0 < X y" "\<And>y. X y = 0 \<or> qty_of b y + rest y = 0"
    and apart: "\<And>y. qty_of b y = 0 \<or> rest y = 0"
    unfolding logged_def by metis
  from match_into_log [OF wf res] obtain fs es where o': "ex_fills out' = ex_fills out @ fs"
      "ex_stp out' = ex_stp out @ map (\<lambda>e. e\<lparr>e_before_fill := e_before_fill e + length (ex_fills out)\<rparr>) es"
      "ex_cancels out' = ex_cancels out"
    and acc2: "accounts (qty_of b) (qty_of b') fs es" and clean: "stp_events (b_stp b') = []"
    by blast
  have fr: "qty_of b y = 0 \<or> rest y + X y = 0" for y using apart [of y] X(2) [of y] by auto
  have "accounts (\<lambda>y. qty_of b y + (rest y + X y)) (\<lambda>y. qty_of b' y + (rest y + X y)) fs es"
    by (rule accounts_frame [OF acc2 fr])
  then have "accounts Q (\<lambda>y. qty_of b' y + rest y + X y) (ex_fills out') (ex_stp out')"
    unfolding o' using accounts_trans [OF acc] by (simp add: add.assoc)
  moreover have "X y = 0 \<or> qty_of b' y + rest y = 0" "qty_of b' y = 0 \<or> rest y = 0" for y
    using accounts_zero [OF acc2, of y] X(2) [of y] apart [of y] by auto
  ultimately show ?thesis
    unfolding logged_def using X(1) clean by (intro conjI exI [of _ X] allI) (simp_all only: o')
qed

lemma exec_match:
  assumes ok: "exec_ok S b xs out"
  obtains b' out' where "match_into (b, out) = Some (b', out')" and "exec_ok S b' xs out'"
proof -
  from ok have wf: "wf_book b" by (simp add: exec_ok_def)
  from match_into_ok [OF wf, of out] obtain b' out' where m: "match_into (b, out) = Some (b', out')" and w': "wf_book b'"
    and ids: "book_ids b' \<subseteq> book_ids b"
    by blast
  have "exec_ok S b' xs out'"
    using ok w' ids match_into_logged [OF _ wf m] book_all_match_into [OF book_terms wf _ m]
    by (auto simp: exec_ok_def waits_def)
  with m show thesis by (rule that)
qed

lemma open_ids: "(\<And>x. x \<in> set xs \<Longrightarrow> 0 < o_quantity x) \<Longrightarrow> 0 < open_qty xs y \<longleftrightarrow> y \<in> o_order_id ` set xs"
proof
  assume "0 < open_qty xs y"
  then show "y \<in> o_order_id ` set xs" using open_qty_absent by (metis less_irrefl)
next
  assume pos: "\<And>x. x \<in> set xs \<Longrightarrow> 0 < o_quantity x" and "y \<in> o_order_id ` set xs"
  then obtain x where x: "x \<in> set xs" "o_order_id x = y" by blast
  then have "o_quantity x \<in> set (map o_quantity (filter (\<lambda>x. o_order_id x = y) xs))" by auto
  then have "o_quantity x \<le> open_qty xs y" unfolding open_qty_def by (rule member_le_sum_list) simp
  with pos [OF x(1)] show "0 < open_qty xs y" by simp
qed

lemma book_ids_qty: "wf_book b \<Longrightarrow> y \<in> book_ids b \<longleftrightarrow> 0 < qty_of b y"
proof -
  assume "wf_book b"
  then have w: "wf_with b []" by (simp add: wf_book_def)
  have "0 < o_quantity x" if "map_of (b_order_lookup b) y = Some x" for x
    using wf_quantity [OF w, of x] wf_lookup [OF w, of y x] that by simp
  then show ?thesis by (auto simp: book_ids_def qty_of_def split: option.splits)
qed

lemma exec_finish:
  assumes ok: "exec_ok S b xs out"
  shows "core_ok b xs (cancel_states (ex_cancels out) (foldl log_state S (merge_log 0 (ex_fills out) (ex_stp out))))"
    and "descends S (cancel_states (ex_cancels out) (foldl log_state S (merge_log 0 (ex_fills out) (ex_stp out))))"
proof -
  let ?T = "foldl log_state S (merge_log 0 (ex_fills out) (ex_stp out))"
  let ?S = "cancel_states (ex_cancels out) ?T"
  from ok have wf: "wf_book b" and ids: "distinct (map o_order_id xs)" and w: "\<And>x. x \<in> set xs \<Longrightarrow> waits b x"
    and so: "states_ok S" and log: "logged (leaves_of S) b (open_qty xs) out" and own: "book_all (book_terms S) b"
    and owns: "\<And>x. x \<in> set xs \<Longrightarrow> owner_of S (o_order_id x) = o_trader_id x"
    by (auto simp: exec_ok_def)
  from log obtain X where acc: "accounts (leaves_of S) (\<lambda>y. qty_of b y + open_qty xs y + X y) (ex_fills out) (ex_stp out)"
    and X: "\<And>y. y \<in> set (ex_cancels out) \<longleftrightarrow> 0 < X y" "\<And>y. X y = 0 \<or> qty_of b y + open_qty xs y = 0"
    and clean: "stp_events (b_stp b) = []"
    unfolding logged_def by metis
  note t = log_states_ok [OF so, of "merge_log 0 (ex_fills out) (ex_stp out)" "\<lambda>y. qty_of b y + open_qty xs y + X y"]
  have t': "states_ok ?T" "leaves_of ?T = (\<lambda>y. qty_of b y + open_qty xs y + X y)" "descends S ?T"
    using t acc by (simp_all add: accounts_def)
  note c = cancel_states_ok [OF t'(1), of "ex_cancels out"]
  have leaves: "leaves_of ?S y = qty_of b y + open_qty xs y" for y
    using c t'(2) X(1) [of y] X(2) [of y] by auto
  show d: "descends S ?S" using c t'(3) descends_trans by blast
  have keep: "owner_of ?S y = owner_of S y" if "0 < leaves_of ?S y" for y
  proof -
    from that obtain st' where st': "map_of ?S y = Some st'" using leaves_positive [of ?S y] c by auto
    with d obtain st where "map_of S y = Some st" "same_terms st st'" unfolding descends_def by blast
    with st' show ?thesis by (simp add: owner_of_def same_terms_fields)
  qed
  have "book_all (book_terms ?S) b"
    unfolding book_all_def
  proof (intro allI impI)
    fix y x
    assume x: "map_of (b_order_lookup b) y = Some x"
    then have "y \<in> book_ids b" by (auto simp: book_ids_def)
    with leaves book_ids_qty [OF wf, of y] have "0 < leaves_of ?S y" by simp
    from keep [OF this] own x show "book_terms ?S y x" by (simp add: book_all_def book_terms_def)
  qed
  moreover have "owner_of ?S (o_order_id x) = o_trader_id x" if "x \<in> set xs" for x
  proof -
    have "0 < open_qty xs (o_order_id x)" using open_ids [of xs "o_order_id x"] w that by (auto simp: waits_def)
    with keep leaves owns [OF that] show ?thesis by simp
  qed
  ultimately show "core_ok b xs ?S" using wf clean ids w c leaves by (simp add: core_ok_def)
qed

lemma cascade_fire_shape:
  assumes inv: "cascade_inv U P n c" and res: "cascade_fire c = Some c'"
  shows "set (waiting c') \<subseteq> set (waiting c)" and "book_ids (c_book c') \<subseteq> book_ids (c_book c) \<union> o_order_id ` set (waiting c)"
proof -
  obtain stop pending where q: "c_queue c = stop # pending"
    using res by (cases "c_queue c") (simp_all add: cascade_fire_def)
  from res obtain out1 b' out2 r where ex: "execute_into stop (c_book c, out1) = Some (b', out2, r)"
    and c': "c' = c\<lparr>c_book := b', c_out := out2, c_queue := pending\<rparr>"
    by (auto simp: cascade_fire_def q Let_def split: bind_splits)
  have w: "waiting c = stop # pending @ s_parked (c_stops c)" "waiting c' = pending @ s_parked (c_stops c)"
    by (simp_all add: waiting_def q c')
  then show "set (waiting c') \<subseteq> set (waiting c)" by auto
  from inv w have wf: "wf_book (c_book c)" and new: "o_order_id stop \<notin> book_ids (c_book c)" and qs: "o_quantity stop < 4294967296"
    by (auto simp: cascade_inv_def)
  from execute_into_ok [OF wf new qs, of out1] ex have "book_ids b' \<subseteq> insert (o_order_id stop) (book_ids (c_book c))" by auto
  then show "book_ids (c_book c') \<subseteq> book_ids (c_book c) \<union> o_order_id ` set (waiting c)" by (auto simp: c' w)
qed

lemma run_stop_cascade_shape:
  assumes wf: "wf_book b" and ids: "distinct (map o_order_id (s_parked stops))"
    and new: "\<And>x. x \<in> set (s_parked stops) \<Longrightarrow> o_order_id x \<notin> book_ids b \<and> o_quantity x < 4294967296"
    and res: "run_stop_cascade (b, stops, ltp, out) = Some (b', stops', ltp', out')"
  shows "set (s_parked stops') \<subseteq> set (s_parked stops)" and "distinct (map o_order_id (s_parked stops'))"
    and "\<And>x. x \<in> set (s_parked stops') \<Longrightarrow> o_order_id x \<notin> book_ids b'"
    and "book_ids b' \<subseteq> book_ids b \<union> o_order_id ` set (s_parked stops)"
proof -
  let ?P = "mset (map o_order_id (s_parked stops))" and ?n = "length (ex_triggered out)"
  let ?K = "\<lambda>c. set (waiting c) \<subseteq> set (s_parked stops) \<and> book_ids (c_book c) \<subseteq> book_ids b \<union> o_order_id ` set (s_parked stops)"
  define c0 where "c0 = \<lparr>c_book = b, c_stops = stops, c_last_trade_price = ltp, c_out = out, c_scanned = 0, c_queue = []\<rparr>"
  have i0: "cascade_inv (\<not> crossed b) ?P ?n c0"
    using wf ids new by (simp add: cascade_inv_def waiting_def c0_def)
  have scan: "?K (cascade_scan c)" if "cascade_inv (\<not> crossed b) ?P ?n c" "?K c" for c
    using that cascade_scan_ok(5) [OF that(1)] mset_eq_setD [OF cascade_scan_ok(3) [OF that(1)]] by simp
  have k0: "?K c0" by (simp add: c0_def waiting_def)
  from res obtain c where loop: "loop_while (\<lambda>c. c_queue c \<noteq> []) cascade_step (cascade_scan c0) = Some c"
    and c: "b' = c_book c" "stops' = c_stops c"
    by (auto simp: run_stop_cascade_def c0_def)
  note k = cascade_scan_ok(1,2) [OF i0]
  have "?K c"
  proof (rule cascade_loop.keeps [OF loop, of "\<not> crossed b" ?P ?n ?K])
    show "?K t" if "cascade_inv (\<not> crossed b) ?P ?n s \<and> c_scanned s = length (ex_fills (c_out s))"
      "c_queue s \<noteq> []" "?K s" "cascade_step s = Some t" for s t
    proof -
      from cascade_fire_ok [of "\<not> crossed b" ?P ?n s] that obtain s1 where
        f: "cascade_fire s = Some s1" "cascade_inv (\<not> crossed b) ?P ?n s1" by blast
      from cascade_fire_shape [OF _ f(1), of "\<not> crossed b" ?P ?n] that(1,3) have "?K s1" by blast
      from scan [OF f(2) this] that(4) f(1) show ?thesis by (simp add: cascade_step_def)
    qed
  qed (use k scan [OF i0 k0] in auto)
  moreover from cascade_loop.result [OF loop, of "\<not> crossed b" ?P ?n] k
  have inv: "cascade_inv (\<not> crossed b) ?P ?n c" and q: "c_queue c = []" by blast+
  ultimately show "set (s_parked stops') \<subseteq> set (s_parked stops)" "book_ids b' \<subseteq> book_ids b \<union> o_order_id ` set (s_parked stops)"
    by (simp_all add: waiting_def c)
  show "distinct (map o_order_id (s_parked stops'))" using inv q by (simp add: cascade_inv_def waiting_def c)
  show "o_order_id x \<notin> book_ids b'" if "x \<in> set (s_parked stops')" for x
    using inv q that by (simp add: cascade_inv_def waiting_def c)
qed

lemma exec_cascade:
  assumes ok: "exec_ok S b (s_parked stops @ xs) out"
  obtains b' stops' ltp' out' where "run_stop_cascade (b, stops, ltp, out) = Some (b', stops', ltp', out')"
    and "exec_ok S b' (s_parked stops' @ xs) out'"
proof -
  from ok have wf: "wf_book b" and ids: "distinct (map o_order_id (s_parked stops @ xs))"
    and w: "\<And>x. x \<in> set (s_parked stops @ xs) \<Longrightarrow> waits b x"
    and log: "logged (leaves_of S) b (open_qty (s_parked stops @ xs)) out" and own: "book_all (book_terms S) b"
    and owns: "\<And>x. x \<in> set (s_parked stops @ xs) \<Longrightarrow> owner_of S (o_order_id x) = o_trader_id x"
    by (auto simp: exec_ok_def)
  have ds: "distinct (map o_order_id (s_parked stops))" using ids by simp
  have new: "o_order_id x \<notin> book_ids b \<and> 0 < o_quantity x \<and> o_quantity x < 4294967296" if "x \<in> set (s_parked stops)" for x
    using w [of x] that by (simp add: waits_def)
  have new': "o_order_id x \<notin> book_ids b \<and> o_quantity x < 4294967296" if "x \<in> set (s_parked stops)" for x
    using new [OF that] by simp
  from run_stop_cascade_ok [OF wf ds new', of ltp out] obtain b' stops' ltp' out' where
    res: "run_stop_cascade (b, stops, ltp, out) = Some (b', stops', ltp', out')" and w': "wf_book b'"
    and ms: "mset (map o_order_id (s_parked stops')) + mset (drop (length (ex_triggered out)) (ex_triggered out')) = mset (map o_order_id (s_parked stops))"
    by blast
  note shape = run_stop_cascade_shape [OF wf ds new' res]
  have own': "book_all (book_terms S) b'"
  proof (rule run_stop_cascade_all [OF book_terms own _ wf ds new' res])
    show "\<forall>x \<in> set (s_parked stops). may_rest (book_terms S) x" using owns by (auto intro: may_rest_terms)
  qed
  have log': "logged (leaves_of S) b' (open_qty (s_parked stops' @ xs)) out'"
    using cascade_logged [OF log wf ids new res] .
  have sub: "set (s_parked stops') \<subseteq> set (s_parked stops)" using shape(1) by blast
  have "distinct (map o_order_id (s_parked stops' @ xs))"
    using ids shape(2) sub by auto
  moreover have "waits b' x" if "x \<in> set (s_parked stops' @ xs)" for x
    using w [of x] that sub shape(3) [of x] shape(4) ids by (auto simp: waits_def)
  ultimately have "exec_ok S b' (s_parked stops' @ xs) out'"
    using ok w' own' log' owns sub by (auto simp: exec_ok_def)
  with res show thesis by (rule that)
qed


section \<open>Changes of the ledger\<close>

lemma core_ids:
  assumes "core_ok b xs S"
  shows "map_of S y = None \<longleftrightarrow> y \<notin> book_ids b \<and> y \<notin> o_order_id ` set xs"
proof -
  have "map_of S y = None \<longleftrightarrow> leaves_of S y = 0" using leaves_positive [of S y] assms by (auto simp: core_ok_def)
  also have "\<dots> \<longleftrightarrow> qty_of b y = 0 \<and> open_qty xs y = 0" using assms by (simp add: core_ok_def)
  also have "\<dots> \<longleftrightarrow> y \<notin> book_ids b \<and> y \<notin> o_order_id ` set xs"
    using book_ids_qty [of b y] open_ids [of xs y] assms by (auto simp: core_ok_def waits_def)
  finally show ?thesis .
qed

lemma core_wait_state:
  assumes "core_ok b xs S" and "x \<in> set xs"
  obtains st where "map_of S (o_order_id x) = Some st" and "st_sender st = o_trader_id x" and "state_leaves st = o_quantity x"
proof -
  from core_ids [OF assms(1), of "o_order_id x"] assms(2) obtain st where st: "map_of S (o_order_id x) = Some st" by auto
  have sender: "st_sender st = o_trader_id x" using assms st by (auto simp: core_ok_def owner_of_def)
  obtain ys zs where xs: "xs = ys @ x # zs" using split_list [OF assms(2)] by blast
  have "distinct (map o_order_id (x # ys @ zs))" using assms(1) by (simp add: core_ok_def xs)
  then have fresh: "o_order_id x \<notin> o_order_id ` set (ys @ zs)" by auto
  have "open_qty xs (o_order_id x) = open_qty (x # ys @ zs) (o_order_id x)" by (rule arg_cong [OF open_qty_mset, THEN fun_cong]) (simp add: xs)
  then have "open_qty xs (o_order_id x) = o_quantity x" using open_qty_Cons(1) [OF fresh] by simp
  moreover have "qty_of b (o_order_id x) = 0" using assms by (intro qty_of_outside) (simp add: core_ok_def waits_def)
  ultimately have "leaves_of S (o_order_id x) = o_quantity x" using assms(1) by (simp add: core_ok_def)
  with st sender show thesis by (intro that) (simp_all add: leaves_of_def)
qed

lemma core_book_state:
  assumes "core_ok b xs S" and "map_of (b_order_lookup b) y = Some x"
  obtains st where "map_of S y = Some st" and "st_sender st = o_trader_id x" and "state_leaves st = o_quantity x"
    and "y \<notin> o_order_id ` set xs" and "o_order_id x = y" and "0 < o_quantity x"
proof -
  have y: "y \<in> book_ids b" using assms(2) by (auto simp: book_ids_def)
  then obtain st where st: "map_of S y = Some st" using core_ids [OF assms(1), of y] by auto
  have sender: "st_sender st = o_trader_id x" using assms st by (auto simp: core_ok_def owner_of_def book_all_def book_terms_def)
  have out: "y \<notin> o_order_id ` set xs" using y assms(1) by (auto simp: core_ok_def waits_def)
  have "leaves_of S y = qty_of b y" using assms(1) open_qty_absent [OF out] by (simp add: core_ok_def)
  with st assms(2) have "state_leaves st = o_quantity x" by (simp add: leaves_of_def qty_of_def)
  moreover have "o_order_id x = y" using assms wf_book_lookup [of b y x] by (auto simp: core_ok_def)
  moreover have "0 < o_quantity x" using assms y book_ids_qty [of b y] by (simp add: core_ok_def qty_of_def)
  ultimately show thesis using st sender out by (intro that)
qed

lemma core_wait:
  assumes ok: "core_ok b xs S" and none: "map_of S (o_order_id x) = None"
    and q: "0 < o_quantity x" "o_quantity x < 4294967296"
    and st: "state_leaves st = o_quantity x" "st_sender st = o_trader_id x" "st_order_qty st < 4294967296"
  shows "core_ok b (x # xs) (hm_insert (o_order_id x) st S)"
proof -
  let ?S = "hm_insert (o_order_id x) st S"
  from core_ids [OF ok] none have out: "o_order_id x \<notin> book_ids b" "o_order_id x \<notin> o_order_id ` set xs" by simp_all
  note oq = open_qty_Cons [OF out(2)]
  have so: "states_ok ?S" "leaves_of ?S = (leaves_of S)(o_order_id x := o_quantity x)"
    using states_ok_insert [of S st "o_order_id x"] ok st q by (simp_all add: core_ok_def)
  have own: "owner_of ?S = (owner_of S)(o_order_id x := o_trader_id x)" using st by (auto simp: owner_of_def fun_eq_iff)
  have "leaves_of ?S y = qty_of b y + open_qty (x # xs) y" for y
    using ok qty_of_outside [OF out(1)] by (simp add: so oq core_ok_def)
  moreover have "book_all (book_terms ?S) b" using ok out(1) by (auto simp: own book_all_def book_terms_def core_ok_def book_ids_def)
  moreover have "owner_of ?S (o_order_id y) = o_trader_id y" if "y \<in> set (x # xs)" for y
    using that ok out(2) by (auto simp: own core_ok_def) (metis imageI)
  ultimately show ?thesis using ok so out q by (simp add: core_ok_def waits_def)
qed

lemma qty_of_add_order: "qty_of (fst (add_order x b)) = (qty_of b)(o_order_id x := o_quantity x)"
  by (simp add: fun_eq_iff qty_of_def add_order_lookup)

lemma add_order_stp: "b_stp (fst (add_order x b)) = b_stp b"
  by (simp add: add_order_def Let_def)

lemma cancel_order_stp: "b_stp (fst (cancel_order y b)) = b_stp b"
  by (simp add: cancel_order_def Let_def split: option.split)

lemma book_ids_add_order: "book_ids (fst (add_order x b)) = insert (o_order_id x) (book_ids b)"
  by (simp add: book_ids_def add_order_lookup)

lemma book_ids_cancel_order: "book_ids (fst (cancel_order y b)) = book_ids b - {y}"
  by (auto simp: book_ids_def cancel_order_lookup split: if_splits)

lemma core_enter:
  assumes ok: "core_ok b (x # xs) S" and ty: "o_order_type x \<noteq> Market"
  shows "core_ok (fst (add_order x b)) xs S"
proof -
  let ?b = "fst (add_order x b)"
  from ok have x: "waits b x" and ids: "distinct (map o_order_id (x # xs))" and wf: "wf_book b" by (simp_all add: core_ok_def)
  then have fresh: "o_order_id x \<notin> o_order_id ` set xs" by auto
  note oq = open_qty_Cons [OF fresh]
  have "wf_book ?b" using x by (intro wf_book_add_order [OF wf]) (auto simp: waits_def book_ids_def)
  moreover have "waits ?b y" if "y \<in> set xs" for y
    using ok that distinct_head [OF ids that] by (auto simp: core_ok_def waits_def book_ids_add_order)
  moreover have "leaves_of S y = qty_of ?b y + open_qty xs y" for y
    using ok x qty_of_outside [of "o_order_id x" b] by (auto simp: core_ok_def waits_def qty_of_add_order oq)
  moreover have "book_all (book_terms S) ?b" using ok ty by (intro book_all_add_order) (simp_all add: core_ok_def book_terms_def)
  ultimately show ?thesis using ok by (simp add: core_ok_def add_order_stp)
qed

lemma owner_remove: "owner_of (hm_remove z S) y = (if y = z then [] else owner_of S y)"
  by (simp add: owner_of_def)

lemma core_unwait:
  assumes ok: "core_ok b (x # xs) S"
  shows "core_ok b xs (hm_remove (o_order_id x) S)"
proof -
  from ok have x: "waits b x" and ids: "distinct (map o_order_id (x # xs))" by (simp_all add: core_ok_def)
  then have fresh: "o_order_id x \<notin> o_order_id ` set xs" by auto
  note oq = open_qty_Cons [OF fresh]
  have so: "states_ok (hm_remove (o_order_id x) S)" "leaves_of (hm_remove (o_order_id x) S) = (leaves_of S)(o_order_id x := 0)"
    using states_ok_remove [of S] ok by (simp_all add: core_ok_def)
  have "leaves_of (hm_remove (o_order_id x) S) y = qty_of b y + open_qty xs y" for y
    using ok x qty_of_outside [of "o_order_id x" b] by (auto simp: so oq core_ok_def waits_def)
  moreover have "book_all (book_terms (hm_remove (o_order_id x) S)) b"
    using ok x by (auto simp: book_all_def book_terms_def owner_remove core_ok_def waits_def book_ids_def)
  moreover have "owner_of (hm_remove (o_order_id x) S) (o_order_id y) = o_trader_id y" if "y \<in> set xs" for y
    using ok that distinct_head [OF ids that] by (simp add: owner_remove core_ok_def)
  ultimately show ?thesis using ok so by (simp add: core_ok_def)
qed

lemma qty_of_cancel_order: "qty_of (fst (cancel_order y b)) = (qty_of b)(y := 0)"
  by (simp add: fun_eq_iff qty_of_def cancel_order_lookup)

lemma core_cancel:
  assumes ok: "core_ok b xs S" and x: "map_of (b_order_lookup b) z = Some x"
  shows "core_ok (fst (cancel_order z b)) xs (hm_remove z S)"
proof -
  obtain st where out: "z \<notin> o_order_id ` set xs" by (rule core_book_state [OF assms])
  have so: "states_ok (hm_remove z S)" "leaves_of (hm_remove z S) = (leaves_of S)(z := 0)"
    using states_ok_remove [of S] ok by (simp_all add: core_ok_def)
  have "leaves_of (hm_remove z S) y = qty_of (fst (cancel_order z b)) y + open_qty xs y" for y
    using ok open_qty_absent [OF out] by (simp add: so core_ok_def qty_of_cancel_order)
  moreover have "book_all (book_terms (hm_remove z S)) (fst (cancel_order z b))"
    using ok by (auto simp: book_all_def book_terms_def owner_remove core_ok_def cancel_order_lookup split: if_splits)
  moreover have "owner_of (hm_remove z S) (o_order_id y) = o_trader_id y" if "y \<in> set xs" for y
    using ok that out by (auto simp: owner_remove core_ok_def)
  moreover have "waits (fst (cancel_order z b)) y" if "y \<in> set xs" for y
    using ok that by (auto simp: core_ok_def waits_def book_ids_cancel_order)
  ultimately show ?thesis
    using ok so by (simp add: core_ok_def wf_book_cancel_order cancel_order_stp)
qed

lemma owner_descends:
  assumes "descends S S'" and "map_of S' y \<noteq> None"
  shows "owner_of S' y = owner_of S y"
proof -
  from assms obtain st st' where "map_of S' y = Some st'" "map_of S y = Some st" "same_terms st st'"
    unfolding descends_def by blast
  then show ?thesis by (simp add: owner_of_def same_terms_fields)
qed

lemma core_fill_book:
  assumes ok: "core_ok b xs S" and x: "map_of (b_order_lookup b) z = Some x" and q: "0 < q" "q \<le> o_quantity x"
  obtains b' md where "apply_auction_fill z q b = Some (b', md)" and "core_ok b' xs (fill_state px q z S)"
    and "map_of (b_order_lookup b') =
      (map_of (b_order_lookup b))(z := if q = o_quantity x then None else Some (x\<lparr>o_quantity := o_quantity x - q\<rparr>))"
proof -
  let ?S = "fill_state px q z S"
  from ok have wf: "wf_book b" and so: "states_ok S" by (simp_all add: core_ok_def)
  obtain b' md where f: "apply_auction_fill z q b = Some (b', md)" and w': "wf_book b'"
    and look: "map_of (b_order_lookup b') =
      (map_of (b_order_lookup b))(z := if q = o_quantity x then None else Some (x\<lparr>o_quantity := o_quantity x - q\<rparr>))"
    and stp: "b_stp b' = b_stp b"
    by (rule apply_auction_fill_ok [OF wf x q(2)]) blast
  obtain st where st: "map_of S z = Some st" "state_leaves st = o_quantity x" and out: "z \<notin> o_order_id ` set xs"
    by (rule core_book_state [OF ok x])
  have le: "q \<le> leaves_of S z" using st q by (simp add: leaves_of_def)
  note k = fill_state_ok [OF so le q(1), of px]
  have qty: "qty_of b' = (qty_of b)(z := o_quantity x - q)" using q by (simp add: fun_eq_iff qty_of_def look)
  have leaves: "leaves_of ?S y = qty_of b' y + open_qty xs y" for y
    using ok st open_qty_absent [OF out] qty_of_Some [OF x] by (simp add: k core_ok_def qty leaves_of_Some)
  have ids': "book_ids b' \<subseteq> book_ids b" using x by (auto simp: book_ids_def look split: if_splits)
  have own: "owner_of ?S y = owner_of S y" if "0 < leaves_of ?S y" for y
    using owner_descends [OF k(3)] that leaves_positive [OF k(1), of y] by simp
  have "book_all (book_terms ?S) b'"
    unfolding book_all_def
  proof (intro allI impI)
    fix y x'
    assume x': "map_of (b_order_lookup b') y = Some x'"
    then have "y \<in> book_ids b'" by (auto simp: book_ids_def)
    with leaves book_ids_qty [OF w', of y] have o: "owner_of ?S y = owner_of S y" by (intro own) simp
    from x' x obtain v where "map_of (b_order_lookup b) y = Some v" "o_trader_id x' = o_trader_id v" "o_order_type x' = o_order_type v"
      by (auto simp: look split: if_splits)
    with ok o show "book_terms ?S y x'" by (simp add: core_ok_def book_all_def book_terms_def)
  qed
  moreover have "owner_of ?S (o_order_id y) = o_trader_id y" if "y \<in> set xs" for y
  proof -
    have "0 < open_qty xs (o_order_id y)" using open_ids [of xs "o_order_id y"] ok that by (auto simp: core_ok_def waits_def)
    with own [of "o_order_id y"] leaves ok that show ?thesis by (simp add: core_ok_def)
  qed
  ultimately have "core_ok b' xs ?S"
    using ok w' k(1) leaves stp ids' by (auto simp: core_ok_def waits_def)
  with f show thesis using look by (rule that)
qed

lemma core_fill_wait:
  assumes ok: "core_ok b (x # xs) S" and q: "0 < q" "q \<le> o_quantity x"
  shows "core_ok b (if q = o_quantity x then xs else x\<lparr>o_quantity := o_quantity x - q\<rparr> # xs) (fill_state px q (o_order_id x) S)"
proof -
  let ?z = "o_order_id x" and ?x = "x\<lparr>o_quantity := o_quantity x - q\<rparr>"
  let ?S = "fill_state px q ?z S" and ?xs = "if q = o_quantity x then xs else ?x # xs"
  obtain st where st: "map_of S ?z = Some st" "state_leaves st = o_quantity x"
    by (rule core_wait_state [OF ok]) auto
  from ok have so: "states_ok S" and x: "waits b x" and ids: "distinct (map o_order_id (x # xs))" by (simp_all add: core_ok_def)
  have le: "q \<le> leaves_of S ?z" using st q by (simp add: leaves_of_def)
  note k = fill_state_ok [OF so le q(1), of px]
  have fresh: "?z \<notin> o_order_id ` set xs" using ids by auto
  then have fresh': "o_order_id ?x \<notin> o_order_id ` set xs" by simp
  note oq = open_qty_Cons [OF fresh] and oq' = open_qty_Cons [OF fresh']
  have "qty_of b ?z = 0" using x by (intro qty_of_outside) (simp add: waits_def)
  then have leaves: "leaves_of ?S y = qty_of b y + open_qty ?xs y" for y
    using ok st q by (auto simp: k core_ok_def oq oq' leaves_of_Some)
  have own: "owner_of ?S y = owner_of S y" if "0 < leaves_of ?S y" for y
    using owner_descends [OF k(3)] that leaves_positive [OF k(1), of y] by simp
  have w: "\<forall>y \<in> set ?xs. waits b y" using ok q by (auto simp: core_ok_def waits_def)
  have "book_all (book_terms ?S) b"
    unfolding book_all_def
  proof (intro allI impI)
    fix y v
    assume v: "map_of (b_order_lookup b) y = Some v"
    then have "y \<in> book_ids b" by (auto simp: book_ids_def)
    with leaves book_ids_qty [of b y] ok have "owner_of ?S y = owner_of S y" by (intro own) (simp add: core_ok_def)
    with ok v show "book_terms ?S y v" by (simp add: core_ok_def book_all_def book_terms_def)
  qed
  moreover have "owner_of ?S (o_order_id y) = o_trader_id y" if "y \<in> set ?xs" for y
  proof -
    have "0 < open_qty ?xs (o_order_id y)" using open_ids [of ?xs "o_order_id y"] w that by (auto simp: waits_def)
    with own [of "o_order_id y"] leaves have "owner_of ?S (o_order_id y) = owner_of S (o_order_id y)" by simp
    with ok that show ?thesis by (auto simp: core_ok_def split: if_splits)
  qed
  moreover have "distinct (map o_order_id ?xs)" using ids by simp
  ultimately show ?thesis using ok k(1) leaves w by (simp add: core_ok_def)
qed

end
