(* ===== verification/Fxp_Invariant.thy ===== *)
theory Fxp_Invariant
  imports Fxp_Live Fxp_Phases
begin

text \<open>
  The invariant of an engine (\<^verbatim>\<open>engine.rs\<close>, \<^verbatim>\<open>engine/phases.rs\<close>): its order states are the ledger of the orders in the
  book, the parked stops, the market orders of a call and the orders held for the close. Removing a live order never fails, and the
  expiry and cancellation sweeps return and leave exactly the orders that are not due.
\<close>

section \<open>The invariant of the engine\<close>

definition keyed :: "(string, order) hashmap \<Rightarrow> bool" where
  "keyed m \<longleftrightarrow> (\<forall>k x. (k, x) \<in> set m \<longrightarrow> k = o_order_id x)"

text \<open>The orders that wait outside the book.\<close>

definition outside :: "'r engine \<Rightarrow> order list" where
  "outside e = s_parked (en_stop_book e) @ map snd (en_call_markets e) @ map snd (en_held_close e)"

text \<open>
  Every live order has a state with its owner and its open quantity and there is no other state; outside a call the book
  is uncrossed.
\<close>

definition engine_ok :: "'r engine \<Rightarrow> bool" where
  "engine_ok e \<longleftrightarrow>
     core_ok (en_book e) (outside e) (en_states e) \<and> keyed (en_call_markets e) \<and> keyed (en_held_close e) \<and>
     (\<not> is_call (en_phase e) \<longrightarrow> \<not> crossed (en_book e))"

text \<open>What passing time and reports do not change.\<close>

definition kept :: "'r engine \<Rightarrow> 'r engine \<Rightarrow> bool" where
  "kept e e' \<longleftrightarrow>
     en_symbol e' = en_symbol e \<and> en_clock e' = en_clock e \<and> en_schedule e' = en_schedule e \<and>
     en_call_until e' = en_call_until e \<and> en_last_seen e' = en_last_seen e \<and> en_next_arrival e' = en_next_arrival e \<and>
     en_stp_default e' = en_stp_default e \<and> en_symbol_rules e' = en_symbol_rules e"

lemma kept_refl [simp]: "kept e e"
  by (simp add: kept_def)

lemma kept_trans: "kept a b \<Longrightarrow> kept b c \<Longrightarrow> kept a c"
  by (simp add: kept_def)

lemma reported_kept: "reported e e' \<Longrightarrow> kept e e'"
  by (simp add: kept_def reported_fields)

lemma reported_outside: "reported e e' \<Longrightarrow> outside e' = outside e"
  by (simp add: outside_def reported_fields)

lemma reported_ok:
  assumes "reported e e'"
  shows "engine_ok e' \<longleftrightarrow> engine_ok (e\<lparr>en_states := en_states e'\<rparr>)"
  unfolding engine_ok_def reported_outside [OF assms] by (simp add: reported_fields [OF assms]) (simp add: outside_def)

text \<open>Orders change place, states and reports do not change.\<close>

definition moved :: "'r engine \<Rightarrow> 'r engine \<Rightarrow> bool" where
  "moved e e' \<longleftrightarrow>
     (\<exists>b sb cm hc p. e' = e\<lparr>en_book := b, en_stop_book := sb, en_call_markets := cm, en_held_close := hc, en_last_trade_price := p\<rparr>)"

lemma moved_intro:
  "moved e e" "moved e (e\<lparr>en_book := b\<rparr>)" "moved e (e\<lparr>en_stop_book := sb\<rparr>)" "moved e (e\<lparr>en_call_markets := cm\<rparr>)"
  "moved e (e\<lparr>en_held_close := cm\<rparr>)" "moved e (e\<lparr>en_last_trade_price := p\<rparr>)"
proof -
  let ?u = "\<lambda>b sb cm hc p. e\<lparr>en_book := b, en_stop_book := sb, en_call_markets := cm, en_held_close := hc, en_last_trade_price := p\<rparr>"
  have "e = ?u (en_book e) (en_stop_book e) (en_call_markets e) (en_held_close e) (en_last_trade_price e)"
    "e\<lparr>en_book := b\<rparr> = ?u b (en_stop_book e) (en_call_markets e) (en_held_close e) (en_last_trade_price e)"
    "e\<lparr>en_stop_book := sb\<rparr> = ?u (en_book e) sb (en_call_markets e) (en_held_close e) (en_last_trade_price e)"
    "e\<lparr>en_call_markets := cm\<rparr> = ?u (en_book e) (en_stop_book e) cm (en_held_close e) (en_last_trade_price e)"
    "e\<lparr>en_held_close := cm\<rparr> = ?u (en_book e) (en_stop_book e) (en_call_markets e) cm (en_last_trade_price e)"
    "e\<lparr>en_last_trade_price := p\<rparr> = ?u (en_book e) (en_stop_book e) (en_call_markets e) (en_held_close e) p"
    by simp_all
  then show "moved e e" "moved e (e\<lparr>en_book := b\<rparr>)" "moved e (e\<lparr>en_stop_book := sb\<rparr>)" "moved e (e\<lparr>en_call_markets := cm\<rparr>)"
    "moved e (e\<lparr>en_held_close := cm\<rparr>)" "moved e (e\<lparr>en_last_trade_price := p\<rparr>)"
    unfolding moved_def by blast+
qed

lemma moved_fields:
  assumes "moved e e'"
  shows "en_states e' = en_states e" "en_phase e' = en_phase e" "en_diagnostics e' = en_diagnostics e" "kept e e'"
  using assms by (auto simp: moved_def kept_def)

lemma outside_states [simp]: "outside (e\<lparr>en_states := S\<rparr>) = outside e"
  by (simp add: outside_def)

lemma keyed_simps:
  assumes "keyed m"
  shows "keyed (hm_remove y m)" and "o_order_id x = y \<Longrightarrow> keyed (hm_insert y x m)"
    and "map snd (hm_remove y m) = filter (\<lambda>x. o_order_id x \<noteq> y) (map snd m)"
    and "hm_contains m y \<longleftrightarrow> y \<in> o_order_id ` set (map snd m)"
    and "map_of m y = Some z \<Longrightarrow> z \<in> set (map snd m) \<and> o_order_id z = y"
proof -
  show "keyed (hm_remove y m)" using assms by (auto simp: keyed_def hm_remove_def)
  show "keyed (hm_insert y x m)" if "o_order_id x = y" using assms that by (auto simp: keyed_def hm_insert_def split: if_splits)
  show "map snd (hm_remove y m) = filter (\<lambda>x. o_order_id x \<noteq> y) (map snd m)"
    using assms unfolding keyed_def hm_remove_def
    by (simp add: filter_map) (rule arg_cong [of _ _ "map snd"], rule filter_cong, auto)
  show "map_of m y = Some z \<Longrightarrow> z \<in> set (map snd m) \<and> o_order_id z = y"
    using assms by (force simp: keyed_def dest: map_of_SomeD)
  show "hm_contains m y \<longleftrightarrow> y \<in> o_order_id ` set (map snd m)"
  proof -
    have "dom (map_of m) = fst ` set m" by (rule dom_map_of_conv_image_fst)
    also have "\<dots> = o_order_id ` set (map snd m)" using assms by (force simp: keyed_def image_iff)
    finally show ?thesis by (simp only: hm_contains_iff)
  qed
qed

lemma hm_insert_new: "map_of m y = None \<Longrightarrow> hm_insert y x m = m @ [(y, x)]"
  by (auto simp: hm_insert_def map_of_eq_None_iff)

lemma mset_filter_id:
  assumes "distinct (map o_order_id xs)" and "x \<in> set xs"
  shows "mset xs = add_mset x (mset (filter (\<lambda>z. o_order_id z \<noteq> o_order_id x) xs))"
  using mset_filter_one [OF assms] by simp

lemma core_take:
  assumes "core_ok b xs S" and "x \<in> set xs"
  shows "core_ok b (x # filter (\<lambda>z. o_order_id z \<noteq> o_order_id x) xs) S"
proof -
  have "distinct (map o_order_id xs)" using assms(1) by (simp add: core_ok_def)
  from mset_filter_id [OF this assms(2)] have "mset xs = mset (x # filter (\<lambda>z. o_order_id z \<noteq> o_order_id x) xs)"
    by (simp only: mset.simps)
  from core_perm [OF this] assms(1) show ?thesis by (rule iffD1)
qed

lemma core_drop:
  assumes "core_ok b xs S" and "x \<in> set xs"
  shows "core_ok b (filter (\<lambda>z. o_order_id z \<noteq> o_order_id x) xs) (hm_remove (o_order_id x) S)"
  using core_unwait [OF core_take [OF assms]] .

lemma filter_id_absent: "y \<notin> o_order_id ` set xs \<Longrightarrow> filter (\<lambda>z. o_order_id z \<noteq> y) xs = xs"
  by (force simp: filter_id_conv)

text \<open>Fewer orders cannot cross where more did not.\<close>

lemma uncrossed_sub:
  assumes "wf_book b" and "wf_book b'" and "\<not> crossed b"
    and sub: "\<And>y x. map_of (b_order_lookup b') y = Some x \<Longrightarrow>
      \<exists>w. map_of (b_order_lookup b) y = Some w \<and> o_side w = o_side x \<and> o_price w = o_price x"
  shows "\<not> crossed b'"
proof
  assume "crossed b'"
  then obtain x y where x: "map_of (b_order_lookup b') (o_order_id x) = Some x" "o_side x = Buy"
    and y: "map_of (b_order_lookup b') (o_order_id y) = Some y" "o_side y = Sell" and le: "o_price y \<le> o_price x"
    unfolding crossed_live [OF assms(2)] by blast
  from sub [OF x(1)] x(2) obtain v where v: "map_of (b_order_lookup b) (o_order_id x) = Some v" "o_side v = Buy" "o_price v = o_price x" by auto
  from sub [OF y(1)] y(2) obtain w where w: "map_of (b_order_lookup b) (o_order_id y) = Some w" "o_side w = Sell" "o_price w = o_price y" by auto
  have "o_order_id v = o_order_id x" "o_order_id w = o_order_id y" using wf_book_lookup [OF assms(1)] v(1) w(1) by blast+
  with v w le have "crossed b" unfolding crossed_live [OF assms(1)] by (intro exI [of _ v] exI [of _ w]) simp
  with assms(3) show False ..
qed

section \<open>Removing a live order\<close>

lemma stops_cancel_found:
  assumes "distinct (map o_order_id (s_parked sb))" and "x \<in> set (s_parked sb)"
  shows "stops_cancel_for (o_order_id x) (o_trader_id x) sb =
    (sb\<lparr>s_parked := filter (\<lambda>z. o_order_id z \<noteq> o_order_id x) (s_parked sb)\<rparr>, Inr x)"
  using assms(1)
proof (cases rule: position_for_cases [of sb "o_order_id x" "o_trader_id x"])
  case unknown
  with assms(2) show ?thesis by simp
next
  case (foreign z)
  then have "z = x" using assms by (metis distinct_map inj_onD)
  with foreign show ?thesis by simp
next
  case (found i)
  then have "s_parked sb ! i = x" using assms by (metis distinct_map inj_onD)
  with found show ?thesis by (simp add: stops_cancel_for_def)
qed

definition removes :: "string \<Rightarrow> 'r engine \<Rightarrow> 'r engine \<Rightarrow> md_incremental option \<Rightarrow> bool" where
  "removes oid e e' md \<longleftrightarrow>
     remove_live oid e = Some (e', md) \<and> moved e e' \<and> engine_ok (e'\<lparr>en_states := hm_remove oid (en_states e)\<rparr>) \<and>
     set (map fst (en_call_markets e')) \<subseteq> set (map fst (en_call_markets e)) \<and>
     (\<not> crossed (en_book e) \<longrightarrow> \<not> crossed (en_book e'))"

lemma remove_live_book:
  assumes ok: "engine_ok e" and x: "map_of (b_order_lookup (en_book e)) oid = Some x"
  shows "\<exists>e' md. removes oid e e' md"
proof -
  from ok have core: "core_ok (en_book e) (outside e) (en_states e)" and wf: "wf_book (en_book e)"
    by (simp_all add: engine_ok_def core_ok_def)
  obtain b md where c: "cancel_order oid (en_book e) = (b, Some md)"
    using cancel_order_Some(2) [OF x] by (metis prod.collapse)
  then have b: "b = fst (cancel_order oid (en_book e))" by simp
  have un: "\<not> crossed b" if "\<not> crossed (en_book e)"
    by (rule uncrossed_sub [OF wf _ that]) (auto simp: b wf_book_cancel_order [OF wf] cancel_order_lookup split: if_splits)
  then have "engine_ok (e\<lparr>en_book := b, en_states := hm_remove oid (en_states e)\<rparr>)"
    using core_cancel [OF core x] ok by (simp add: engine_ok_def b outside_def)
  moreover have "remove_live oid e = Some (e\<lparr>en_book := b\<rparr>, Some md)" by (simp add: remove_live_def c)
  ultimately have "removes oid e (e\<lparr>en_book := b\<rparr>) (Some md)" using un by (simp add: removes_def moved_intro)
  then show ?thesis by blast
qed

lemma remove_live_outside:
  assumes ok: "engine_ok e" and none: "map_of (b_order_lookup (en_book e)) oid = None"
    and x: "x \<in> set (outside e)" "o_order_id x = oid"
  shows "\<exists>e' md. removes oid e e' md"
proof -
  from ok have core: "core_ok (en_book e) (outside e) (en_states e)" and kc: "keyed (en_call_markets e)" and kh: "keyed (en_held_close e)"
    and un: "\<not> is_call (en_phase e) \<longrightarrow> \<not> crossed (en_book e)"
    by (simp_all add: engine_ok_def)
  have dist: "distinct (map o_order_id (outside e))" using core by (simp add: core_ok_def)
  have c: "cancel_order oid (en_book e) = (en_book e, None)" using none by (rule cancel_order_None)
  define P C H where "P = o_order_id ` set (s_parked (en_stop_book e))" and "C = o_order_id ` set (map snd (en_call_markets e))"
    and "H = o_order_id ` set (map snd (en_held_close e))"
  have apart: "P \<inter> (C \<union> H) = {}" "C \<inter> H = {}" using dist by (auto simp: outside_def P_def C_def H_def)
  have has: "hm_contains (en_call_markets e) oid \<longleftrightarrow> oid \<in> C" "hm_contains (en_held_close e) oid \<longleftrightarrow> oid \<in> H"
    unfolding C_def H_def by (rule keyed_simps(4) [OF kc], rule keyed_simps(4) [OF kh])
  have out: "core_ok (en_book e) (filter (\<lambda>z. o_order_id z \<noteq> oid) (s_parked (en_stop_book e)) @
      map snd (hm_remove oid (en_call_markets e)) @ map snd (hm_remove oid (en_held_close e))) (hm_remove oid (en_states e))"
    using core_drop [OF core x(1), unfolded x(2)] by (simp add: outside_def keyed_simps(3) [OF kc] keyed_simps(3) [OF kh])
  have same: "map snd (hm_remove oid (en_call_markets e)) = map snd (en_call_markets e)" if "oid \<notin> C"
    using filter_id_absent [OF that [unfolded C_def]] by (simp only: keyed_simps(3) [OF kc])
  have same': "map snd (hm_remove oid (en_held_close e)) = map snd (en_held_close e)" if "oid \<notin> H"
    using filter_id_absent [OF that [unfolded H_def]] by (simp only: keyed_simps(3) [OF kh])
  have rl: "remove_live oid e = (if oid \<in> C then Some (e\<lparr>en_call_markets := hm_remove oid (en_call_markets e)\<rparr>, None)
      else if oid \<in> H then Some (e\<lparr>en_held_close := hm_remove oid (en_held_close e)\<rparr>, None)
      else do { st \<leftarrow> map_of (en_states e) oid;
                (case stops_cancel_for oid (st_sender st) (en_stop_book e) of
                   (sb, Inr _) \<Rightarrow> Some (e\<lparr>en_stop_book := sb\<rparr>, None) | (_, Inl _) \<Rightarrow> None) })"
    by (simp add: remove_live_def c Let_def has)
  have "oid \<in> P \<union> C \<union> H"
    using imageI [OF x(1), of o_order_id] unfolding x(2) outside_def P_def C_def H_def set_append image_Un by blast
  then consider (call) "oid \<in> C" | (held) "oid \<in> H" | (parked) "oid \<in> P" by blast
  then show ?thesis
  proof cases
    case call
    let ?e = "e\<lparr>en_call_markets := hm_remove oid (en_call_markets e)\<rparr>"
    have "oid \<notin> P" "oid \<notin> H" using call apart by blast+
    with out have "core_ok (en_book e) (outside ?e) (hm_remove oid (en_states e))"
      by (simp add: same' filter_id_absent [of oid "s_parked (en_stop_book e)"] P_def outside_def)
    then have "engine_ok (?e\<lparr>en_states := hm_remove oid (en_states e)\<rparr>)"
      using un kc kh by (simp add: engine_ok_def keyed_simps(1) outside_def)
    moreover have "set (map fst (en_call_markets ?e)) \<subseteq> set (map fst (en_call_markets e))" by (auto simp: hm_remove_def)
    ultimately have "removes oid e ?e None" unfolding removes_def rl if_P [OF call] by (simp add: moved_intro)
    then show ?thesis by blast
  next
    case held
    let ?e = "e\<lparr>en_held_close := hm_remove oid (en_held_close e)\<rparr>"
    have a: "oid \<notin> P" "oid \<notin> C" using held apart by blast+
    with out have "core_ok (en_book e) (outside ?e) (hm_remove oid (en_states e))"
      by (simp add: same filter_id_absent [of oid "s_parked (en_stop_book e)"] P_def outside_def)
    then have "engine_ok (?e\<lparr>en_states := hm_remove oid (en_states e)\<rparr>)"
      using un kc kh by (simp add: engine_ok_def keyed_simps(1) outside_def)
    then have "removes oid e ?e None" unfolding removes_def rl if_not_P [OF a(2)] if_P [OF held] by (simp add: moved_intro)
    then show ?thesis by blast
  next
    case parked
    let ?sb = "(en_stop_book e)\<lparr>s_parked := filter (\<lambda>z. o_order_id z \<noteq> oid) (s_parked (en_stop_book e))\<rparr>"
    let ?e = "e\<lparr>en_stop_book := ?sb\<rparr>"
    have a: "oid \<notin> H" "oid \<notin> C" using parked apart by blast+
    from parked [unfolded P_def] obtain z where z: "z \<in> set (s_parked (en_stop_book e))" "o_order_id z = oid" by blast
    then have "z \<in> set (outside e)" by (simp add: outside_def)
    then obtain st where st: "map_of (en_states e) oid = Some st" "st_sender st = o_trader_id z"
      using core_wait_state [OF core, of z] z(2) by metis
    have "distinct (map o_order_id (s_parked (en_stop_book e)))" using dist by (simp add: outside_def)
    from stops_cancel_found [OF this z(1)] z(2) st(2)
    have sc: "stops_cancel_for oid (st_sender st) (en_stop_book e) = (?sb, Inr z)" by simp
    from out a have "core_ok (en_book e) (outside ?e) (hm_remove oid (en_states e))"
      by (simp add: same same' outside_def)
    then have "engine_ok (?e\<lparr>en_states := hm_remove oid (en_states e)\<rparr>)"
      using un kc kh by (simp add: engine_ok_def outside_def)
    then have "removes oid e ?e None"
      unfolding removes_def rl if_not_P [OF a(2)] if_not_P [OF a(1)] by (simp add: moved_intro st(1) sc)
    then show ?thesis by blast
  qed
qed

lemma remove_live_ok:
  assumes ok: "engine_ok e" and st: "map_of (en_states e) oid = Some st"
  shows "\<exists>e' md. removes oid e e' md"
proof (cases "map_of (b_order_lookup (en_book e)) oid")
  case None
  then have "oid \<notin> book_ids (en_book e)" by (auto simp: book_ids_def)
  then obtain x where "x \<in> set (outside e)" "o_order_id x = oid"
    using core_ids [of "en_book e" "outside e" "en_states e" oid] ok st by (auto simp: engine_ok_def)
  with remove_live_outside [OF ok None] show ?thesis .
qed (rule remove_live_book [OF ok])


section \<open>Expiry and cancellation\<close>

text \<open>The invariant holds afterwards; session, clock and phase are the same.\<close>

definition steady :: "'r engine \<Rightarrow> 'r engine \<Rightarrow> bool" where
  "steady e e' \<longleftrightarrow> engine_ok e' \<and> kept e e' \<and> en_phase e' = en_phase e \<and>
     set (map fst (en_call_markets e')) \<subseteq> set (map fst (en_call_markets e)) \<and>
     (\<not> crossed (en_book e) \<longrightarrow> \<not> crossed (en_book e'))"

lemma steady_trans: "steady a b \<Longrightarrow> steady b c \<Longrightarrow> steady a c"
  unfolding steady_def by (intro conjI; elim conjE) (auto intro: kept_trans)

lemma send_md_opt_frame [simp]: "fst (send_md_opt md ts r) = fst r"
  by (simp add: send_md_opt_def split: option.split)

lemma states_self: "e\<lparr>en_states := en_states e\<rparr> = e"
  by simp

lemma finish_order_ok:
  assumes ok: "engine_ok (fst r)" and st: "map_of (en_states (fst r)) oid = Some st"
  shows "\<exists>r'. finish_order expired at oid r = Some r' \<and> steady (fst r) (fst r') \<and>
    en_states (fst r') = hm_remove oid (en_states (fst r))"
proof -
  obtain e out where r: "r = (e, out)" by fastforce
  from ok st have ok': "engine_ok e" and st': "map_of (en_states e) oid = Some st" by (simp_all add: r)
  from remove_live_ok [OF ok' st'] obtain e1 md where rl: "remove_live oid e = Some (e1, md)" and m: "moved e e1"
    and ok1: "engine_ok (e1\<lparr>en_states := hm_remove oid (en_states e)\<rparr>)" and c: "set (map fst (en_call_markets e1)) \<subseteq> set (map fst (en_call_markets e))"
    and un: "\<not> crossed (en_book e) \<longrightarrow> \<not> crossed (en_book e1)"
    unfolding removes_def by blast
  note mf = moved_fields [OF m]
  let ?e2 = "e1\<lparr>en_states := hm_remove oid (en_states e1)\<rparr>"
  let ?r1 = "(?e2, out)"
  let ?r2 = "if expired then ?r1 else emit_here (diagnostic_default\<lparr>d_kind := ''cancel_context'', d_order_id := oid, d_cause := ''auction remainder''\<rparr>) ?r1"
  let ?ev = "(if expired then report_event_new ExecExpired OrderExpired else report_event_new ExecCanceled OrderCanceled)\<lparr>ev_orig_order_id := oid\<rparr>"
  define r3 where "r3 = send_md_opt md (timestamp at) (send_report (st_output_tx st) oid (Some st) ?ev (timestamp at) ?r2)"
  have f: "finish_order expired at oid r = Some r3" using rl st' mf(1) by (simp add: finish_order_def r r3_def)
  have rep: "reported ?e2 (fst r3)" by (simp add: r3_def reported_steps reported_intro)
  have S: "en_states (fst r3) = hm_remove oid (en_states e)" by (simp add: r3_def mf(1))
  have "engine_ok (fst r3)" unfolding reported_ok [OF rep] S using ok1 by simp
  moreover have "kept e (fst r3)" using reported_kept [OF rep] mf(4) by (simp add: kept_def)
  moreover have "en_phase (fst r3) = en_phase e" "en_call_markets (fst r3) = en_call_markets e1" "en_book (fst r3) = en_book e1"
    using reported_fields [OF rep] mf(2) by simp_all
  ultimately have "steady (fst r) (fst r3)" using c un by (simp add: steady_def r)
  with f S show ?thesis by (simp add: r)
qed

lemma finish_orders_ok:
  assumes "engine_ok (fst r)" and "distinct (map snd xs)" and "\<forall>oid \<in> snd ` set xs. map_of (en_states (fst r)) oid \<noteq> None"
  shows "\<exists>r'. finish_orders expired at xs r = Some r' \<and> steady (fst r) (fst r') \<and>
    (\<forall>y. map_of (en_states (fst r')) y = (if y \<in> snd ` set xs then None else map_of (en_states (fst r)) y))"
  using assms
proof (induction xs arbitrary: r)
  case Nil
  then show ?case by (simp add: steady_def)
next
  case (Cons x xs)
  obtain n oid where x: "x = (n, oid)" by fastforce
  from Cons.prems(3) obtain st where st: "map_of (en_states (fst r)) oid = Some st" by (auto simp: x)
  from finish_order_ok [OF Cons.prems(1) st] obtain r1 where f: "finish_order expired at oid r = Some r1"
    and s1: "steady (fst r) (fst r1)" and S1: "en_states (fst r1) = hm_remove oid (en_states (fst r))"
    by blast
  have rest: "\<forall>oid \<in> snd ` set xs. map_of (en_states (fst r1)) oid \<noteq> None"
    using Cons.prems(2,3) by (auto simp: x S1)
  have "engine_ok (fst r1)" "distinct (map snd xs)" using s1 Cons.prems(2) by (simp_all add: steady_def)
  from Cons.IH [OF this rest] obtain r2 where f2: "finish_orders expired at xs r1 = Some r2"
    and s2: "steady (fst r1) (fst r2)"
    and S2: "\<forall>y. map_of (en_states (fst r2)) y = (if y \<in> snd ` set xs then None else map_of (en_states (fst r1)) y)"
    by blast
  have "finish_orders expired at (x # xs) r = Some r2" using f f2 by (simp add: x)
  with steady_trans [OF s1 s2] S2 S1 show ?case by (auto simp: x)
qed

lemma due_orders_ids:
  assumes "hm_ok (en_states e)"
  shows "distinct (map snd (due_orders P e))"
    and "y \<in> snd ` set (due_orders P e) \<longleftrightarrow> (\<exists>s. map_of (en_states e) y = Some s \<and> P y s)"
proof -
  let ?xs = "map (\<lambda>(oid, s). (st_arrival s, oid)) (filter (\<lambda>(oid, s). P oid s) (en_states e))"
  have ms: "mset (map snd (sort ?xs)) = mset (map snd ?xs)" by (simp only: mset_map mset_sort)
  have "map snd ?xs = map fst (filter (\<lambda>(oid, s). P oid s) (en_states e))" by (simp add: comp_def case_prod_beta)
  moreover have "distinct (map fst (filter (\<lambda>(oid, s). P oid s) (en_states e)))"
    using assms by (simp add: hm_ok_def distinct_map_filter)
  ultimately have "distinct (map snd ?xs)" by (simp only:)
  then show "distinct (map snd (due_orders P e))" using mset_eq_imp_distinct_iff [OF ms] by (simp add: due_orders_def)
  have "y \<in> snd ` set (due_orders P e) \<longleftrightarrow> (\<exists>s. (y, s) \<in> set (en_states e) \<and> P y s)"
    by (force simp: due_orders_def)
  also have "\<dots> \<longleftrightarrow> (\<exists>s. map_of (en_states e) y = Some s \<and> P y s)"
    using assms by (simp add: hm_ok_def)
  finally show "y \<in> snd ` set (due_orders P e) \<longleftrightarrow> (\<exists>s. map_of (en_states e) y = Some s \<and> P y s)" .
qed

lemma finish_due_ok:
  assumes ok: "engine_ok (fst r)"
  shows "\<exists>r'. finish_orders expired at (due_orders P (fst r)) r = Some r' \<and> steady (fst r) (fst r') \<and>
    (\<forall>y. map_of (en_states (fst r')) y =
       (case map_of (en_states (fst r)) y of None \<Rightarrow> None | Some s \<Rightarrow> if P y s then None else Some s))"
proof -
  have h: "hm_ok (en_states (fst r))" using ok by (simp add: engine_ok_def core_ok_def states_ok_def)
  note d = due_orders_ids [OF h, where P = P]
  have "\<forall>oid \<in> snd ` set (due_orders P (fst r)). map_of (en_states (fst r)) oid \<noteq> None"
    by (simp only: d(2) Ball_def) blast
  from finish_orders_ok [OF ok d(1) this, of expired at] obtain r' where f: "finish_orders expired at (due_orders P (fst r)) r = Some r'"
    "steady (fst r) (fst r')"
    and S: "\<forall>y. map_of (en_states (fst r')) y = (if y \<in> snd ` set (due_orders P (fst r)) then None else map_of (en_states (fst r)) y)"
    by blast
  have "map_of (en_states (fst r')) y =
       (case map_of (en_states (fst r)) y of None \<Rightarrow> None | Some s \<Rightarrow> if P y s then None else Some s)" for y
    using S by (auto simp: d(2) split: option.split)
  with f show ?thesis by blast
qed

lemma expire_ok:
  assumes "engine_ok (fst r)"
  shows "\<exists>r'. expire at day r = Some r' \<and> steady (fst r) (fst r') \<and>
    (\<forall>y. map_of (en_states (fst r')) y =
       (case map_of (en_states (fst r)) y of None \<Rightarrow> None | Some s \<Rightarrow> if is_due at day s then None else Some s))"
  unfolding expire_def using finish_due_ok [OF assms, where P = "\<lambda>_ s. is_due at day s"] .

lemma cancel_remainders_ok:
  assumes ok: "engine_ok (fst r)"
  shows "\<exists>r'. cancel_remainders tif at r = Some r' \<and> steady (fst r) (fst r') \<and> en_call_markets (fst r') = [] \<and>
    (\<forall>y. map_of (en_states (fst r')) y =
       (case map_of (en_states (fst r)) y of None \<Rightarrow> None
        | Some s \<Rightarrow> if st_time_in_force s = tif \<or> hm_contains (en_call_markets (fst r)) y then None else Some s))"
proof -
  from finish_due_ok [OF ok, where P = "\<lambda>oid s. st_time_in_force s = tif \<or> hm_contains (en_call_markets (fst r)) oid" and expired = False]
  obtain r' where f: "cancel_remainders tif at r = Some r'" and s: "steady (fst r) (fst r')"
    and S: "\<forall>y. map_of (en_states (fst r')) y =
       (case map_of (en_states (fst r)) y of None \<Rightarrow> None
        | Some s \<Rightarrow> if st_time_in_force s = tif \<or> hm_contains (en_call_markets (fst r)) y then None else Some s)"
    unfolding cancel_remainders_def by blast
  have "en_call_markets (fst r') = []"
  proof (rule ccontr)
    assume "en_call_markets (fst r') \<noteq> []"
    then obtain k x where kx: "(k, x) \<in> set (en_call_markets (fst r'))" by (cases "en_call_markets (fst r')") auto
    from s have ok': "engine_ok (fst r')" and sub: "set (map fst (en_call_markets (fst r'))) \<subseteq> set (map fst (en_call_markets (fst r)))"
      by (simp_all add: steady_def)
    have k: "k = o_order_id x" using ok' kx by (simp add: engine_ok_def keyed_def)
    have "x \<in> set (outside (fst r'))" using kx by (force simp: outside_def)
    then obtain st where st: "map_of (en_states (fst r')) k = Some st"
      using core_wait_state [of "en_book (fst r')" "outside (fst r')" "en_states (fst r')" x] ok' k by (auto simp: engine_ok_def)
    have "k \<in> fst ` set (en_call_markets (fst r))" using sub kx by force
    then have "hm_contains (en_call_markets (fst r)) k" by (simp add: hm_contains_iff dom_map_of_conv_image_fst)
    with S [rule_format, of k] st show False by (auto split: option.splits)
  qed
  with f s S show ?thesis by blast
qed

section \<open>The expiry and cancellation sweeps\<close>

lemma core_new: "core_ok (book_new symbol subs) [] []"
  by (simp add: core_ok_def wf_book_new states_ok_def leaves_of_def hm_ok_def book_all_def qty_of_def open_qty_def)
     (simp add: book_new_def stp_outcome_default_def)

lemma engine_ok_new: "engine_ok (engine_new symbol clock ids schedule)"
proof -
  have "\<not> crossed (book_new symbol broadcaster_new)"
    unfolding crossed_live [OF wf_book_new] by (simp add: book_new_def)
  then show ?thesis
    by (simp add: engine_ok_def engine_new_def outside_def keyed_def core_new stop_book_default_def)
qed

definition sample_state :: "time_in_force \<Rightarrow> order \<Rightarrow> unit order_state" where
  "sample_state tif x =
     \<lparr>st_sender = o_trader_id x, st_time_in_force = tif, st_expire_date = [], st_arrival = 1, st_side = 1,
      st_order_qty = o_quantity x, st_display_quantity = 0, st_cum_qty = 0, st_notional = 0, st_account = [],
      st_client_order_id = [], st_output_tx = ()\<rparr>"

definition sample_market :: order where
  "sample_market = (sample_order ''M1'' ''carol'' Buy 0 3 0)\<lparr>o_order_type := Market\<rparr>"

text \<open>An opening call with a crossed book and a market order.\<close>

definition sample_states :: "(string, unit order_state) hashmap" where
  "sample_states =
     hm_insert ''M1'' (sample_state AtOpen sample_market)
       (hm_insert ''S1'' (sample_state Day sample_ask) (hm_insert ''B1'' (sample_state GTC sample_bid) []))"

definition sample_engine :: "unit engine" where
  "sample_engine = (engine_new ''FXP'' (Time 0 0) 0 None)
     \<lparr>en_phase := OpeningCall, en_book := sample_book, en_call_markets := [(''M1'', sample_market)], en_states := sample_states\<rparr>"

lemma sample_engine_ok: "engine_ok sample_engine"
proof -
  let ?b0 = "book_new ''FXP'' []" and ?S1 = "hm_insert ''B1'' (sample_state GTC sample_bid) []"
  let ?b1 = "fst (add_order sample_bid ?b0)" and ?S2 = "hm_insert ''S1'' (sample_state Day sample_ask) ?S1"
  note d = sample_state_def sample_bid_def sample_ask_def sample_order_def sample_market_def state_leaves_def
  have id: "o_order_id sample_bid = ''B1''" "o_order_id sample_ask = ''S1''" "o_order_id sample_market = ''M1''" by (simp_all add: d)
  have "core_ok ?b0 [sample_bid] ?S1"
    by (rule core_wait [OF core_new, of sample_bid "sample_state GTC sample_bid", unfolded id]) (simp_all add: d)
  then have "core_ok ?b1 [] ?S1" by (rule core_enter) (simp add: d)
  then have "core_ok ?b1 [sample_ask] ?S2"
    by (rule core_wait [of _ _ _ sample_ask "sample_state Day sample_ask", unfolded id]) (simp_all add: d hm_insert_def)
  then have "core_ok sample_book [] ?S2" unfolding sample_book_def by (rule core_enter) (simp add: d)
  then have "core_ok sample_book [sample_market] sample_states" unfolding sample_states_def
    by (rule core_wait [of _ _ _ sample_market "sample_state AtOpen sample_market", unfolded id]) (simp_all add: d hm_insert_def)
  then show ?thesis
    by (simp add: engine_ok_def sample_engine_def engine_new_def outside_def stop_book_default_def is_call_def keyed_def)
       (simp add: sample_market_def sample_order_def)
qed

text \<open>
  C0. Expiry. On an engine whose order states are the ledger of its live orders, the expiry sweep never panics, keeps that
  invariant, and removes exactly the orders that are due: day orders at the close, and good-till-date orders whose date has passed.
\<close>

theorem expire_correct:
  assumes "engine_ok e"
  shows "\<exists>e' out'. expire at day (e, out) = Some (e', out') \<and> engine_ok e' \<and>
    (\<forall>y. map_of (en_states e') y =
       (case map_of (en_states e) y of None \<Rightarrow> None | Some s \<Rightarrow> if is_due at day s then None else Some s))"
proof -
  from expire_ok [of "(e, out)" at day] assms obtain r' where r: "expire at day (e, out) = Some r'" "steady e (fst r')"
    and S: "\<forall>y. map_of (en_states (fst r')) y =
       (case map_of (en_states e) y of None \<Rightarrow> None | Some s \<Rightarrow> if is_due at day s then None else Some s)"
    by auto
  then show ?thesis by (intro exI [of _ "fst r'"] exI [of _ "snd r'"]) (simp add: steady_def)
qed

theorem expire_correct_witness:
  "\<exists>e' out'. expire (Time 0 0) True (sample_engine, []) = Some (e', out') \<and> engine_ok e' \<and>
     map_of (en_states e') ''S1'' = None \<and> map_of (en_states e') ''B1'' = Some (sample_state GTC sample_bid)"
proof -
  from expire_correct [OF sample_engine_ok, of "Time 0 0" True "[]"] obtain e' out' where
    r: "expire (Time 0 0) True (sample_engine, []) = Some (e', out')" "engine_ok e'"
    and S: "\<And>y. map_of (en_states e') y =
       (case map_of (en_states sample_engine) y of None \<Rightarrow> None | Some s \<Rightarrow> if is_due (Time 0 0) True s then None else Some s)"
    by blast
  from S [of "''S1''"] S [of "''B1''"] r show ?thesis
    by (simp add: sample_engine_def sample_states_def hm_insert_def is_due_def sample_state_def)
qed

text \<open>
  C0. The end of a call. On such an engine the cancellation of the auction's remainders never panics, keeps the invariant, leaves no
  market order of the call behind, and removes exactly these market orders and the orders with the time in force of the auction.
\<close>

theorem cancel_remainders_correct:
  assumes "engine_ok e"
  shows "\<exists>e' out'. cancel_remainders tif at (e, out) = Some (e', out') \<and> engine_ok e' \<and> en_call_markets e' = [] \<and>
    (\<forall>y. map_of (en_states e') y =
       (case map_of (en_states e) y of None \<Rightarrow> None
        | Some s \<Rightarrow> if st_time_in_force s = tif \<or> hm_contains (en_call_markets e) y then None else Some s))"
proof -
  from cancel_remainders_ok [of "(e, out)" tif at, unfolded fst_conv] assms obtain r' where r: "cancel_remainders tif at (e, out) = Some r'"
    "steady e (fst r')" "en_call_markets (fst r') = []"
    and S: "\<forall>y. map_of (en_states (fst r')) y =
       (case map_of (en_states e) y of None \<Rightarrow> None
        | Some s \<Rightarrow> if st_time_in_force s = tif \<or> hm_contains (en_call_markets e) y then None else Some s)"
    by blast
  then show ?thesis by (intro exI [of _ "fst r'"] exI [of _ "snd r'"]) (simp add: steady_def)
qed

theorem cancel_remainders_correct_witness:
  "\<exists>e' out'. cancel_remainders AtOpen (Time 0 0) (sample_engine, []) = Some (e', out') \<and> engine_ok e' \<and> en_call_markets e' = [] \<and>
     map_of (en_states e') ''M1'' = None \<and> map_of (en_states e') ''B1'' = Some (sample_state GTC sample_bid)"
proof -
  from cancel_remainders_correct [OF sample_engine_ok, of AtOpen "Time 0 0" "[]"] obtain e' out' where
    r: "cancel_remainders AtOpen (Time 0 0) (sample_engine, []) = Some (e', out')" "engine_ok e'" "en_call_markets e' = []"
    and S: "\<And>y. map_of (en_states e') y =
       (case map_of (en_states sample_engine) y of None \<Rightarrow> None
        | Some s \<Rightarrow> if st_time_in_force s = AtOpen \<or> hm_contains (en_call_markets sample_engine) y then None else Some s)"
    by blast
  from S [of "''M1''"] S [of "''B1''"] r show ?thesis
    by (simp add: sample_engine_def sample_states_def hm_insert_def hm_contains_def sample_state_def)
qed

end
