(* ===== verification/Spec2Isabelle.thy ===== *)
theory Spec2Isabelle
  imports Fxp_Engine Fxp_Clearing Fxp_Schedule Fxp_Config Fxp_Invariant
begin

text \<open>
  A verification development for the matching core of FXP, an exchange core written in Rust
  (\<^verbatim>\<open>src/fxp_core\<close>).

  \<^bold>\<open>The program.\<close> One engine (\<^verbatim>\<open>engine.rs\<close>, \<^verbatim>\<open>engine/phases.rs\<close>) runs the market of one symbol. It
  owns an order book with price-time priority and iceberg reserves (\<^verbatim>\<open>order_book/order_book.rs\<close>), the
  matching algorithms with self-trade prevention (\<^verbatim>\<open>order_book/matcher.rs\<close>), the parked stop orders and
  their trigger cascade (\<^verbatim>\<open>order_book/stops.rs\<close>), and the call auction (\<^verbatim>\<open>engine/auction.rs\<close>). Requests
  are checked against the trading phase, the session schedule (\<^verbatim>\<open>engine/session.rs\<close>) and the rules of
  the symbol (\<^verbatim>\<open>symbol_config.rs\<close>), and answered with execution reports, trades and market data.

  \<^bold>\<open>The theories.\<close>
  \<^item> \<^verbatim>\<open>Fxp_Prelude\<close>: 32-bit arithmetic on naturals, loops, and the two maps of the code. A loop is
    \<^verbatim>\<open>loop_while\<close>, whose value is \<^const>\<open>None\<close> when it does not return; the locale \<^verbatim>\<open>total_loop\<close> turns an
    invariant and a measure into the fact that it returns. A hash map is an association list, a
    B-tree map a sorted one (locale \<^verbatim>\<open>ordered_map\<close>).
  \<^item> \<^verbatim>\<open>Fxp_Orders\<close>: orders, market data and execution records, the self-trade prevention modes and the
    subscription table (\<^verbatim>\<open>order.rs\<close>, \<^verbatim>\<open>market_data.rs\<close>, \<^verbatim>\<open>execution_report.rs\<close>, \<^verbatim>\<open>broadcaster.rs\<close>).
  \<^item> \<^verbatim>\<open>Fxp_Book\<close>: the order book, its operations, and a book side as a queue in price-time order
    (locale \<^verbatim>\<open>price_queue\<close>). \<^verbatim>\<open>Fxp_Book_Wf\<close>: the invariant of the book (\<^verbatim>\<open>wf_book\<close>: sorted levels,
    index, displayed slices, arrival order) and that every operation keeps it.
  \<^item> \<^verbatim>\<open>Fxp_Matcher\<close>: crossing, market, immediate-or-cancel and fill-or-kill execution.
    \<^verbatim>\<open>Fxp_Accounting\<close> states how a book may change under fills (\<^verbatim>\<open>evolves\<close>), \<^verbatim>\<open>Fxp_Matching\<close> proves
    the crossing loop, \<^verbatim>\<open>Fxp_Sweep\<close> the sweep of one and of many price levels, \<^verbatim>\<open>Fxp_Fok\<close> that the
    fill-or-kill scan agrees with the sweep.
  \<^item> \<^verbatim>\<open>Fxp_Stops\<close>: parked stops, execution of any order, and the stop cascade.
  \<^item> \<^verbatim>\<open>Fxp_Text\<close>, \<^verbatim>\<open>Fxp_Messages\<close>: string functions of the standard library; time stamps and the
    protocol messages the engine reads and writes (\<^verbatim>\<open>proto/fxp.proto\<close>).
  \<^item> \<^verbatim>\<open>Fxp_Auction\<close>, \<^verbatim>\<open>Fxp_Session\<close>, \<^verbatim>\<open>Fxp_Symbols\<close>: the call auction, the session schedule with
    expiry dates, and the rules of a symbol with their text form.
  \<^item> \<^verbatim>\<open>Fxp_Reports\<close>, \<^verbatim>\<open>Fxp_Phases\<close>, \<^verbatim>\<open>Fxp_Engine\<close>: the state of the engine and its reports, what the
    passing of time does, and the requests.

  \<^bold>\<open>Conventions.\<close> A \<^verbatim>\<open>u32\<close> is a natural number and every subtraction and addition that the code does
  on it wraps explicitly (\<^verbatim>\<open>sub_u32\<close>, \<^verbatim>\<open>add_u32\<close>, \<^verbatim>\<open>as_u32\<close>, \<^verbatim>\<open>as_i32\<close>); 64-bit and 128-bit prices and
  sums are integers, counters are naturals. A function that can panic, or a loop, returns an option
  and \<^const>\<open>None\<close> stands for both; the theorems show that the value is \<^const>\<open>Some\<close>, so no fuel is
  involved. The clock and the source of identifiers are those of the journal (\<^verbatim>\<open>event_log.rs\<close>): one
  recorded instant per request and a counter. The type of client connections is a type variable.

  \<^bold>\<open>Not modelled.\<close> Networking, threads, metrics and authentication (\<^verbatim>\<open>server.rs\<close>, \<^verbatim>\<open>metrics.rs\<close>,
  \<^verbatim>\<open>core_auth.rs\<close>), the journal file and its replay tools (\<^verbatim>\<open>event_log.rs\<close>, \<^verbatim>\<open>reproducibility.rs\<close>,
  \<^verbatim>\<open>replay_cli.rs\<close>), and the encoding of messages, which a third-party library does.
\<close>

end
